(* ===== verification/Prelude.thy ===== *)
theory Prelude
  imports Main "HOL-Library.Word" "HOL-Library.Monad_Syntax" "HOL-Library.Multiset"
begin

text \<open>
  What every component of the development shares: the machine integer types of the C++ code,
  the theorem collections the component proofs draw on, and the generic facts about machine
  words, ring positions and lists.

  A call of the code that returns normally is \<open>Some\<close> of its result. \<open>None\<close> is a call that never
  returns to its caller: a failed \<open>assert\<close> (the build keeps asserts on, \<open>server/backend/Makefile\<close>
  has no \<open>-DNDEBUG\<close>) or a loop that never exits.
\<close>

unbundle bit_operations_syntax

subsection \<open>Machine integers and pointers\<close>

type_synonym u8 = "8 word"
type_synonym u16 = "16 word"
type_synonym u32 = "32 word"
type_synonym u64 = "64 word"

text \<open>The address of a heap object of the code; two objects never share one.\<close>

type_synonym ptr = nat

text \<open>Byte addressed memory, as \<open>memcpy\<close> and pointer arithmetic see it.\<close>

type_synonym memory = "u64 \<Rightarrow> u8"

subsection \<open>Collections\<close>

named_theorems word_nat \<open>machine words read as natural numbers, under their no-overflow conditions\<close>
named_theorems op_codes \<open>the numeric values of the collective operation codes\<close>
named_theorems const_defs \<open>the numeric values of the configuration macros\<close>
named_theorems qp_defs \<open>the operations of a queue pair, unfolded\<close>

text \<open>A C++ \<open>assert\<close>: aborts the process unless the condition holds.\<close>

definition c_assert :: "bool \<Rightarrow> unit option" where
  "c_assert b = (if b then Some () else None)"

lemma c_assert_bind [simp]:
  "c_assert b \<bind> f = (if b then f () else None)"
  by (simp add: c_assert_def)

lemma c_assert_Some [simp]: "c_assert b = Some u \<longleftrightarrow> b"
  by (simp add: c_assert_def)

subsection \<open>Words as natural numbers\<close>

lemma unat_inc [word_nat]:
  fixes x :: "'a::len word"
  assumes "Suc (unat x) < 2 ^ LENGTH('a)"
  shows "unat (x + 1) = Suc (unat x)"
  using assms by (metis One_nat_def Suc_eq_plus1 mod_less unat_word_ariths(1) unat_1)

lemma unat_dec [word_nat]:
  fixes x :: "'a::len word"
  assumes "0 < unat x"
  shows "unat (x - 1) = unat x - 1"
proof -
  have "1 \<le> x"
    using assms by (metis One_nat_def Suc_leI unat_1 word_le_nat_alt)
  then show ?thesis
    by (simp add: unat_sub)
qed

lemma unat_add_small:
  fixes x y :: "'a::len word"
  assumes "unat x + unat y < 2 ^ LENGTH('a)"
  shows "unat (x + y) = unat x + unat y"
  using assms by (simp add: unat_word_ariths)

lemma unat_of_nat_small [word_nat]:
  assumes "n < 2 ^ LENGTH('a::len)"
  shows "unat (of_nat n :: 'a word) = n"
  using assms by (simp add: unat_of_nat)

lemma word_eq_of_nat_iff:
  fixes x :: "'a::len word"
  assumes "n < 2 ^ LENGTH('a)"
  shows "x = of_nat n \<longleftrightarrow> unat x = n"
proof
  assume "x = of_nat n" then show "unat x = n"
    using assms by (simp add: unat_of_nat)
next
  assume "unat x = n" then show "x = of_nat n"
    by (simp add: assms word_unat_eq_iff unat_of_nat)
qed

lemma unat_less_size: "unat (x :: 'a::len word) < 2 ^ LENGTH('a)"
  by (rule unsigned_less)

lemma u8_bound: "unat (x :: u8) < 256"
  using unat_less_size[of x] by simp

lemma u16_bound: "unat (x :: u16) < 65536"
  using unat_less_size[of x] by simp

lemma u32_bound: "unat (x :: u32) < 4294967296"
  using unat_less_size[of x] by simp

lemma unat_ucast_u64 [word_nat]: "unat (ucast (x :: u32) :: u64) = unat x"
  using u32_bound[of x] by (simp add: unsigned_ucast_eq take_bit_nat_eq_self)

subsection \<open>Lists\<close>

lemma takeWhile_length_le: "length (takeWhile P xs) \<le> length xs"
  by (induction xs) auto

lemma map_upt_shift: "map f [i..<i + n] = map (\<lambda>k. f (i + k)) [0..<n]"
proof -
  have "[i..<i + n] = map (\<lambda>k. k + i) [0..<n]"
    by (simp add: map_add_upt add.commute)
  then show ?thesis
    by (simp add: comp_def add.commute)
qed

lemma sum_list_upt_if_less:
  "sum_list (map (\<lambda>i. if i < r then (1::nat) else 0) [0..<n]) = min r n"
  by (induction n) auto

subsection \<open>Text\<close>

text \<open>
  \<open>std::to_string\<close> of an unsigned and of a signed integer; \<open>boost::join\<close>, which is also \<open>details::join\<close> of the command
  line library.
\<close>

fun to_string :: "nat \<Rightarrow> string" where
  "to_string n = (if n < 10 then [char_of (48 + n)] else to_string (n div 10) @ [char_of (48 + n mod 10)])"

definition int_to_string :: "int \<Rightarrow> string" where
  "int_to_string i = (if i < 0 then CHR ''-'' # to_string (nat (- i)) else to_string (nat i))"

fun join_strings :: "string list \<Rightarrow> string \<Rightarrow> string" where
  "join_strings [] sep = ''''"
| "join_strings [s] sep = s"
| "join_strings (s # t # ss) sep = s @ sep @ join_strings (t # ss) sep"

subsection \<open>Memory\<close>

text \<open>
  Reading and writing \<open>n\<close> consecutive bytes; addresses are 64 bit and wrap as the hardware's do.
\<close>

definition mem_read :: "memory \<Rightarrow> u64 \<Rightarrow> nat \<Rightarrow> u8 list" where
  "mem_read m a n = map (\<lambda>i. m (a + of_nat i)) [0..<n]"

definition mem_write :: "memory \<Rightarrow> u64 \<Rightarrow> u8 list \<Rightarrow> memory" where
  "mem_write m a bs = (\<lambda>x. if unat (x - a) < length bs then bs ! unat (x - a) else m x)"

lemma length_mem_read [simp]: "length (mem_read m a n) = n"
  by (simp add: mem_read_def)

lemma mem_write_Nil [simp]: "mem_write m a [] = m"
  by (simp add: mem_write_def)

lemma mem_read_write:
  assumes "length bs < 2 ^ 64"
  shows "mem_read (mem_write m a bs) a (length bs) = bs"
proof (rule nth_equalityI)
  fix i assume "i < length (mem_read (mem_write m a bs) a (length bs))"
  then have "i < length bs" by simp
  moreover have "unat (a + of_nat i - a) = i"
    using assms \<open>i < length bs\<close> by (simp add: unat_of_nat_small)
  ultimately show "mem_read (mem_write m a bs) a (length bs) ! i = bs ! i"
    by (simp add: mem_read_def mem_write_def)
qed simp

text \<open>The bytes from \<open>a\<close> to \<open>a + n\<close>, as offsets from a base, do not meet those from \<open>b\<close> to \<open>b + k\<close>.\<close>

lemma mem_read_write_other:
  assumes "\<And>i. i < n \<Longrightarrow> length bs \<le> unat (b + of_nat i - a)"
  shows "mem_read (mem_write m a bs) b n = mem_read m b n"
  using assms[THEN leD] by (simp add: mem_read_def mem_write_def)

end
