(* ===== verification/CommonTypes.thy ===== *)
theory CommonTypes
  imports Prelude
begin

text \<open>
  The vocabulary of \<open>server/common/common.hpp\<close>, shared by the frontend and the backend: the codes
  of the collective operations, the communication group and the operation record of the shared
  memory, and the two predicates that say in which direction a payload travels.
\<close>

subsection \<open>Operation codes\<close>

text \<open>The enumeration is stored in an \<open>op_code_t\<close>, that is, in a byte nothing checks.\<close>

definition OP_ALL_REDUCE :: u8 where [op_codes]: "OP_ALL_REDUCE = 1"
definition OP_REDUCE :: u8 where [op_codes]: "OP_REDUCE = 2"
definition OP_BROADCAST :: u8 where [op_codes]: "OP_BROADCAST = 3"
definition OP_REDUCE_SCATTER :: u8 where [op_codes]: "OP_REDUCE_SCATTER = 4"
definition OP_ALL_GATHER :: u8 where [op_codes]: "OP_ALL_GATHER = 5"

definition QUEUE_SIZE :: nat where [const_defs]: "QUEUE_SIZE = 1024"

subsection \<open>Groups and operations\<close>

record group_t =
  group_id :: u8
  group_size :: u8
  group_rank :: u8
  group_agg_addr :: u16
  group_agg_len :: u16
  switch_ip :: u32

text \<open>
  \<open>op_size\<close> counts bytes, \<open>shm_buffer\<close> is the address of the operation's bytes in the shared
  memory, \<open>op_with_fut\<close> points back to the frontend's own record of the operation.
\<close>

record op_t =
  op_code :: u8
  op_root :: u8
  op_size :: u32
  shm_buffer :: u64
  op_group :: group_t
  op_with_fut :: ptr

definition need_tx :: "op_t \<Rightarrow> bool" where
  "need_tx op \<longleftrightarrow> op_code op = OP_ALL_REDUCE
     \<or> (op_code op = OP_REDUCE \<and> op_root op \<noteq> group_rank (op_group op))
     \<or> (op_code op = OP_BROADCAST \<and> op_root op = group_rank (op_group op))"

definition need_rx :: "op_t \<Rightarrow> bool" where
  "need_rx op \<longleftrightarrow> op_code op = OP_ALL_REDUCE
     \<or> (op_code op = OP_REDUCE \<and> op_root op = group_rank (op_group op))
     \<or> (op_code op = OP_BROADCAST \<and> op_root op \<noteq> group_rank (op_group op))"

text \<open>
  Of the operations the backend implements natively, an all-reduce moves a payload both ways and
  a rooted one moves it exactly one way; the two codes the frontend decomposes move none.
\<close>

lemma need_both_iff_all_reduce: "need_tx op \<and> need_rx op \<longleftrightarrow> op_code op = OP_ALL_REDUCE"
  by (auto simp: need_tx_def need_rx_def op_codes)

lemma rooted_one_way:
  "op_code op \<in> {OP_REDUCE, OP_BROADCAST} \<Longrightarrow> need_tx op \<longleftrightarrow> \<not> need_rx op"
  by (auto simp: need_tx_def need_rx_def op_codes)

lemma no_direction_iff:
  "\<not> need_tx op \<and> \<not> need_rx op
     \<longleftrightarrow> op_code op \<notin> {OP_ALL_REDUCE, OP_REDUCE, OP_BROADCAST}"
  by (auto simp: need_tx_def need_rx_def op_codes)

end
