(* ===== verification/QueuePair.thy ===== *)
theory QueuePair
  imports CommonTypes
begin

text \<open>
  The queue pair of \<open>server/common/common.hpp\<close>: a work queue and a completion queue between one
  requester thread and one responder thread, and the requester's count of what is outstanding.

  The queues themselves are \<open>boost::lockfree::spsc_queue\<close> objects, which the repository only
  calls. They are a parameter: the record \<open>spsc_ops\<close> of the four calls the code makes, and the
  locale \<open>spsc_queue\<close> of what Boost documents for them (a bounded FIFO whose \<open>push\<close> fails when it is full).
  One call of a queue is one atomic step; that is the contract of a single-producer,
  single-consumer queue used by one thread at each end.
\<close>

subsection \<open>The queues the pair is built from\<close>

record ('q, 'a) spsc_ops =
  spsc_push :: "'a \<Rightarrow> 'q \<Rightarrow> bool \<times> 'q"
  spsc_read_available :: "'q \<Rightarrow> nat"
  spsc_front :: "'q \<Rightarrow> 'a"
  spsc_pop :: "'q \<Rightarrow> 'q"

locale spsc_queue =
  fixes Q :: "('q, 'a) spsc_ops"
    and contents :: "'q \<Rightarrow> 'a list"
    and capacity :: nat
  assumes push_room: "length (contents q) < capacity \<Longrightarrow>
      fst (spsc_push Q x q) \<and> contents (snd (spsc_push Q x q)) = contents q @ [x]"
    and push_full: "\<not> length (contents q) < capacity \<Longrightarrow>
      \<not> fst (spsc_push Q x q) \<and> contents (snd (spsc_push Q x q)) = contents q"
    and read_available: "spsc_read_available Q q = length (contents q)"
    and front: "contents q \<noteq> [] \<Longrightarrow> spsc_front Q q = hd (contents q)"
    and pop: "contents q \<noteq> [] \<Longrightarrow> contents (spsc_pop Q q) = tl (contents q)"

subsection \<open>The queue pair\<close>

text \<open>\<open>num_in_queue\<close> is a \<open>size_t\<close>.\<close>

record 'q queue_pair =
  wq :: 'q
  cq :: 'q
  num_in_queue :: u64

definition available :: "nat \<Rightarrow> 'q queue_pair \<Rightarrow> u64" where
  [qp_defs]: "available SIZE qp = of_nat SIZE - num_in_queue qp"

text \<open>The boolean a call returns comes with the new state of the pair.\<close>

definition push_req :: "('q, 'a) spsc_ops \<Rightarrow> nat \<Rightarrow> 'a \<Rightarrow> 'q queue_pair \<Rightarrow> (bool \<times> 'q queue_pair) option" where
  [qp_defs]: "push_req Q SIZE e qp =
     (if num_in_queue qp = of_nat SIZE then Some (False, qp)
      else do {
        let (ret, wq') = spsc_push Q e (wq qp);
        c_assert ret;
        Some (True, qp\<lparr>num_in_queue := num_in_queue qp + 1, wq := wq'\<rparr>)
      })"

text \<open>\<open>front_req\<close> and \<open>front_resp\<close>: \<open>None\<close> when the call returns false and leaves its argument alone.\<close>

definition front_req :: "('q, 'a) spsc_ops \<Rightarrow> 'q queue_pair \<Rightarrow> 'a option" where
  [qp_defs]: "front_req Q qp =
     (if 0 < spsc_read_available Q (wq qp) then Some (spsc_front Q (wq qp)) else None)"

definition pop_req :: "('q, 'a) spsc_ops \<Rightarrow> 'q queue_pair \<Rightarrow> 'q queue_pair option" where
  [qp_defs]: "pop_req Q qp = do {
     c_assert (0 < spsc_read_available Q (wq qp));
     Some (qp\<lparr>wq := spsc_pop Q (wq qp)\<rparr>)
   }"

definition push_resp :: "('q, 'a) spsc_ops \<Rightarrow> 'a \<Rightarrow> 'q queue_pair \<Rightarrow> (bool \<times> 'q queue_pair) option" where
  [qp_defs]: "push_resp Q e qp = do {
     let (ret, cq') = spsc_push Q e (cq qp);
     c_assert ret;
     Some (ret, qp\<lparr>cq := cq'\<rparr>)
   }"

definition front_resp :: "('q, 'a) spsc_ops \<Rightarrow> 'q queue_pair \<Rightarrow> 'a option" where
  [qp_defs]: "front_resp Q qp =
     (if 0 < spsc_read_available Q (cq qp) then Some (spsc_front Q (cq qp)) else None)"

definition pop_resp :: "('q, 'a) spsc_ops \<Rightarrow> 'q queue_pair \<Rightarrow> 'q queue_pair option" where
  [qp_defs]: "pop_resp Q qp = do {
     c_assert (0 < spsc_read_available Q (cq qp));
     Some (qp\<lparr>cq := spsc_pop Q (cq qp), num_in_queue := num_in_queue qp - 1\<rparr>)
   }"

subsection \<open>What each call does, on the contents of the two queues\<close>

text \<open>
  \<open>qp_ok held qp\<close>: the requester's count is the number of requests that are queued, that the
  responder has taken out and not answered yet (\<open>held\<close>), or whose answer is queued; and it never
  passes the size of the pair.
\<close>

definition qp_ok :: "('q \<Rightarrow> 'a list) \<Rightarrow> nat \<Rightarrow> nat \<Rightarrow> 'q queue_pair \<Rightarrow> bool" where
  "qp_ok contents SIZE held qp \<longleftrightarrow>
     unat (num_in_queue qp) = length (contents (wq qp)) + held + length (contents (cq qp))
   \<and> unat (num_in_queue qp) \<le> SIZE"

text \<open>A template argument \<open>SIZE\<close> is an \<open>int\<close>, so it is below \<open>2 ^ 31\<close>.\<close>

locale queue_pair_impl = spsc_queue Q contents SIZE
  for Q :: "('q, 'a) spsc_ops" and contents :: "'q \<Rightarrow> 'a list" and SIZE :: nat +
  assumes size_int: "SIZE < 2 ^ 31"
begin

abbreviation "ok \<equiv> qp_ok contents SIZE"
abbreviation "work qp \<equiv> contents (wq qp)"
abbreviation "answers qp \<equiv> contents (cq qp)"

lemma size_u64: "SIZE < 2 ^ LENGTH(64)"
  using size_int by simp

lemma num_full_iff: "num_in_queue qp = of_nat SIZE \<longleftrightarrow> unat (num_in_queue qp) = SIZE"
  using size_u64 by (rule word_eq_of_nat_iff)

lemma push_cases:
  obtains (room) q' where "spsc_push Q x q = (True, q')" "length (contents q) < SIZE" "contents q' = contents q @ [x]"
  | (full) q' where "spsc_push Q x q = (False, q')" "SIZE \<le> length (contents q)" "contents q' = contents q"
proof -
  obtain b q' where p: "spsc_push Q x q = (b, q')"
    by (cases "spsc_push Q x q")
  show thesis
  proof (cases "length (contents q) < SIZE")
    case True
    with push_room[OF True, of x] p show ?thesis by (intro room[of q']) auto
  next
    case False
    with push_full[OF False, of x] p show ?thesis by (intro full[of q']) auto
  qed
qed

lemma push_req_full:
  "unat (num_in_queue qp) = SIZE \<Longrightarrow> push_req Q SIZE e qp = Some (False, qp)"
  by (simp add: push_req_def num_full_iff)

lemma push_req_room:
  assumes "ok held qp" "unat (num_in_queue qp) < SIZE"
  obtains qp' where "push_req Q SIZE e qp = Some (True, qp')" "ok held qp'"
    "work qp' = work qp @ [e]" "cq qp' = cq qp" "unat (num_in_queue qp') = Suc (unat (num_in_queue qp))"
proof -
  have "length (work qp) < SIZE"
    using assms by (simp add: qp_ok_def)
  then obtain q' where q': "spsc_push Q e (wq qp) = (True, q')" "contents q' = work qp @ [e]"
    using push_cases[of e "wq qp"] by (metis not_less)
  have inc: "unat (num_in_queue qp + 1) = Suc (unat (num_in_queue qp))"
    using assms size_u64 by (intro unat_inc) linarith
  show ?thesis
    using assms q' inc
    by (intro that[of "qp\<lparr>num_in_queue := num_in_queue qp + 1, wq := q'\<rparr>"])
      (auto simp: push_req_def num_full_iff qp_ok_def)
qed

lemma front_req_eq: "front_req Q qp = (case work qp of [] \<Rightarrow> None | e # _ \<Rightarrow> Some e)"
  using front[of "wq qp"] by (cases "work qp") (auto simp: front_req_def read_available)

lemma front_resp_eq: "front_resp Q qp = (case answers qp of [] \<Rightarrow> None | e # _ \<Rightarrow> Some e)"
  using front[of "cq qp"] by (cases "answers qp") (auto simp: front_resp_def read_available)

lemma pop_req_empty: "work qp = [] \<Longrightarrow> pop_req Q qp = None"
  by (simp add: pop_req_def read_available)

lemma pop_req_cons:
  assumes "ok held qp" "work qp = e # es"
  obtains qp' where "pop_req Q qp = Some qp'" "ok (Suc held) qp'" "work qp' = es"
    "cq qp' = cq qp" "num_in_queue qp' = num_in_queue qp"
  using assms pop[of "wq qp"]
  by (intro that[of "qp\<lparr>wq := spsc_pop Q (wq qp)\<rparr>"])
    (auto simp: pop_req_def read_available qp_ok_def)

lemma push_resp_held:
  assumes "ok (Suc held) qp"
  obtains qp' where "push_resp Q e qp = Some (True, qp')" "ok held qp'" "answers qp' = answers qp @ [e]"
    "wq qp' = wq qp" "num_in_queue qp' = num_in_queue qp"
proof -
  have "length (answers qp) < SIZE"
    using assms by (simp add: qp_ok_def)
  then obtain q' where "spsc_push Q e (cq qp) = (True, q')" "contents q' = answers qp @ [e]"
    using push_cases[of e "cq qp"] by (metis not_less)
  then show ?thesis
    using assms by (intro that[of "qp\<lparr>cq := q'\<rparr>"]) (auto simp: push_resp_def qp_ok_def)
qed

lemma pop_resp_empty: "answers qp = [] \<Longrightarrow> pop_resp Q qp = None"
  by (simp add: pop_resp_def read_available)

lemma pop_resp_cons:
  assumes "ok held qp" "answers qp = e # es"
  obtains qp' where "pop_resp Q qp = Some qp'" "ok held qp'" "answers qp' = es" "wq qp' = wq qp"
    "Suc (unat (num_in_queue qp')) = unat (num_in_queue qp)"
proof -
  have dec: "unat (num_in_queue qp - 1) = unat (num_in_queue qp) - 1"
    using assms by (intro unat_dec) (simp add: qp_ok_def)
  show ?thesis
    using assms pop[of "cq qp"] dec
    by (intro that[of "qp\<lparr>cq := spsc_pop Q (cq qp), num_in_queue := num_in_queue qp - 1\<rparr>"])
      (auto simp: pop_resp_def read_available qp_ok_def)
qed

lemma available_eq:
  assumes "ok held qp"
  shows "unat (available SIZE qp) = SIZE - (length (work qp) + held + length (answers qp))"
proof -
  have "num_in_queue qp \<le> of_nat SIZE"
    using assms size_u64 by (simp add: qp_ok_def word_le_nat_alt unat_of_nat_small)
  then show ?thesis
    using assms size_u64 by (simp add: available_def unat_sub unat_of_nat_small qp_ok_def)
qed

end


subsection \<open>A bounded list as the queue\<close>

text \<open>
  The parameter can be instantiated: a list that refuses a push when it is full satisfies Boost's
  contract. The witnesses of the development run on it.
\<close>

definition fifo_ops :: "nat \<Rightarrow> ('a list, 'a) spsc_ops" where
  "fifo_ops n = \<lparr>
     spsc_push = (\<lambda>x q. if length q < n then (True, q @ [x]) else (False, q)),
     spsc_read_available = length,
     spsc_front = hd,
     spsc_pop = tl\<rparr>"

interpretation fifo: spsc_queue "fifo_ops n" "\<lambda>q. q" n
  by unfold_locales (auto simp: fifo_ops_def)

interpretation fifo_pair: queue_pair_impl "fifo_ops QUEUE_SIZE" "\<lambda>q. q" QUEUE_SIZE
  by unfold_locales (simp add: QUEUE_SIZE_def)

definition empty_pair :: "'q \<Rightarrow> 'q queue_pair" where
  "empty_pair q = \<lparr>wq = q, cq = q, num_in_queue = 0\<rparr>"

subsection \<open>The protocol of the two threads\<close>

text \<open>
  One requester and one responder use the pair as the comments of the code say: the requester
  calls \<open>push_req\<close>, \<open>front_resp\<close> and \<open>pop_resp\<close>; the responder calls \<open>front_req\<close> and \<open>pop_req\<close>, works
  on what it took out, and answers in order with \<open>push_resp\<close>. \<open>accepted\<close> and \<open>collected\<close> record what
  the requester handed in (pushes that returned true) and what it took back.
\<close>

record ('q, 'a) qp_sys =
  pair :: "'q queue_pair"
  held :: "'a list"
  accepted :: "'a list"
  collected :: "'a list"

inductive qp_step :: "('q, 'a) spsc_ops \<Rightarrow> nat \<Rightarrow> ('q, 'a) qp_sys \<Rightarrow> ('q, 'a) qp_sys \<Rightarrow> bool"
  for Q :: "('q, 'a) spsc_ops" and SIZE :: nat where
  post: "push_req Q SIZE e (pair s) = Some (b, qp) \<Longrightarrow>
    qp_step Q SIZE s (s\<lparr>pair := qp, accepted := accepted s @ (if b then [e] else [])\<rparr>)"
| take_out: "front_req Q (pair s) = Some e \<Longrightarrow> pop_req Q (pair s) = Some qp \<Longrightarrow>
    qp_step Q SIZE s (s\<lparr>pair := qp, held := held s @ [e]\<rparr>)"
| answer: "held s = e # es \<Longrightarrow> push_resp Q e (pair s) = Some (b, qp) \<Longrightarrow>
    qp_step Q SIZE s (s\<lparr>pair := qp, held := es\<rparr>)"
| collect: "front_resp Q (pair s) = Some e \<Longrightarrow> pop_resp Q (pair s) = Some qp \<Longrightarrow>
    qp_step Q SIZE s (s\<lparr>pair := qp, collected := collected s @ [e]\<rparr>)"

inductive_cases qp_stepE: "qp_step Q SIZE s t"

inductive qp_reach :: "('q, 'a) spsc_ops \<Rightarrow> nat \<Rightarrow> 'q \<Rightarrow> ('q, 'a) qp_sys \<Rightarrow> bool"
  for Q :: "('q, 'a) spsc_ops" and SIZE :: nat and q0 :: 'q where
  init: "qp_reach Q SIZE q0 \<lparr>pair = empty_pair q0, held = [], accepted = [], collected = []\<rparr>"
| step: "qp_reach Q SIZE q0 s \<Longrightarrow> qp_step Q SIZE s t \<Longrightarrow> qp_reach Q SIZE q0 t"

definition qp_inv :: "('q \<Rightarrow> 'a list) \<Rightarrow> nat \<Rightarrow> ('q, 'a) qp_sys \<Rightarrow> bool" where
  "qp_inv contents SIZE s \<longleftrightarrow> qp_ok contents SIZE (length (held s)) (pair s)
     \<and> accepted s = collected s @ contents (cq (pair s)) @ held s @ contents (wq (pair s))"

context queue_pair_impl begin

lemma push_req_total:
  assumes "ok h qp"
  obtains b qp' where "push_req Q SIZE e qp = Some (b, qp')" "ok h qp'" "cq qp' = cq qp"
    "work qp' = work qp @ (if b then [e] else [])" "b \<longleftrightarrow> unat (num_in_queue qp) < SIZE"
proof (cases "unat (num_in_queue qp) < SIZE")
  case True
  with assms obtain qp' where "push_req Q SIZE e qp = Some (True, qp')" "ok h qp'"
    "work qp' = work qp @ [e]" "cq qp' = cq qp"
    by (rule push_req_room)
  with True show ?thesis by (intro that[of True qp']) auto
next
  case False
  with assms show ?thesis
    by (intro that[of False qp]) (auto simp: push_req_full qp_ok_def)
qed

lemma step_inv:
  assumes "qp_step Q SIZE s t" "qp_inv contents SIZE s"
  shows "qp_inv contents SIZE t"
  using assms
proof (cases rule: qp_step.cases)
  case (post e b qp)
  from assms(2) have "ok (length (held s)) (pair s)" by (simp add: qp_inv_def)
  then obtain b' qp' where "push_req Q SIZE e (pair s) = Some (b', qp')"
    "ok (length (held s)) qp'" "cq qp' = cq (pair s)"
    "work qp' = work (pair s) @ (if b' then [e] else [])"
    by (rule push_req_total[of _ _ e])
  with post assms(2) show ?thesis by (auto simp: qp_inv_def)
next
  case (take_out e qp)
  with assms(2) obtain es where w: "work (pair s) = e # es"
    by (auto simp: front_req_eq split: list.splits)
  with assms(2) have "ok (length (held s)) (pair s)" by (simp add: qp_inv_def)
  then obtain qp' where "pop_req Q (pair s) = Some qp'" "ok (Suc (length (held s))) qp'"
    "work qp' = es" "cq qp' = cq (pair s)"
    using w by (rule pop_req_cons)
  with take_out w assms(2) show ?thesis by (auto simp: qp_inv_def)
next
  case (answer e es b qp)
  with assms(2) have "ok (Suc (length es)) (pair s)" by (simp add: qp_inv_def)
  then obtain qp' where "push_resp Q e (pair s) = Some (True, qp')" "ok (length es) qp'"
    "answers qp' = answers (pair s) @ [e]" "wq qp' = wq (pair s)"
    by (rule push_resp_held[of _ _ e])
  with answer assms(2) show ?thesis by (auto simp: qp_inv_def)
next
  case (collect e qp)
  with assms(2) obtain es where c: "answers (pair s) = e # es"
    by (auto simp: front_resp_eq split: list.splits)
  with assms(2) have "ok (length (held s)) (pair s)" by (simp add: qp_inv_def)
  then obtain qp' where "pop_resp Q (pair s) = Some qp'" "ok (length (held s)) qp'"
    "answers qp' = es" "wq qp' = wq (pair s)"
    using c by (rule pop_resp_cons)
  with collect c assms(2) show ?thesis by (auto simp: qp_inv_def)
qed

lemma reach_inv:
  assumes "qp_reach Q SIZE q0 s" "contents q0 = []"
  shows "qp_inv contents SIZE s"
  using assms(1)
proof (induction rule: qp_reach.induct)
  case init
  with assms(2) show ?case by (simp add: qp_inv_def qp_ok_def empty_pair_def)
next
  case (step s t)
  then show ?case by (blast intro: step_inv)
qed

lemma no_abort:
  assumes "qp_inv contents SIZE s"
  shows "push_req Q SIZE x (pair s) \<noteq> None"
    "front_req Q (pair s) \<noteq> None \<Longrightarrow> pop_req Q (pair s) \<noteq> None"
    "held s \<noteq> [] \<Longrightarrow> push_resp Q (hd (held s)) (pair s) \<noteq> None"
    "front_resp Q (pair s) \<noteq> None \<Longrightarrow> pop_resp Q (pair s) \<noteq> None"
proof -
  from assms have k: "ok (length (held s)) (pair s)" by (simp add: qp_inv_def)
  show "push_req Q SIZE x (pair s) \<noteq> None"
    using push_req_total[OF k, of x] by fastforce
  show "front_req Q (pair s) \<noteq> None \<Longrightarrow> pop_req Q (pair s) \<noteq> None"
    by (auto simp: front_req_eq pop_req_def read_available split: list.splits)
  show "push_resp Q (hd (held s)) (pair s) \<noteq> None" if "held s \<noteq> []"
  proof -
    from k that have "ok (Suc (length (held s) - 1)) (pair s)" by simp
    then obtain qp' where "push_resp Q (hd (held s)) (pair s) = Some (True, qp')"
      by (rule push_resp_held)
    then show ?thesis by simp
  qed
  show "front_resp Q (pair s) \<noteq> None \<Longrightarrow> pop_resp Q (pair s) \<noteq> None"
    by (auto simp: front_resp_eq pop_resp_def read_available split: list.splits)
qed

end


subsection \<open>Properties\<close>

lemma fifo_pair_impl: "n < 2 ^ 31 \<Longrightarrow> queue_pair_impl (fifo_ops n) (\<lambda>q. q) n"
  by unfold_locales simp

text \<open>A short run on queues of size 2: post, post, a refused post, take out, answer, collect.\<close>

definition qp_demo :: "(nat list, nat) qp_sys" where
  "qp_demo = \<lparr>pair = \<lparr>wq = [8], cq = [], num_in_queue = 1\<rparr>, held = [], accepted = [7, 8], collected = [7]\<rparr>"

text \<open>One more call at the end of a run, its new state named.\<close>

lemma qp_reach_calls:
  assumes "qp_reach Q SIZE q0 s"
  shows "push_req Q SIZE e (pair s) = Some (b, qp) \<Longrightarrow>
      t = s\<lparr>pair := qp, accepted := accepted s @ (if b then [e] else [])\<rparr> \<Longrightarrow> qp_reach Q SIZE q0 t"
    and "front_req Q (pair s) = Some e \<Longrightarrow> pop_req Q (pair s) = Some qp \<Longrightarrow>
      t = s\<lparr>pair := qp, held := held s @ [e]\<rparr> \<Longrightarrow> qp_reach Q SIZE q0 t"
    and "held s = e # es \<Longrightarrow> push_resp Q e (pair s) = Some (b, qp) \<Longrightarrow>
      t = s\<lparr>pair := qp, held := es\<rparr> \<Longrightarrow> qp_reach Q SIZE q0 t"
    and "front_resp Q (pair s) = Some e \<Longrightarrow> pop_resp Q (pair s) = Some qp \<Longrightarrow>
      t = s\<lparr>pair := qp, collected := collected s @ [e]\<rparr> \<Longrightarrow> qp_reach Q SIZE q0 t"
  by (simp_all add: qp_reach.step[OF assms qp_step.post] qp_reach.step[OF assms qp_step.take_out]
      qp_reach.step[OF assms qp_step.answer] qp_reach.step[OF assms qp_step.collect])

lemma qp_demo_reach: "qp_reach (fifo_ops 2) 2 [] qp_demo"
proof -
  let ?R = "\<lambda>w c n h a r. qp_reach (fifo_ops 2) 2 []
    \<lparr>pair = \<lparr>wq = w, cq = c, num_in_queue = n\<rparr>, held = h, accepted = a, collected = r\<rparr>"
  note demo = empty_pair_def fifo_ops_def qp_defs
  have "?R [] [] 0 [] [] []"
    using qp_reach.init[of "fifo_ops 2" 2 "[]"] by (simp add: demo)
  then have "?R [7] [] 1 [] [7] []"
    by (rule qp_reach_calls(1)[where e = 7 and b = True]) (simp_all add: demo)
  then have "?R [7, 8] [] 2 [] [7, 8] []"
    by (rule qp_reach_calls(1)[where e = 8 and b = True]) (simp_all add: demo)
  then have "?R [7, 8] [] 2 [] [7, 8] []"
    by (rule qp_reach_calls(1)[where e = 9 and b = False]) (simp_all add: demo)
  then have "?R [8] [] 2 [7] [7, 8] []"
    by (rule qp_reach_calls(2)[where e = 7]) (simp_all add: demo)
  then have "?R [8] [7] 2 [] [7, 8] []"
    by (rule qp_reach_calls(3)[where e = 7 and b = True]) (simp_all add: demo)
  then have "?R [8] [] 1 [] [7, 8] [7]"
    by (rule qp_reach_calls(4)[where e = 7]) (simp_all add: demo)
  then show ?thesis by (simp add: qp_demo_def)
qed

text \<open>
  C19: On any interleaving of the requester's and the responder's calls, a queue pair is a FIFO
  from the accepted requests to the collected answers: what the requester has handed in is what it
  has taken back, then the queued answers, then what the responder holds, then the queued requests,
  in that order. Its count is the number of requests not taken back, and never passes the size.
\<close>

theorem qp_is_fifo:
  assumes "queue_pair_impl Q contents SIZE" and "contents q0 = []" and "qp_reach Q SIZE q0 s"
  shows "accepted s = collected s @ contents (cq (pair s)) @ held s @ contents (wq (pair s))
    \<and> length (collected s) + unat (num_in_queue (pair s)) = length (accepted s)
    \<and> unat (num_in_queue (pair s)) \<le> SIZE
    \<and> unat (available SIZE (pair s)) = SIZE - unat (num_in_queue (pair s))"
proof -
  have inv: "qp_inv contents SIZE s"
    using assms by (intro queue_pair_impl.reach_inv)
  then have "qp_ok contents SIZE (length (held s)) (pair s)" by (simp add: qp_inv_def)
  from queue_pair_impl.available_eq[OF assms(1) this] inv show ?thesis
    by (simp add: qp_inv_def qp_ok_def)
qed

theorem qp_is_fifo_witness:
  "accepted qp_demo = [7] @ [] @ [] @ [8] \<and> unat (available 2 (pair qp_demo)) = 1"
  using qp_is_fifo[OF fifo_pair_impl[of 2] refl qp_demo_reach]
  by (simp add: qp_demo_def)

text \<open>
  No assert of a queue pair ever fails: in every reachable state a post returns (true exactly
  when fewer than the size are outstanding), a responder that sees a request can pop it, one that holds a request can
  answer it, and a requester that sees an answer can pop it.
\<close>

theorem qp_never_aborts:
  assumes "queue_pair_impl Q contents SIZE" and "contents q0 = []" and "qp_reach Q SIZE q0 s"
  shows "(\<exists>b qp. push_req Q SIZE x (pair s) = Some (b, qp) \<and> b = (unat (num_in_queue (pair s)) < SIZE))
    \<and> (front_req Q (pair s) = None \<or> pop_req Q (pair s) \<noteq> None)
    \<and> (held s = [] \<or> (\<exists>qp. push_resp Q (hd (held s)) (pair s) = Some (True, qp)))
    \<and> (front_resp Q (pair s) = None \<or> pop_resp Q (pair s) \<noteq> None)"
proof -
  have inv: "qp_inv contents SIZE s"
    using assms by (intro queue_pair_impl.reach_inv)
  then have k: "qp_ok contents SIZE (length (held s)) (pair s)" by (simp add: qp_inv_def)
  note A = queue_pair_impl.no_abort[OF assms(1) inv]
  have "\<exists>b qp. push_req Q SIZE x (pair s) = Some (b, qp) \<and> b = (unat (num_in_queue (pair s)) < SIZE)"
    using queue_pair_impl.push_req_total[OF assms(1) k, of x] by blast
  moreover have "\<exists>qp. push_resp Q (hd (held s)) (pair s) = Some (True, qp)" if "held s \<noteq> []"
  proof -
    from k that have "qp_ok contents SIZE (Suc (length (held s) - 1)) (pair s)" by simp
    from queue_pair_impl.push_resp_held[OF assms(1) this] show ?thesis by blast
  qed
  ultimately show ?thesis using A by blast
qed

theorem qp_never_aborts_witness:
  "\<exists>qp. push_req (fifo_ops 2) 2 (9::nat) (pair qp_demo) = Some (True, qp)"
  using qp_never_aborts[OF fifo_pair_impl[of 2] refl qp_demo_reach, of 9]
  by (auto simp: qp_demo_def)

end
