(* ===== verification/LoadBalancer.thy ===== *)
theory LoadBalancer
  imports QueuePair
begin

text \<open>
  The load balancer thread of the backend (\<open>server/backend/load_balancer.cpp\<close>): it takes an
  operation from the shared memory queue pair, cuts it into one \<open>sub_op_t\<close> per worker, hands each
  worker its slice over that worker's own queue pair, and answers the operation when every worker
  has answered its slice.

  \<open>Qo\<close> is the queue of operation pointers, \<open>Qs\<close> the queue of sub-operation pointers; \<open>ops\<close> reads
  the operation record behind a pointer into the shared memory, which the backend never writes.
\<close>

subsection \<open>State\<close>

record sub_op_t =
  sub_op :: ptr
  sub_data :: u64
  sub_size :: u32
  sub_agg_addr :: u16
  sub_agg_len :: u16

text \<open>
  \<open>worker_qp\<close> is \<open>thread_ctx[i].qp\<close> for \<open>i\<close> below \<open>nworker\<close>. \<open>sub_heap\<close> holds the live objects
  made by \<open>new sub_op_t\<close>; \<open>next_sub\<close> is the address of the next one.
\<close>

record ('qo, 'qs) lb_state =
  shm_qp :: "'qo queue_pair"
  worker_qp :: "'qs queue_pair list"
  sub_heap :: "ptr \<rightharpoonup> sub_op_t"
  next_sub :: ptr

subsection \<open>Cutting an operation into slices\<close>

definition slice_words :: "nat \<Rightarrow> u32 \<Rightarrow> nat \<Rightarrow> u32" where
  "slice_words nworker size_in_int32 i =
     size_in_int32 div of_nat nworker
     + (if of_nat i < size_in_int32 mod of_nat nworker then 1 else 0)"

definition slice_size :: "nat \<Rightarrow> u32 \<Rightarrow> nat \<Rightarrow> u32" where
  "slice_size nworker op_sz i =
     slice_words nworker (op_sz div 4) i * 4
     + (if i = nworker - 1 then op_sz mod 4 else 0)"

text \<open>The two products are computed as \<open>int\<close> and stored in an \<open>agg_size_t\<close>.\<close>

definition slice_agg_len :: "nat \<Rightarrow> group_t \<Rightarrow> u16" where
  "slice_agg_len nworker g = of_nat (unat (group_agg_len g) div nworker)"

definition slice_agg_addr :: "nat \<Rightarrow> group_t \<Rightarrow> nat \<Rightarrow> u16" where
  "slice_agg_addr nworker g i =
     of_nat (unat (group_agg_addr g) + unat (slice_agg_len nworker g) * i)"

definition mk_sub_op :: "nat \<Rightarrow> ptr \<Rightarrow> op_t \<Rightarrow> nat \<Rightarrow> u32 \<Rightarrow> sub_op_t" where
  "mk_sub_op nworker p op i off =
     \<lparr>sub_op = p, sub_data = shm_buffer op + ucast off, sub_size = slice_size nworker (op_size op) i,
      sub_agg_addr = slice_agg_addr nworker (op_group op) i,
      sub_agg_len = slice_agg_len nworker (op_group op)\<rparr>"

subsection \<open>Posting an operation\<close>

text \<open>The loop over the workers; the result of \<open>push_req\<close> is dropped, as in the code.\<close>

fun post_workers :: "('qs, ptr) spsc_ops \<Rightarrow> nat \<Rightarrow> ptr \<Rightarrow> op_t \<Rightarrow> nat \<Rightarrow> u32 \<Rightarrow> (ptr \<rightharpoonup> sub_op_t) \<Rightarrow> ptr
    \<Rightarrow> 'qs queue_pair list \<Rightarrow> ('qs queue_pair list \<times> (ptr \<rightharpoonup> sub_op_t) \<times> ptr) option" where
  "post_workers Qs nworker p op i off heap nxt [] = Some ([], heap, nxt)"
| "post_workers Qs nworker p op i off heap nxt (qp # qps) = do {
     (_, qp') \<leftarrow> push_req Qs QUEUE_SIZE nxt qp;
     (qps', heap', nxt') \<leftarrow> post_workers Qs nworker p op (Suc i)
        (off + slice_size nworker (op_size op) i)
        (heap(nxt \<mapsto> mk_sub_op nworker p op i off)) (Suc nxt) qps;
     Some (qp' # qps', heap', nxt')
   }"

definition lb_try_post_op :: "('qo, ptr) spsc_ops \<Rightarrow> ('qs, ptr) spsc_ops \<Rightarrow> (ptr \<Rightarrow> op_t)
    \<Rightarrow> ('qo, 'qs) lb_state \<Rightarrow> (bool \<times> ('qo, 'qs) lb_state) option" where
  "lb_try_post_op Qo Qs ops s = (case front_req Qo (shm_qp s) of
     None \<Rightarrow> Some (False, s)
   | Some p \<Rightarrow> do {
       shm \<leftarrow> pop_req Qo (shm_qp s);
       c_assert (op_code (ops p) \<in> {OP_ALL_REDUCE, OP_REDUCE} \<longrightarrow> op_size (ops p) mod 4 = 0);
       (qps, heap, nxt) \<leftarrow> post_workers Qs (length (worker_qp s)) p (ops p) 0 0
          (sub_heap s) (next_sub s) (worker_qp s);
       Some (True, s\<lparr>shm_qp := shm, worker_qp := qps, sub_heap := heap, next_sub := nxt\<rparr>)
     })"

subsection \<open>Completing an operation\<close>

text \<open>
  The second loop of \<open>try_complete_op\<close>: \<open>None\<close> where the code dereferences a null or freed
  \<open>sub_op_t\<close>. The last argument is the local \<open>op\<close>, uninitialised at the start.
\<close>

fun complete_workers :: "('qs, ptr) spsc_ops \<Rightarrow> (ptr \<rightharpoonup> sub_op_t) \<Rightarrow> 'qs queue_pair list \<Rightarrow> ptr option
    \<Rightarrow> ('qs queue_pair list \<times> (ptr \<rightharpoonup> sub_op_t) \<times> ptr option) option" where
  "complete_workers Qs heap [] op = Some ([], heap, op)"
| "complete_workers Qs heap (qp # qps) op = do {
     so \<leftarrow> front_resp Qs qp;
     qp' \<leftarrow> pop_resp Qs qp;
     sub \<leftarrow> heap so;
     (qps', heap', op') \<leftarrow> complete_workers Qs (heap(so := None)) qps (Some (sub_op sub));
     Some (qp' # qps', heap', op')
   }"

definition lb_try_complete_op :: "('qo, ptr) spsc_ops \<Rightarrow> ('qs, ptr) spsc_ops
    \<Rightarrow> ('qo, 'qs) lb_state \<Rightarrow> (bool \<times> ('qo, 'qs) lb_state) option" where
  "lb_try_complete_op Qo Qs s =
     (if \<not> list_all (\<lambda>qp. front_resp Qs qp \<noteq> None) (worker_qp s) then Some (False, s)
      else do {
        (qps, heap, op) \<leftarrow> complete_workers Qs (sub_heap s) (worker_qp s) None;
        p \<leftarrow> op;
        (_, shm) \<leftarrow> push_resp Qo p (shm_qp s);
        Some (True, s\<lparr>shm_qp := shm, worker_qp := qps, sub_heap := heap\<rparr>)
      })"

text \<open>One turn of the loop of \<open>load_balancer\<close>; the flag says whether the thread did not yield.\<close>

definition lb_iteration :: "('qo, ptr) spsc_ops \<Rightarrow> ('qs, ptr) spsc_ops \<Rightarrow> (ptr \<Rightarrow> op_t)
    \<Rightarrow> ('qo, 'qs) lb_state \<Rightarrow> (bool \<times> ('qo, 'qs) lb_state) option" where
  "lb_iteration Qo Qs ops s = do {
     (r1, s1) \<leftarrow> lb_try_complete_op Qo Qs s;
     (r2, s2) \<leftarrow> lb_try_post_op Qo Qs ops s1;
     Some (r1 \<or> r2, s2)
   }"

text \<open>
  The debugging loop \<open>test_loop\<close> (\<open>NETCCL_LB_LOOPBACK\<close>): answer each request at once.
\<close>

definition lb_test_iteration :: "('qo, ptr) spsc_ops \<Rightarrow> 'qo queue_pair \<Rightarrow> 'qo queue_pair option" where
  "lb_test_iteration Qo qp = (case front_req Qo qp of
     None \<Rightarrow> Some qp
   | Some p \<Rightarrow> do {
       qp1 \<leftarrow> pop_req Qo qp;
       (_, qp2) \<leftarrow> push_resp Qo p qp1;
       Some qp2
     })"


subsection \<open>The slices of an operation\<close>

lemma unat_slice_words:
  assumes "0 < n" "n < 2 ^ 31" "i < n"
  shows "unat (slice_words n w i) = unat w div n + (if i < unat w mod n then 1 else 0)"
proof -
  have n: "unat (of_nat n :: u32) = n" and i: "unat (of_nat i :: u32) = i"
    using assms by (simp_all add: unat_of_nat_small)
  have "unat w div n + (if i < unat w mod n then 1 else 0) < 2 ^ 32"
  proof (cases "n = 1")
    case True
    then show ?thesis using u32_bound[of w] by simp
  next
    case False
    then have "unat w div n \<le> unat w div 2"
      using assms by (intro div_le_mono2) auto
    moreover have "unat w div 2 < 2 ^ 31"
      using u32_bound[of w] by simp
    ultimately show ?thesis by simp
  qed
  then show ?thesis
    by (auto simp: slice_words_def unat_word_ariths(1) unat_div unat_mod word_less_nat_alt n i)
qed

lemma sum_unat_slice_words:
  assumes "0 < n" "n < 2 ^ 31"
  shows "(\<Sum>i<n. unat (slice_words n w i)) = unat w"
proof -
  have "(\<Sum>i<n. unat (slice_words n w i))
      = (\<Sum>i<n. unat w div n + (if i < unat w mod n then 1 else 0))"
    using assms by (intro sum.cong) (auto simp: unat_slice_words)
  also have "\<dots> = n * (unat w div n) + (\<Sum>i<n. if i < unat w mod n then 1 else 0)"
    by (simp add: sum.distrib)
  also have "(\<Sum>i<n. if i < unat w mod n then 1 else 0) = card {i. i < n \<and> i < unat w mod n}"
    by (simp add: sum.If_cases Int_def)
  also have "{i. i < n \<and> i < unat w mod n} = {..<unat w mod n}"
    using mod_less_divisor[OF assms(1), of "unat w"] by auto
  finally show ?thesis by simp
qed

lemma unat_slice_size:
  assumes "0 < n" "n < 2 ^ 31" "i < n"
  shows "unat (slice_size n sz i) =
    4 * unat (slice_words n (sz div 4) i) + (if i = n - 1 then unat sz mod 4 else 0)"
proof -
  let ?w = "sz div 4"
  have w: "unat ?w = unat sz div 4" and m: "unat (sz mod 4) = unat sz mod 4"
    by (simp_all add: unat_div unat_mod)
  have "unat (slice_words n ?w i) \<le> (\<Sum>j<n. unat (slice_words n ?w j))"
    using assms by (intro member_le_sum) auto
  then have le: "unat (slice_words n ?w i) \<le> unat sz div 4"
    using assms by (simp add: sum_unat_slice_words w)
  have mul: "unat (slice_words n ?w i * 4) = 4 * unat (slice_words n ?w i)"
    using le u32_bound[of sz] by (simp add: unat_word_ariths)
  have "4 * unat (slice_words n ?w i) + unat sz mod 4 \<le> 4 * (unat sz div 4) + unat sz mod 4"
    using le by linarith
  then have "4 * unat (slice_words n ?w i) + unat sz mod 4 < 2 ^ LENGTH(32)"
    using u32_bound[of sz] by simp
  then have "unat (slice_words n ?w i * 4 + sz mod 4) = 4 * unat (slice_words n ?w i) + unat sz mod 4"
    by (subst unat_add_small) (simp_all add: mul m)
  with mul show ?thesis
    by (auto simp: slice_size_def)
qed

lemma sum_unat_slice_size:
  assumes "0 < n" "n < 2 ^ 31"
  shows "(\<Sum>i<n. unat (slice_size n sz i)) = unat sz"
proof -
  have "(\<Sum>i<n. unat (slice_size n sz i))
      = (\<Sum>i<n. 4 * unat (slice_words n (sz div 4) i) + (if i = n - 1 then unat sz mod 4 else 0))"
    using assms by (intro sum.cong) (auto simp: unat_slice_size)
  also have "\<dots> = 4 * unat (sz div 4) + unat sz mod 4"
    using assms by (simp add: sum.distrib sum_distrib_left[symmetric] sum_unat_slice_words)
  finally show ?thesis by (simp add: unat_div)
qed

text \<open>The byte offset of slice \<open>k\<close>, as the code's running \<open>uint32_t\<close> sum.\<close>

definition slice_off :: "nat \<Rightarrow> u32 \<Rightarrow> nat \<Rightarrow> u32" where
  "slice_off n sz k = (\<Sum>j<k. slice_size n sz j)"

lemma unat_slice_off:
  assumes "0 < n" "n < 2 ^ 31" "k \<le> n"
  shows "unat (slice_off n sz k) = (\<Sum>j<k. unat (slice_size n sz j))"
  using assms(3)
proof (induction k)
  case 0
  show ?case by (simp add: slice_off_def)
next
  case (Suc k)
  have "(\<Sum>j<Suc k. unat (slice_size n sz j)) \<le> (\<Sum>j<n. unat (slice_size n sz j))"
    using Suc.prems by (intro sum_mono2) auto
  also have "\<dots> < 2 ^ LENGTH(32)"
    using assms u32_bound[of sz] by (simp add: sum_unat_slice_size)
  finally show ?case
    using Suc by (simp add: slice_off_def unat_add_small)
qed

lemma slice_end:
  assumes "0 < n" "n < 2 ^ 31" "j < k" "k \<le> n"
  shows "unat (slice_off n sz j) + unat (slice_size n sz j) \<le> unat (slice_off n sz k)"
proof -
  have "unat (slice_off n sz j) + unat (slice_size n sz j) = unat (slice_off n sz (Suc j))"
    using assms by (simp add: unat_slice_off)
  also have "\<dots> \<le> unat (slice_off n sz k)"
    using assms by (simp add: unat_slice_off del: sum.lessThan_Suc) (intro sum_mono2, auto)
  finally show ?thesis .
qed

lemma slice_end_op:
  assumes "0 < n" "n < 2 ^ 31" "k < n"
  shows "unat (slice_off n sz k) + unat (slice_size n sz k) \<le> unat sz"
  using slice_end[OF assms(1,2,3) order_refl, of sz] assms by (simp add: unat_slice_off sum_unat_slice_size)

text \<open>Aggregator slots: worker \<open>i\<close> gets the \<open>i\<close>-th block of \<open>agg_len / nworker\<close> slots.\<close>

lemma unat_slice_agg_len:
  "unat (slice_agg_len n g) = unat (group_agg_len g) div n"
proof -
  have "unat (group_agg_len g) div n < 2 ^ LENGTH(16)"
    using div_le_dividend unat_less_size by (rule le_less_trans)
  then show ?thesis
    by (simp only: slice_agg_len_def unat_of_nat_small)
qed

lemma slice_agg_block:
  assumes "i < n"
  shows "unat (slice_agg_len n g) * i + unat (slice_agg_len n g) \<le> unat (group_agg_len g)"
proof -
  have "unat (slice_agg_len n g) * i + unat (slice_agg_len n g) = (unat (group_agg_len g) div n) * Suc i"
    by (simp add: unat_slice_agg_len)
  also have "\<dots> \<le> (unat (group_agg_len g) div n) * n"
    using assms by (intro mult_le_mono2) simp
  also have "\<dots> \<le> unat (group_agg_len g)"
    by (rule div_times_less_eq_dividend)
  finally show ?thesis .
qed

lemma unat_slice_agg_addr:
  assumes "i < n" "unat (group_agg_addr g) + unat (group_agg_len g) \<le> 2 ^ 16"
    "0 < unat (slice_agg_len n g)"
  shows "unat (slice_agg_addr n g i) = unat (group_agg_addr g) + unat (slice_agg_len n g) * i"
proof -
  have "unat (group_agg_addr g) + unat (slice_agg_len n g) * i < 2 ^ LENGTH(16)"
    using slice_agg_block[OF assms(1), of g] assms(2,3) by simp
  then show ?thesis
    unfolding slice_agg_addr_def by (rule unat_of_nat_small)
qed

end
