(* ===== verification/LbSystem.thy ===== *)
theory LbSystem
  imports LoadBalancer
begin

text \<open>
  The load balancer among its neighbours: the frontend daemon, which submits operations on the
  shared memory queue pair and collects the answers, and the worker threads, each of which takes
  sub-operations from its own queue pair and answers them in order. A step of the system is one
  queue operation of a neighbour or one call of \<open>try_complete_op\<close> or \<open>try_post_op\<close>.

  \<open>w_held\<close> are the sub-operations each worker has taken out and not answered, \<open>pending\<close> the
  operations the load balancer has taken out and not answered, \<open>submitted\<close> and \<open>answered\<close> what the
  frontend handed in and took back.
\<close>

record ('qo, 'qs) lb_sys =
  lb :: "('qo, 'qs) lb_state"
  w_held :: "ptr list list"
  pending :: "ptr list"
  submitted :: "ptr list"
  answered :: "ptr list"

definition lb_init :: "'qo \<Rightarrow> 'qs \<Rightarrow> nat \<Rightarrow> ('qo, 'qs) lb_sys" where
  "lb_init qo qs n = \<lparr>lb = \<lparr>shm_qp = empty_pair qo, worker_qp = replicate n (empty_pair qs),
       sub_heap = Map.empty, next_sub = 0\<rparr>,
     w_held = replicate n [], pending = [], submitted = [], answered = []\<rparr>"

inductive lb_sys_step :: "('qo, ptr) spsc_ops \<Rightarrow> ('qs, ptr) spsc_ops \<Rightarrow> (ptr \<Rightarrow> op_t)
    \<Rightarrow> ('qo, 'qs) lb_sys \<Rightarrow> ('qo, 'qs) lb_sys \<Rightarrow> bool"
  for Qo :: "('qo, ptr) spsc_ops" and Qs :: "('qs, ptr) spsc_ops" and ops :: "ptr \<Rightarrow> op_t" where
  submit: "push_req Qo QUEUE_SIZE p (shm_qp (lb s)) = Some (b, qp) \<Longrightarrow>
    lb_sys_step Qo Qs ops s (s\<lparr>lb := (lb s)\<lparr>shm_qp := qp\<rparr>,
      submitted := submitted s @ (if b then [p] else [])\<rparr>)"
| fetch: "front_resp Qo (shm_qp (lb s)) = Some p \<Longrightarrow> pop_resp Qo (shm_qp (lb s)) = Some qp \<Longrightarrow>
    lb_sys_step Qo Qs ops s (s\<lparr>lb := (lb s)\<lparr>shm_qp := qp\<rparr>, answered := answered s @ [p]\<rparr>)"
| complete: "lb_try_complete_op Qo Qs (lb s) = Some (b, l) \<Longrightarrow>
    lb_sys_step Qo Qs ops s (s\<lparr>lb := l, pending := (if b then tl (pending s) else pending s)\<rparr>)"
| post: "lb_try_post_op Qo Qs ops (lb s) = Some (b, l) \<Longrightarrow>
    lb_sys_step Qo Qs ops s (s\<lparr>lb := l, pending :=
      (if b then pending s @ [the (front_req Qo (shm_qp (lb s)))] else pending s)\<rparr>)"
| worker_take: "k < length (worker_qp (lb s)) \<Longrightarrow> front_req Qs (worker_qp (lb s) ! k) = Some a \<Longrightarrow>
    pop_req Qs (worker_qp (lb s) ! k) = Some qp \<Longrightarrow>
    lb_sys_step Qo Qs ops s (s\<lparr>lb := (lb s)\<lparr>worker_qp := (worker_qp (lb s))[k := qp]\<rparr>,
      w_held := (w_held s)[k := w_held s ! k @ [a]]\<rparr>)"
| worker_answer: "k < length (worker_qp (lb s)) \<Longrightarrow> w_held s ! k = a # as \<Longrightarrow>
    push_resp Qs a (worker_qp (lb s) ! k) = Some (b, qp) \<Longrightarrow>
    lb_sys_step Qo Qs ops s (s\<lparr>lb := (lb s)\<lparr>worker_qp := (worker_qp (lb s))[k := qp]\<rparr>,
      w_held := (w_held s)[k := as]\<rparr>)"

inductive lb_reach :: "('qo, ptr) spsc_ops \<Rightarrow> ('qs, ptr) spsc_ops \<Rightarrow> (ptr \<Rightarrow> op_t)
    \<Rightarrow> ('qo, 'qs) lb_sys \<Rightarrow> ('qo, 'qs) lb_sys \<Rightarrow> bool"
  for Qo :: "('qo, ptr) spsc_ops" and Qs :: "('qs, ptr) spsc_ops" and ops :: "ptr \<Rightarrow> op_t"
    and s0 :: "('qo, 'qs) lb_sys" where
  init: "lb_reach Qo Qs ops s0 s0"
| step: "lb_reach Qo Qs ops s0 s \<Longrightarrow> lb_sys_step Qo Qs ops s t \<Longrightarrow> lb_reach Qo Qs ops s0 t"

subsection \<open>The invariant\<close>

text \<open>What worker \<open>k\<close> has not finished with, oldest first: answered, taken out, still queued.\<close>

definition outstanding :: "('qs \<Rightarrow> ptr list) \<Rightarrow> ('qo, 'qs) lb_sys \<Rightarrow> nat \<Rightarrow> ptr list" where
  "outstanding scont s k = scont (cq (worker_qp (lb s) ! k)) @ w_held s ! k
     @ scont (wq (worker_qp (lb s) ! k))"

text \<open>The sub-operation worker \<open>k\<close> has to be given for the operation at \<open>p\<close>.\<close>

definition slice_of :: "(ptr \<Rightarrow> op_t) \<Rightarrow> nat \<Rightarrow> ptr \<Rightarrow> nat \<Rightarrow> sub_op_t" where
  "slice_of ops n p k = mk_sub_op n p (ops p) k (slice_off n (op_size (ops p)) k)"

text \<open>
  Between the \<open>c\<close> operations answered and the \<open>d\<close> operations posted: the \<open>j\<close>-th operation owns the
  addresses \<open>j * n + k\<close>, one for each worker \<open>k\<close>.
\<close>

definition live_heap :: "(ptr \<Rightarrow> op_t) \<Rightarrow> nat \<Rightarrow> nat \<Rightarrow> nat \<Rightarrow> ptr list \<Rightarrow> ptr \<rightharpoonup> sub_op_t" where
  "live_heap ops n c d pend a =
     (if c * n \<le> a \<and> a < d * n then Some (slice_of ops n (pend ! (a div n - c)) (a mod n)) else None)"

definition lb_ok :: "('qo \<Rightarrow> ptr list) \<Rightarrow> ('qs \<Rightarrow> ptr list) \<Rightarrow> (ptr \<Rightarrow> op_t) \<Rightarrow> nat \<Rightarrow> nat \<Rightarrow> nat
    \<Rightarrow> ('qo, 'qs) lb_sys \<Rightarrow> bool" where
  "lb_ok ocont scont ops n c d s \<longleftrightarrow>
     length (worker_qp (lb s)) = n \<and> length (w_held s) = n
   \<and> d = c + length (pending s) \<and> next_sub (lb s) = d * n
   \<and> qp_ok ocont QUEUE_SIZE (length (pending s)) (shm_qp (lb s))
   \<and> submitted s = answered s @ ocont (cq (shm_qp (lb s))) @ pending s @ ocont (wq (shm_qp (lb s)))
   \<and> (\<forall>k<n. qp_ok scont QUEUE_SIZE (length (w_held s ! k)) (worker_qp (lb s) ! k)
        \<and> outstanding scont s k = map (\<lambda>j. j * n + k) [c..<d])
   \<and> sub_heap (lb s) = live_heap ops n c d (pending s)"

definition lb_inv :: "('qo \<Rightarrow> ptr list) \<Rightarrow> ('qs \<Rightarrow> ptr list) \<Rightarrow> (ptr \<Rightarrow> op_t) \<Rightarrow> nat
    \<Rightarrow> ('qo, 'qs) lb_sys \<Rightarrow> bool" where
  "lb_inv ocont scont ops n s \<longleftrightarrow> (\<exists>c d. lb_ok ocont scont ops n c d s)"

lemma live_heap_post:
  assumes "0 < n" "length pend = d - c" "c \<le> d"
  shows "live_heap ops n c (Suc d) (pend @ [p]) =
    (\<lambda>a. if d * n \<le> a \<and> a < d * n + n then Some (slice_of ops n p (a - d * n))
         else live_heap ops n c d pend a)"
proof
  fix a
  show "live_heap ops n c (Suc d) (pend @ [p]) a =
    (if d * n \<le> a \<and> a < d * n + n then Some (slice_of ops n p (a - d * n))
     else live_heap ops n c d pend a)"
  proof (cases "d * n \<le> a \<and> a < d * n + n")
    case True
    then obtain r where a: "a = d * n + r" "r < n"
      by (metis le_Suc_ex nat_add_left_cancel_less)
    moreover have "c * n \<le> d * n + r" using assms by (simp add: trans_le_add1)
    ultimately show ?thesis
      using assms by (auto simp: live_heap_def nth_append)
  next
    case False
    have "(pend @ [p]) ! (a div n - c) = pend ! (a div n - c)" if "c * n \<le> a" "a < d * n"
    proof -
      have "c \<le> a div n" "a div n < d"
        using that assms(1) by (simp_all add: less_eq_div_iff_mult_less_eq div_less_iff_less_mult)
      then have "a div n - c < length pend" using assms(2) by simp
      then show ?thesis by (simp add: nth_append)
    qed
    with False show ?thesis by (auto simp: live_heap_def)
  qed
qed

lemma live_heap_cong:
  assumes "\<forall>p\<in>set pend. ops p = ops' p" "length pend = d - c" "0 < n"
  shows "live_heap ops n c d pend = live_heap ops' n c d pend"
proof
  fix a
  have "ops (pend ! (a div n - c)) = ops' (pend ! (a div n - c))" if "c * n \<le> a" "a < d * n"
  proof -
    have "c \<le> a div n" "a div n < d"
      using that assms(3) by (simp_all add: less_eq_div_iff_mult_less_eq div_less_iff_less_mult)
    with assms(1,2) show ?thesis by simp
  qed
  then show "live_heap ops n c d pend a = live_heap ops' n c d pend a"
    by (simp add: live_heap_def slice_of_def)
qed

lemma live_heap_complete:
  assumes "0 < n"
  shows "live_heap ops n c d (p # pend) |` (- {c * n ..< c * n + n}) = live_heap ops n (Suc c) d pend"
proof
  fix a
  have "(p # pend) ! (a div n - c) = pend ! (a div n - Suc c)" if "Suc c * n \<le> a"
  proof -
    have "Suc c \<le> a div n"
      using that assms by (subst less_eq_div_iff_mult_less_eq) simp_all
    then have "a div n - c = Suc (a div n - Suc c)" by arith
    then show ?thesis by simp
  qed
  then show "(live_heap ops n c d (p # pend) |` (- {c * n ..< c * n + n})) a
      = live_heap ops n (Suc c) d pend a"
    by (auto simp: live_heap_def restrict_map_def)
qed


subsection \<open>What the two loops over the workers do\<close>

locale lb_queues = oq: queue_pair_impl Qo ocont QUEUE_SIZE + sq: queue_pair_impl Qs scont QUEUE_SIZE
  for Qo :: "('qo, ptr) spsc_ops" and ocont :: "'qo \<Rightarrow> ptr list"
    and Qs :: "('qs, ptr) spsc_ops" and scont :: "'qs \<Rightarrow> ptr list"
begin

lemma post_workers_effect:
  assumes "\<forall>k<length qps. sq.ok (h k) (qps ! k) \<and> unat (num_in_queue (qps ! k)) < QUEUE_SIZE"
  shows "\<exists>qps'. post_workers Qs n p op i off heap nxt qps = Some (qps',
        (\<lambda>a. if nxt \<le> a \<and> a < nxt + length qps
             then Some (mk_sub_op n p op (i + (a - nxt)) (off + (\<Sum>j<a - nxt. slice_size n (op_size op) (i + j))))
             else heap a), nxt + length qps)
      \<and> length qps' = length qps
      \<and> (\<forall>k<length qps. sq.ok (h k) (qps' ! k) \<and> cq (qps' ! k) = cq (qps ! k)
            \<and> sq.work (qps' ! k) = sq.work (qps ! k) @ [nxt + k])"
  using assms
proof (induction qps arbitrary: i off heap nxt h)
  case Nil
  have "heap = (\<lambda>a. if nxt \<le> a \<and> a < nxt + length []
             then Some (mk_sub_op n p op (i + (a - nxt)) (off + (\<Sum>j<a - nxt. slice_size n (op_size op) (i + j))))
             else heap a)"
    by (intro ext) auto
  then show ?case by simp
next
  case (Cons qp qps)
  have "sq.ok (h 0) qp" "unat (num_in_queue qp) < QUEUE_SIZE"
    using Cons.prems by auto
  then obtain qp' where qp': "push_req Qs QUEUE_SIZE nxt qp = Some (True, qp')" "sq.ok (h 0) qp'"
      "sq.work qp' = sq.work qp @ [nxt]" "cq qp' = cq qp"
    by (rule sq.push_req_room)
  let ?heap = "heap(nxt \<mapsto> mk_sub_op n p op i off)" and ?off = "off + slice_size n (op_size op) i"
  have "\<forall>k<length qps. sq.ok (h (Suc k)) (qps ! k) \<and> unat (num_in_queue (qps ! k)) < QUEUE_SIZE"
    using Cons.prems by auto
  from Cons.IH[OF this, of "Suc i" ?off ?heap "Suc nxt"] obtain qps' where
    qps': "post_workers Qs n p op (Suc i) ?off ?heap (Suc nxt) qps = Some (qps',
        (\<lambda>a. if Suc nxt \<le> a \<and> a < Suc nxt + length qps
             then Some (mk_sub_op n p op (Suc i + (a - Suc nxt))
               (?off + (\<Sum>j<a - Suc nxt. slice_size n (op_size op) (Suc i + j))))
             else ?heap a), Suc nxt + length qps)"
    "length qps' = length qps"
    "\<forall>k<length qps. sq.ok (h (Suc k)) (qps' ! k) \<and> cq (qps' ! k) = cq (qps ! k)
            \<and> sq.work (qps' ! k) = sq.work (qps ! k) @ [Suc nxt + k]"
    by blast
  have heap_eq: "(if Suc nxt \<le> a \<and> a < Suc nxt + length qps
             then Some (mk_sub_op n p op (Suc i + (a - Suc nxt))
               (?off + (\<Sum>j<a - Suc nxt. slice_size n (op_size op) (Suc i + j))))
             else ?heap a)
      = (if nxt \<le> a \<and> a < nxt + length (qp # qps)
             then Some (mk_sub_op n p op (i + (a - nxt)) (off + (\<Sum>j<a - nxt. slice_size n (op_size op) (i + j))))
             else heap a)" for a
  proof (cases "Suc nxt \<le> a")
    case True
    then obtain r where a: "a = Suc nxt + r" by (metis le_Suc_ex)
    have "(\<Sum>j<Suc r. slice_size n (op_size op) (i + j))
        = slice_size n (op_size op) i + (\<Sum>j<r. slice_size n (op_size op) (Suc i + j))"
      by (subst sum.lessThan_Suc_shift) simp
    with a show ?thesis by (simp add: add.assoc)
  next
    case False
    then show ?thesis by auto
  qed
  have all: "\<forall>k<length (qp # qps). sq.ok (h k) ((qp' # qps') ! k) \<and> cq ((qp' # qps') ! k) = cq ((qp # qps) ! k)
            \<and> sq.work ((qp' # qps') ! k) = sq.work ((qp # qps) ! k) @ [nxt + k]"
    using qp' qps'(3) by (auto simp: nth_Cons split: nat.splits)
  show ?case
    using qp'(1) qps'(1,2) all
    by (intro exI[of _ "qp' # qps'"]) (simp only: post_workers.simps heap_eq, simp)
qed

lemma complete_workers_effect:
  assumes "\<forall>k<length qps. sq.ok (h k) (qps ! k) \<and> sq.answers (qps ! k) \<noteq> []
      \<and> map_option sub_op (heap (hd (sq.answers (qps ! k)))) = Some p"
    and "distinct (map (\<lambda>qp. hd (sq.answers qp)) qps)"
  shows "\<exists>qps'. complete_workers Qs heap qps op = Some (qps',
        heap |` (- set (map (\<lambda>qp. hd (sq.answers qp)) qps)), if qps = [] then op else Some p)
      \<and> length qps' = length qps
      \<and> (\<forall>k<length qps. sq.ok (h k) (qps' ! k) \<and> wq (qps' ! k) = wq (qps ! k)
            \<and> sq.answers (qps' ! k) = tl (sq.answers (qps ! k)))"
  using assms
proof (induction qps arbitrary: heap op h)
  case Nil
  show ?case by (simp add: restrict_map_def)
next
  case (Cons qp qps)
  let ?a = "hd (sq.answers qp)"
  have ok0: "sq.ok (h 0) qp" and "sq.answers qp \<noteq> []"
    using Cons.prems(1) by auto
  then obtain x es where es: "sq.answers qp = x # es"
    by (cases "sq.answers qp") auto
  from ok0 es obtain qp' where qp': "pop_resp Qs qp = Some qp'" "sq.ok (h 0) qp'" "sq.answers qp' = es"
      "wq qp' = wq qp"
    by (rule sq.pop_resp_cons)
  obtain sub where sub: "heap ?a = Some sub" "sub_op sub = p"
    using Cons.prems(1) by fastforce
  have h1: "\<forall>k<length qps. sq.ok (h (Suc k)) (qps ! k) \<and> sq.answers (qps ! k) \<noteq> []
      \<and> map_option sub_op ((heap(?a := None)) (hd (sq.answers (qps ! k)))) = Some p"
  proof (intro allI impI)
    fix k assume k: "k < length qps"
    then have "hd (sq.answers (qps ! k)) \<in> (\<lambda>qp. hd (sq.answers qp)) ` set qps" by simp
    then have "hd (sq.answers (qps ! k)) \<noteq> ?a" using Cons.prems(2) by auto
    with k Cons.prems(1)[rule_format, of "Suc k"]
    show "sq.ok (h (Suc k)) (qps ! k) \<and> sq.answers (qps ! k) \<noteq> []
      \<and> map_option sub_op ((heap(?a := None)) (hd (sq.answers (qps ! k)))) = Some p"
      by simp
  qed
  have h2: "distinct (map (\<lambda>qp. hd (sq.answers qp)) qps)"
    using Cons.prems(2) by simp
  from Cons.IH[OF h1 h2, of "Some p"] obtain qps' where
    qps': "complete_workers Qs (heap(?a := None)) qps (Some p) = Some (qps',
        (heap(?a := None)) |` (- set (map (\<lambda>qp. hd (sq.answers qp)) qps)), if qps = [] then Some p else Some p)"
    "length qps' = length qps"
    "\<forall>k<length qps. sq.ok (h (Suc k)) (qps' ! k) \<and> wq (qps' ! k) = wq (qps ! k)
            \<and> sq.answers (qps' ! k) = tl (sq.answers (qps ! k))"
    by (elim exE conjE) (rule that)
  have heap_eq: "(heap(?a := None)) |` (- set (map (\<lambda>qp. hd (sq.answers qp)) qps))
      = heap |` (- set (map (\<lambda>qp. hd (sq.answers qp)) (qp # qps)))"
    by (auto simp: restrict_map_def)
  have "front_resp Qs qp = Some ?a"
    using es by (simp add: sq.front_resp_eq)
  with qp'(1) sub qps'(1,2) heap_eq
  have "complete_workers Qs heap (qp # qps) op = Some (qp' # qps',
        heap |` (- set (map (\<lambda>qp. hd (sq.answers qp)) (qp # qps))), Some p)"
    by simp
  moreover have "\<forall>k<length (qp # qps). sq.ok (h k) ((qp' # qps') ! k) \<and> wq ((qp' # qps') ! k) = wq ((qp # qps) ! k)
            \<and> sq.answers ((qp' # qps') ! k) = tl (sq.answers ((qp # qps) ! k))"
    using qp' qps'(3) es by (auto simp: nth_Cons split: nat.splits)
  ultimately show ?case
    using qps'(2) by (intro exI[of _ "qp' # qps'"]) simp
qed

end


subsection \<open>The calls of the load balancer keep the invariant\<close>

definition op_wf :: "op_t \<Rightarrow> bool" where
  "op_wf op \<longleftrightarrow> (op_code op \<in> {OP_ALL_REDUCE, OP_REDUCE} \<longrightarrow> op_size op mod 4 = 0)"

lemma whole_word: "unat x mod 4 = 0 \<Longrightarrow> x mod 4 = 0" for x :: u32
  by (rule word_unat_eq_iff[THEN iffD2]) (simp add: unat_mod)

lemma lb_try_post_op_cases:
  assumes "lb_try_post_op Q S ops s = Some (b, l)"
  obtains p where "b" "front_req Q (shm_qp s) = Some p" "pop_req Q (shm_qp s) = Some (shm_qp l)" "op_wf (ops p)"
  | "\<not> b" "l = s"
  using assms by (auto simp: lb_try_post_op_def[folded op_wf_def] split: option.splits bind_splits if_splits)

context lb_queues begin

abbreviation "sys_ok \<equiv> lb_ok ocont scont"

lemma sys_okD:
  assumes "sys_ok ops n c d s"
  shows "length (worker_qp (lb s)) = n" "length (w_held s) = n" "d = c + length (pending s)"
    "next_sub (lb s) = d * n" "oq.ok (length (pending s)) (shm_qp (lb s))"
    "submitted s = answered s @ oq.answers (shm_qp (lb s)) @ pending s @ oq.work (shm_qp (lb s))"
    "sub_heap (lb s) = live_heap ops n c d (pending s)"
    "k < n \<Longrightarrow> sq.ok (length (w_held s ! k)) (worker_qp (lb s) ! k)"
    "k < n \<Longrightarrow> sq.answers (worker_qp (lb s) ! k) @ w_held s ! k @ sq.work (worker_qp (lb s) ! k)
        = map (\<lambda>j. j * n + k) [c..<d]"
  using assms by (simp_all add: lb_ok_def outstanding_def)

text \<open>Every worker owes exactly the pending operations, so a worker's pair is never fuller than
  the shared memory pair: the dropped result of \<open>push_req\<close> is always true.\<close>

lemma worker_num:
  assumes "sys_ok ops n c d s" "k < n"
  shows "unat (num_in_queue (worker_qp (lb s) ! k)) = length (pending s)"
proof -
  have "length (sq.answers (worker_qp (lb s) ! k) @ w_held s ! k @ sq.work (worker_qp (lb s) ! k)) = d - c"
    using sys_okD(9)[OF assms] by simp
  then show ?thesis
    using sys_okD(3)[OF assms(1)] sys_okD(8)[OF assms] by (simp add: qp_ok_def)
qed

lemma post_keeps:
  assumes s: "sys_ok ops n c d s" and n: "0 < n" and w: "oq.work (shm_qp (lb s)) = p # es"
    and wf: "op_wf (ops p)"
  obtains l where "lb_try_post_op Qo Qs ops (lb s) = Some (True, l)"
    "sys_ok ops n c (Suc d) (s\<lparr>lb := l, pending := pending s @ [p]\<rparr>)"
    "\<forall>k<n. cq (worker_qp l ! k) = cq (worker_qp (lb s) ! k)
      \<and> sq.work (worker_qp l ! k) = sq.work (worker_qp (lb s) ! k) @ [next_sub (lb s) + k]"
proof -
  note D = sys_okD[OF s]
  from D(5) w obtain shm where shm: "pop_req Qo (shm_qp (lb s)) = Some shm"
      "oq.ok (Suc (length (pending s))) shm" "oq.work shm = es" "cq shm = cq (shm_qp (lb s))"
      "num_in_queue shm = num_in_queue (shm_qp (lb s))"
    by (rule oq.pop_req_cons)
  have "length (pending s) < QUEUE_SIZE"
    using D(5) w by (simp add: qp_ok_def)
  then have "\<forall>k<length (worker_qp (lb s)). sq.ok (length (w_held s ! k)) (worker_qp (lb s) ! k)
      \<and> unat (num_in_queue (worker_qp (lb s) ! k)) < QUEUE_SIZE"
    using D(1,8) worker_num[OF s] by simp
  from post_workers_effect[OF this, of n p "ops p" 0 0 "sub_heap (lb s)" "next_sub (lb s)"]
  obtain qps where qps: "post_workers Qs n p (ops p) 0 0 (sub_heap (lb s)) (next_sub (lb s)) (worker_qp (lb s))
      = Some (qps, (\<lambda>a. if d * n \<le> a \<and> a < d * n + n then Some (slice_of ops n p (a - d * n))
         else live_heap ops n c d (pending s) a), d * n + n)"
    "length qps = n"
    "\<forall>k<n. sq.ok (length (w_held s ! k)) (qps ! k) \<and> cq (qps ! k) = cq (worker_qp (lb s) ! k)
       \<and> sq.work (qps ! k) = sq.work (worker_qp (lb s) ! k) @ [d * n + k]"
    using D(1,4,7) by (auto simp: slice_of_def slice_off_def cong: if_cong)
  have heap: "(\<lambda>a. if d * n \<le> a \<and> a < d * n + n then Some (slice_of ops n p (a - d * n))
         else live_heap ops n c d (pending s) a) = live_heap ops n c (Suc d) (pending s @ [p])"
    using n D(3) by (intro live_heap_post[symmetric]) simp_all
  let ?l = "lb s\<lparr>shm_qp := shm, worker_qp := qps, sub_heap := live_heap ops n c (Suc d) (pending s @ [p]),
     next_sub := d * n + n\<rparr>"
  have "lb_try_post_op Qo Qs ops (lb s) = Some (True, ?l)"
    using w wf shm(1) qps(1) heap D(1) by (simp add: lb_try_post_op_def oq.front_req_eq op_wf_def)
  moreover have "\<forall>k<n. outstanding scont (s\<lparr>lb := ?l, pending := pending s @ [p]\<rparr>) k
      = map (\<lambda>j. j * n + k) [c..<Suc d]"
    using qps(3) D(3,9) by (simp add: outstanding_def)
  ultimately show ?thesis
    using D shm qps w by (intro that[of ?l]) (simp_all add: lb_ok_def)
qed

lemma complete_keeps:
  assumes s: "sys_ok ops n c d s" and n: "0 < n"
    and a: "\<forall>k<n. sq.answers (worker_qp (lb s) ! k) \<noteq> []"
  obtains p ps l where "pending s = p # ps" "lb_try_complete_op Qo Qs (lb s) = Some (True, l)"
    "sys_ok ops n (Suc c) d (s\<lparr>lb := l, pending := ps\<rparr>)"
    "oq.answers (shm_qp l) = oq.answers (shm_qp (lb s)) @ [p]"
    "push_resp Qo p (shm_qp (lb s)) = Some (True, shm_qp l)"
    "\<forall>k<n. wq (worker_qp l ! k) = wq (worker_qp (lb s) ! k)
      \<and> sq.answers (worker_qp l ! k) = tl (sq.answers (worker_qp (lb s) ! k))"
proof -
  note D = sys_okD[OF s]
  have cd: "c < d"
  proof (rule ccontr)
    assume "\<not> c < d"
    then have "map (\<lambda>j. j * n + 0) [c..<d] = []" by simp
    with D(9)[OF n] a n show False by fastforce
  qed
  then obtain p ps where pend: "pending s = p # ps"
    using D(3) by (cases "pending s") auto
  have split: "[c..<d] = c # [Suc c..<d]"
    using cd by (simp add: upt_conv_Cons)
  have head: "hd (sq.answers (worker_qp (lb s) ! k)) = c * n + k"
    and rest: "tl (sq.answers (worker_qp (lb s) ! k)) @ w_held s ! k @ sq.work (worker_qp (lb s) ! k)
      = map (\<lambda>j. j * n + k) [Suc c..<d]" if kn: "k < n" for k
  proof -
    obtain x es where "sq.answers (worker_qp (lb s) ! k) = x # es"
      using a kn by (cases "sq.answers (worker_qp (lb s) ! k)") auto
    with D(9)[OF kn] split
    show "hd (sq.answers (worker_qp (lb s) ! k)) = c * n + k"
      "tl (sq.answers (worker_qp (lb s) ! k)) @ w_held s ! k @ sq.work (worker_qp (lb s) ! k)
        = map (\<lambda>j. j * n + k) [Suc c..<d]"
      by simp_all
  qed
  have heads: "map (\<lambda>qp. hd (sq.answers qp)) (worker_qp (lb s)) = [c * n..<c * n + n]"
    using D(1) head by (intro nth_equalityI) simp_all
  have "live_heap ops n c d (pending s) (c * n + k) = Some (slice_of ops n p k)" if "k < n" for k
  proof -
    have "c * n + k < Suc c * n" using that by simp
    also have "\<dots> \<le> d * n" using cd by (intro mult_le_mono1) simp
    finally show ?thesis using that pend by (simp add: live_heap_def)
  qed
  then have pre: "\<forall>k<length (worker_qp (lb s)). sq.ok (length (w_held s ! k)) (worker_qp (lb s) ! k)
      \<and> sq.answers (worker_qp (lb s) ! k) \<noteq> []
      \<and> map_option sub_op (sub_heap (lb s) (hd (sq.answers (worker_qp (lb s) ! k)))) = Some p"
    using D(1,7,8) a head by (simp add: slice_of_def mk_sub_op_def)
  have ne: "worker_qp (lb s) \<noteq> []" using D(1) n by auto
  from complete_workers_effect[OF pre, of None] heads obtain qps where
    qps: "complete_workers Qs (sub_heap (lb s)) (worker_qp (lb s)) None
      = Some (qps, live_heap ops n c d (p # ps) |` (- {c * n..<c * n + n}), Some p)"
    "length qps = n"
    "\<forall>k<n. sq.ok (length (w_held s ! k)) (qps ! k) \<and> wq (qps ! k) = wq (worker_qp (lb s) ! k)
       \<and> sq.answers (qps ! k) = tl (sq.answers (worker_qp (lb s) ! k))"
    using D(1,7) ne pend by auto
  from D(5) pend have "oq.ok (Suc (length ps)) (shm_qp (lb s))" by simp
  then obtain shm where shm: "push_resp Qo p (shm_qp (lb s)) = Some (True, shm)" "oq.ok (length ps) shm"
      "oq.answers shm = oq.answers (shm_qp (lb s)) @ [p]" "wq shm = wq (shm_qp (lb s))"
      "num_in_queue shm = num_in_queue (shm_qp (lb s))"
    by (rule oq.push_resp_held)
  let ?l = "lb s\<lparr>shm_qp := shm, worker_qp := qps, sub_heap := live_heap ops n (Suc c) d ps\<rparr>"
  have "list_all (\<lambda>qp. front_resp Qs qp \<noteq> None) (worker_qp (lb s))"
    using a D(1) by (auto simp: list_all_length sq.front_resp_eq split: list.splits)
  then have "lb_try_complete_op Qo Qs (lb s) = Some (True, ?l)"
    using qps(1) shm(1) live_heap_complete[OF n] by (simp add: lb_try_complete_op_def)
  moreover have "\<forall>k<n. outstanding scont (s\<lparr>lb := ?l, pending := ps\<rparr>) k = map (\<lambda>j. j * n + k) [Suc c..<d]"
    using qps(3) rest by (simp add: outstanding_def)
  ultimately show ?thesis
    using D shm qps pend by (intro that[of p ps ?l]) (simp_all add: lb_ok_def)
qed

lemma complete_waits:
  assumes s: "sys_ok ops n c d s" and k: "k < n" "sq.answers (worker_qp (lb s) ! k) = []"
  shows "lb_try_complete_op Qo Qs (lb s) = Some (False, lb s)"
proof -
  have "front_resp Qs (worker_qp (lb s) ! k) = None"
    using k by (simp add: sq.front_resp_eq)
  then have "\<not> list_all (\<lambda>qp. front_resp Qs qp \<noteq> None) (worker_qp (lb s))"
    using k sys_okD(1)[OF s] by (auto simp: list_all_length)
  then show ?thesis by (simp add: lb_try_complete_op_def)
qed

lemma post_waits:
  "oq.work (shm_qp (lb s)) = [] \<Longrightarrow> lb_try_post_op Qo Qs ops (lb s) = Some (False, lb s)"
  by (simp add: lb_try_post_op_def oq.front_req_eq)

lemma post_aborts:
  "oq.work (shm_qp (lb s)) = p # es \<Longrightarrow> \<not> op_wf (ops p) \<Longrightarrow> lb_try_post_op Qo Qs ops (lb s) = None"
  by (cases "pop_req Qo (shm_qp (lb s))") (auto simp: lb_try_post_op_def oq.front_req_eq op_wf_def)

lemma worker_step_keeps:
  assumes s: "sys_ok ops n c d s" and k: "k < n"
    and q: "sq.ok (length hs) qp"
      "sq.answers qp @ hs @ sq.work qp
         = sq.answers (worker_qp (lb s) ! k) @ w_held s ! k @ sq.work (worker_qp (lb s) ! k)"
  shows "sys_ok ops n c d (s\<lparr>lb := (lb s)\<lparr>worker_qp := (worker_qp (lb s))[k := qp]\<rparr>,
      w_held := (w_held s)[k := hs]\<rparr>)"
  using sys_okD[OF s] k q
  by (simp add: lb_ok_def outstanding_def nth_list_update)

lemma sys_step_keeps:
  assumes step: "lb_sys_step Qo Qs ops s t" and inv: "lb_inv ocont scont ops n s" and n: "0 < n"
  shows "lb_inv ocont scont ops n t"
proof -
  obtain c d where s: "sys_ok ops n c d s"
    using inv by (auto simp: lb_inv_def)
  note D = sys_okD[OF s]
  from step show ?thesis
  proof (cases rule: lb_sys_step.cases)
    case (submit p b qp)
    from D(5) obtain b' qp' where "push_req Qo QUEUE_SIZE p (shm_qp (lb s)) = Some (b', qp')"
      "oq.ok (length (pending s)) qp'" "cq qp' = cq (shm_qp (lb s))"
      "oq.work qp' = oq.work (shm_qp (lb s)) @ (if b' then [p] else [])"
      by (rule oq.push_req_total[of _ _ p])
    with submit D have "sys_ok ops n c d t"
      by (simp add: lb_ok_def outstanding_def)
    then show ?thesis by (auto simp: lb_inv_def)
  next
    case (fetch p qp)
    then obtain es where es: "oq.answers (shm_qp (lb s)) = p # es"
      by (auto simp: oq.front_resp_eq split: list.splits)
    with D(5) obtain qp' where "pop_resp Qo (shm_qp (lb s)) = Some qp'"
      "oq.ok (length (pending s)) qp'" "oq.answers qp' = es" "wq qp' = wq (shm_qp (lb s))"
      by (rule oq.pop_resp_cons)
    with fetch es D have "sys_ok ops n c d t"
      by (simp add: lb_ok_def outstanding_def)
    then show ?thesis by (auto simp: lb_inv_def)
  next
    case (complete b l)
    show ?thesis
    proof (cases "\<forall>k<n. sq.answers (worker_qp (lb s) ! k) \<noteq> []")
      case True
      from s n True obtain p ps l' where "pending s = p # ps"
        "lb_try_complete_op Qo Qs (lb s) = Some (True, l')" "sys_ok ops n (Suc c) d (s\<lparr>lb := l', pending := ps\<rparr>)"
        by (rule complete_keeps)
      with complete show ?thesis by (auto simp: lb_inv_def)
    next
      case False
      then obtain k where "k < n" "sq.answers (worker_qp (lb s) ! k) = []" by blast
      with s have "lb_try_complete_op Qo Qs (lb s) = Some (False, lb s)" by (rule complete_waits)
      with complete have "t = s" by (cases s) simp
      with inv show ?thesis by simp
    qed
  next
    case (post b l)
    show ?thesis
    proof (cases "oq.work (shm_qp (lb s))")
      case Nil
      then have "lb_try_post_op Qo Qs ops (lb s) = Some (False, lb s)" by (rule post_waits)
      with post have "t = s" by (cases s) simp
      with inv show ?thesis by simp
    next
      case (Cons p es)
      with post have "op_wf (ops p)" using post_aborts by fastforce
      with s n Cons obtain l' where "lb_try_post_op Qo Qs ops (lb s) = Some (True, l')"
        "sys_ok ops n c (Suc d) (s\<lparr>lb := l', pending := pending s @ [p]\<rparr>)"
        by (rule post_keeps)
      with post Cons show ?thesis by (auto simp: lb_inv_def oq.front_req_eq)
    qed
  next
    case (worker_take k a qp)
    then have k: "k < n" using D(1) by simp
    obtain es where es: "sq.work (worker_qp (lb s) ! k) = a # es"
      using worker_take by (auto simp: sq.front_req_eq split: list.splits)
    from D(8)[OF k] es obtain qp' where "pop_req Qs (worker_qp (lb s) ! k) = Some qp'"
      "sq.ok (Suc (length (w_held s ! k))) qp'" "sq.work qp' = es" "cq qp' = cq (worker_qp (lb s) ! k)"
      by (rule sq.pop_req_cons)
    with worker_take es have "sys_ok ops n c d t"
      using worker_step_keeps[OF s k, of "w_held s ! k @ [a]" qp] by simp
    then show ?thesis by (auto simp: lb_inv_def)
  next
    case (worker_answer k a as b qp)
    then have k: "k < n" using D(1) by simp
    from D(8)[OF k] worker_answer have "sq.ok (Suc (length as)) (worker_qp (lb s) ! k)" by simp
    then obtain qp' where "push_resp Qs a (worker_qp (lb s) ! k) = Some (True, qp')"
      "sq.ok (length as) qp'" "sq.answers qp' = sq.answers (worker_qp (lb s) ! k) @ [a]"
      "wq qp' = wq (worker_qp (lb s) ! k)"
      by (rule sq.push_resp_held[of _ _ a])
    with worker_answer have "sys_ok ops n c d t"
      using worker_step_keeps[OF s k, of as qp] by simp
    then show ?thesis by (auto simp: lb_inv_def)
  qed
qed

lemma init_ok:
  assumes "ocont qo = []" "scont qs = []"
  shows "sys_ok ops n 0 0 (lb_init qo qs n)"
  using assms by (auto simp: lb_ok_def lb_init_def qp_ok_def empty_pair_def outstanding_def live_heap_def fun_eq_iff)

lemma sys_reach_inv:
  assumes "lb_reach Qo Qs ops (lb_init qo qs n) s" "ocont qo = []" "scont qs = []" "0 < n"
  shows "lb_inv ocont scont ops n s"
  using assms(1)
proof (induction rule: lb_reach.induct)
  case init
  show ?case using init_ok[OF assms(2,3)] by (auto simp: lb_inv_def)
next
  case (step s t)
  from step.hyps(2) step.IH assms(4) show ?case by (rule sys_step_keeps)
qed

lemma complete_keeps_work:
  assumes s: "sys_ok ops n c d s" and n: "0 < n" and r: "lb_try_complete_op Qo Qs (lb s) = Some (b, l)"
  obtains c' ps where "sys_ok ops n c' d (s\<lparr>lb := l, pending := ps\<rparr>)" "oq.work (shm_qp l) = oq.work (shm_qp (lb s))"
    "ps = (if b then tl (pending s) else pending s)"
    "b \<longrightarrow> (\<exists>p b'. pending s = p # ps \<and> push_resp Qo p (shm_qp (lb s)) = Some (b', shm_qp l))"
    "b \<longrightarrow> (\<forall>k<n. wq (worker_qp l ! k) = wq (worker_qp (lb s) ! k)
      \<and> sq.answers (worker_qp (lb s) ! k) \<noteq> [] \<and> sq.answers (worker_qp l ! k) = tl (sq.answers (worker_qp (lb s) ! k)))"
    "\<not> b \<longrightarrow> l = lb s"
proof (cases "\<forall>k<n. sq.answers (worker_qp (lb s) ! k) \<noteq> []")
  case True
  from s n True obtain p ps l' where p: "pending s = p # ps"
    "lb_try_complete_op Qo Qs (lb s) = Some (True, l')" "sys_ok ops n (Suc c) d (s\<lparr>lb := l', pending := ps\<rparr>)"
    "oq.answers (shm_qp l') = oq.answers (shm_qp (lb s)) @ [p]" "push_resp Qo p (shm_qp (lb s)) = Some (True, shm_qp l')"
    "\<forall>k<n. wq (worker_qp l' ! k) = wq (worker_qp (lb s) ! k)
      \<and> sq.answers (worker_qp l' ! k) = tl (sq.answers (worker_qp (lb s) ! k))"
    by (rule complete_keeps)
  moreover have "oq.work (shm_qp l') = oq.work (shm_qp (lb s))"
    using sys_okD(6)[OF p(3)] sys_okD(6)[OF s] p(1,4) by simp
  ultimately show ?thesis using r True by (intro that[of "Suc c" ps]) auto
next
  case False
  then obtain k where "k < n" "sq.answers (worker_qp (lb s) ! k) = []" by blast
  with s have "lb_try_complete_op Qo Qs (lb s) = Some (False, lb s)" by (rule complete_waits)
  with r s show ?thesis by (intro that[of c "pending s"]) auto
qed

lemma post_total:
  assumes "sys_ok ops n c d s" "0 < n" "\<forall>p\<in>set (oq.work (shm_qp (lb s))). op_wf (ops p)"
  shows "lb_try_post_op Qo Qs ops (lb s) \<noteq> None"
proof (cases "oq.work (shm_qp (lb s))")
  case Nil
  then show ?thesis by (simp add: post_waits)
next
  case (Cons p es)
  with assms(3) have "op_wf (ops p)" by simp
  with assms(1,2) Cons show ?thesis by (rule post_keeps) simp
qed

lemma complete_total: "sys_ok ops n c d s \<Longrightarrow> 0 < n \<Longrightarrow> lb_try_complete_op Qo Qs (lb s) \<noteq> None"
  by (cases "\<forall>k<n. sq.answers (worker_qp (lb s) ! k) \<noteq> []")
    (blast elim: complete_keeps, blast dest: complete_waits)

lemma iteration_returns:
  assumes inv: "lb_inv ocont scont ops n s" and n: "0 < n" and wf: "\<forall>p\<in>set (oq.work (shm_qp (lb s))). op_wf (ops p)"
  shows "lb_iteration Qo Qs ops (lb s) \<noteq> None"
proof -
  obtain c d where s: "sys_ok ops n c d s" using inv by (auto simp: lb_inv_def)
  obtain b l where r: "lb_try_complete_op Qo Qs (lb s) = Some (b, l)" using complete_total[OF s n] by auto
  from s n r obtain c' ps where "sys_ok ops n c' d (s\<lparr>lb := l, pending := ps\<rparr>)"
    "oq.work (shm_qp l) = oq.work (shm_qp (lb s))" by (rule complete_keeps_work)
  from post_total[OF this(1) n] this(2) wf r show ?thesis by (auto simp: lb_iteration_def)
qed

end

subsection \<open>What the workers are given\<close>

context lb_queues begin

text \<open>The addresses a worker has not finished with are live and stand for the pending operations.\<close>

lemma sys_ok_live:
  assumes s: "sys_ok ops n c d s" and k: "k < n"
  shows "map (sub_heap (lb s)) (outstanding scont s k) = map (\<lambda>p. Some (slice_of ops n p k)) (pending s)"
proof -
  note D = sys_okD[OF s]
  have out: "outstanding scont s k = map (\<lambda>j. j * n + k) [c..<d]"
    using D(9)[OF k] by (simp add: outstanding_def)
  show ?thesis
  proof (rule nth_equalityI)
    show "length (map (sub_heap (lb s)) (outstanding scont s k))
        = length (map (\<lambda>p. Some (slice_of ops n p k)) (pending s))"
      using D(3) by (simp add: out)
  next
    fix i assume i: "i < length (map (sub_heap (lb s)) (outstanding scont s k))"
    then have i': "i < d - c" by (simp add: out)
    then have "(c + i) * n + k < d * n"
    proof -
      have "(c + i) * n + k < Suc (c + i) * n" using k by simp
      also have "\<dots> \<le> d * n" using i' by (intro mult_le_mono1) simp
      finally show ?thesis .
    qed
    moreover have "((c + i) * n + k) div n = c + i" "((c + i) * n + k) mod n = k"
      using k by simp_all
    moreover have "c * n \<le> (c + i) * n + k" by (simp add: trans_le_add1)
    ultimately show "map (sub_heap (lb s)) (outstanding scont s k) ! i
        = map (\<lambda>p. Some (slice_of ops n p k)) (pending s) ! i"
      using i' D(3,7) by (simp add: out live_heap_def)
  qed
qed

lemma sys_ok_dom:
  assumes s: "sys_ok ops n c d s" and n: "0 < n"
  shows "dom (sub_heap (lb s)) = (\<Union>k<n. set (outstanding scont s k))"
    and "k < n \<Longrightarrow> k' < n \<Longrightarrow> k \<noteq> k' \<Longrightarrow> set (outstanding scont s k) \<inter> set (outstanding scont s k') = {}"
    and "k < n \<Longrightarrow> distinct (outstanding scont s k)"
proof -
  note D = sys_okD[OF s]
  have out: "outstanding scont s k = map (\<lambda>j. j * n + k) [c..<d]" if "k < n" for k
    using D(9)[OF that] by (simp add: outstanding_def)
  have "(a \<in> dom (sub_heap (lb s))) = (a \<in> (\<Union>k<n. set (outstanding scont s k)))" for a
  proof -
    have "(c * n \<le> a \<and> a < d * n) = (\<exists>k<n. \<exists>j\<in>{c..<d}. a = j * n + k)" (is "?l = ?r")
    proof
      assume ?l
      then have "c \<le> a div n" "a div n < d"
        using n by (simp_all add: less_eq_div_iff_mult_less_eq div_less_iff_less_mult)
      then show ?r using n
        by (intro exI[of _ "a mod n"] conjI bexI[of _ "a div n"]) simp_all
    next
      assume ?r
      then obtain k j where kj: "k < n" "c \<le> j" "j < d" "a = j * n + k" by auto
      have "j * n + k < Suc j * n" using kj by simp
      also have "\<dots> \<le> d * n" using kj by (intro mult_le_mono1) simp
      finally show ?l using kj by (auto simp: trans_le_add1)
    qed
    then show ?thesis
      using D(7) by (auto simp: live_heap_def out image_iff Bex_def split: if_splits)
  qed
  then show "dom (sub_heap (lb s)) = (\<Union>k<n. set (outstanding scont s k))" by blast
  show "set (outstanding scont s k) \<inter> set (outstanding scont s k') = {}"
    if "k < n" "k' < n" "k \<noteq> k'"
  proof -
    have "j * n + k \<noteq> j' * n + k'" for j j'
      using that by (metis mod_less mod_mult_self3)
    then show ?thesis using that by (auto simp: out)
  qed
  show "distinct (outstanding scont s k)" if "k < n"
    using that n by (auto simp: out distinct_map inj_on_def)
qed

end

context lb_queues begin

lemma post_subs:
  assumes s: "sys_ok ops n c d s" and n: "0 < n" and f: "front_req Qo (shm_qp (lb s)) = Some p"
    and r: "lb_try_post_op Qo Qs ops (lb s) = Some (True, l)" and k: "k < n"
  shows "sub_heap l (next_sub (lb s) + k) = Some (slice_of ops n p k)"
    and "sq.work (worker_qp l ! k) = sq.work (worker_qp (lb s) ! k) @ [next_sub (lb s) + k]"
proof -
  note D = sys_okD[OF s]
  obtain es where w: "oq.work (shm_qp (lb s)) = p # es"
    using f by (auto simp: oq.front_req_eq split: list.splits)
  have wf: "op_wf (ops p)" using r post_aborts[OF w] by fastforce
  from s n w wf obtain l' where l': "lb_try_post_op Qo Qs ops (lb s) = Some (True, l')"
    "sys_ok ops n c (Suc d) (s\<lparr>lb := l', pending := pending s @ [p]\<rparr>)"
    "\<forall>k<n. cq (worker_qp l' ! k) = cq (worker_qp (lb s) ! k)
      \<and> sq.work (worker_qp l' ! k) = sq.work (worker_qp (lb s) ! k) @ [next_sub (lb s) + k]"
    by (rule post_keeps)
  then have ll: "l' = l" using r by simp
  note D' = sys_okD[OF l'(2)[unfolded ll]]
  have "d * n + k < Suc d * n" using k by simp
  moreover have "c * n \<le> d * n + k" using D(3) by (simp add: add_mult_distrib)
  ultimately show heap: "sub_heap l (next_sub (lb s) + k) = Some (slice_of ops n p k)"
    using D'(7) D(3,4) k by (simp add: live_heap_def)
  show "sq.work (worker_qp l ! k) = sq.work (worker_qp (lb s) ! k) @ [next_sub (lb s) + k]"
    using l'(3) ll k by simp
qed

end

lemma slice_of_next:
  assumes "0 < n" "n < 2 ^ 31" "Suc k < n"
  shows "sub_data (slice_of ops n p (Suc k)) = sub_data (slice_of ops n p k) + ucast (sub_size (slice_of ops n p k))"
    and "unat (sub_size (slice_of ops n p k)) mod 4 = 0"
proof -
  let ?sz = "op_size (ops p)"
  have "unat (slice_off n ?sz k) + unat (slice_size n ?sz k) = unat (slice_off n ?sz (Suc k))"
    using assms by (simp add: unat_slice_off)
  then have "(ucast (slice_off n ?sz (Suc k)) :: u64) = ucast (slice_off n ?sz k) + ucast (slice_size n ?sz k)"
    using u32_bound[of "slice_off n ?sz (Suc k)"]
    by (simp add: word_unat_eq_iff unat_word_ariths unat_ucast_u64)
  then show "sub_data (slice_of ops n p (Suc k)) = sub_data (slice_of ops n p k) + ucast (sub_size (slice_of ops n p k))"
    by (simp add: slice_of_def mk_sub_op_def)
  show "unat (sub_size (slice_of ops n p k)) mod 4 = 0"
    using assms by (simp add: slice_of_def mk_sub_op_def unat_slice_size)
qed

lemma slice_words_even:
  assumes "0 < n" "n < 2 ^ 31" "j < n" "k < n"
  shows "unat (slice_size n sz j) div 4 \<le> Suc (unat (slice_size n sz k) div 4)"
proof -
  have "unat (slice_size n sz i) div 4 = unat (slice_words n (sz div 4) i)" if "i < n" for i
    using assms that unat_slice_size[of n i sz] by auto
  with assms show ?thesis
    by (simp add: unat_slice_words)
qed

interpretation lb_fifo: lb_queues "fifo_ops QUEUE_SIZE" "\<lambda>q. q" "fifo_ops QUEUE_SIZE" "\<lambda>q. q"
  by unfold_locales

subsection \<open>A short run\<close>

text \<open>
  Two workers: an all-reduce of 12 bytes is submitted (\<open>lb_demo1\<close>) and posted (\<open>lb_demo2\<close>).
\<close>

definition demo_op :: op_t where
  "demo_op = \<lparr>op_code = OP_ALL_REDUCE, op_root = 0, op_size = 12, shm_buffer = 1000,
     op_group = \<lparr>group_id = 1, group_size = 2, group_rank = 0, group_agg_addr = 8, group_agg_len = 6,
       switch_ip = 0\<rparr>, op_with_fut = 0\<rparr>"

definition lb_demo1 :: "(ptr list, ptr list) lb_sys" where
  "lb_demo1 = \<lparr>lb = \<lparr>shm_qp = \<lparr>wq = [5], cq = [], num_in_queue = 1\<rparr>,
       worker_qp = [empty_pair [], empty_pair []], sub_heap = Map.empty, next_sub = 0\<rparr>,
     w_held = [[], []], pending = [], submitted = [5], answered = []\<rparr>"

definition lb_demo2 :: "(ptr list, ptr list) lb_sys" where
  "lb_demo2 = \<lparr>lb = \<lparr>shm_qp = \<lparr>wq = [], cq = [], num_in_queue = 1\<rparr>,
       worker_qp = [\<lparr>wq = [0], cq = [], num_in_queue = 1\<rparr>, \<lparr>wq = [1], cq = [], num_in_queue = 1\<rparr>],
       sub_heap = [0 \<mapsto> mk_sub_op 2 5 demo_op 0 0, 1 \<mapsto> mk_sub_op 2 5 demo_op 1 8], next_sub = 2\<rparr>,
     w_held = [[], []], pending = [5], submitted = [5], answered = []\<rparr>"

abbreviation "demo_q \<equiv> fifo_ops QUEUE_SIZE :: (ptr list, ptr) spsc_ops"

lemma lb_demo_queues: "lb_queues demo_q (\<lambda>q. q) demo_q (\<lambda>q. q)"
  by unfold_locales

lemmas lb_demo_simps = lb_init_def empty_pair_def fifo_ops_def qp_defs QUEUE_SIZE_def
  op_codes demo_op_def

lemma lb_demo1_reach: "lb_reach demo_q demo_q (\<lambda>_. demo_op) (lb_init [] [] 2) lb_demo1"
proof -
  have "push_req demo_q QUEUE_SIZE 5 (shm_qp (lb (lb_init [] ([] :: ptr list) 2)))
      = Some (True, \<lparr>wq = [5], cq = [], num_in_queue = 1\<rparr>)"
    by (simp add: lb_demo_simps)
  from lb_reach.step[OF lb_reach.init lb_sys_step.submit[OF this]] show ?thesis
    by (simp add: lb_demo1_def lb_init_def eval_nat_numeral)
qed

lemma lb_demo2_post: "lb_try_post_op demo_q demo_q (\<lambda>_. demo_op) (lb lb_demo1) = Some (True, lb lb_demo2)"
proof -
  have "slice_size 2 12 0 = 8"
    by (simp add: slice_size_def slice_words_def)
  then show ?thesis
    by (simp add: lb_try_post_op_def lb_demo1_def lb_demo2_def lb_demo_simps flip: numeral_2_eq_2)
qed

lemma lb_demo2_reach: "lb_reach demo_q demo_q (\<lambda>_. demo_op) (lb_init [] [] 2) lb_demo2"
  using lb_reach.step[OF lb_demo1_reach lb_sys_step.post[OF lb_demo2_post]]
  by (simp add: lb_demo1_def lb_demo2_def lb_demo_simps)

subsection \<open>Properties\<close>

text \<open>
  C12: A successful \<open>try_post_op\<close> gives every worker one new sub-operation of the request \<open>p\<close>, at
  the end of its work queue. Their byte ranges tile the operation's buffer: the first starts at the
  buffer, each next one where the one before ends, the sizes add up to the operation's size, all
  but the last are whole words, and no two differ by more than one word (and the odd bytes).
\<close>

theorem lb_post_tiles_operation:
  assumes "lb_queues Qo ocont Qs scont" and "ocont qo = []" and "scont qs = []"
    and "0 < n" and "n < 2 ^ 31"
    and "lb_reach Qo Qs ops (lb_init qo qs n) s"
    and "front_req Qo (shm_qp (lb s)) = Some p" and "lb_try_post_op Qo Qs ops (lb s) = Some (True, l)"
  shows "\<exists>subs. length subs = n
    \<and> (\<forall>k<n. sub_heap l (next_sub (lb s) + k) = Some (subs ! k) \<and> sub_op (subs ! k) = p
         \<and> scont (wq (worker_qp l ! k)) = scont (wq (worker_qp (lb s) ! k)) @ [next_sub (lb s) + k])
    \<and> sub_data (subs ! 0) = shm_buffer (ops p)
    \<and> (\<forall>k. Suc k < n \<longrightarrow> sub_data (subs ! Suc k) = sub_data (subs ! k) + ucast (sub_size (subs ! k))
         \<and> unat (sub_size (subs ! k)) mod 4 = 0)
    \<and> (\<Sum>k<n. unat (sub_size (subs ! k))) = unat (op_size (ops p))
    \<and> (\<forall>j<n. \<forall>k<n. unat (sub_size (subs ! j)) div 4 \<le> unat (sub_size (subs ! k)) div 4 + 1)"
proof -
  obtain c d where s: "lb_ok ocont scont ops n c d s"
    using lb_queues.sys_reach_inv[OF assms(1,6,2,3,4)] by (auto simp: lb_inv_def)
  note post = lb_queues.post_subs[OF assms(1) s assms(4,7,8)]
  show ?thesis
    using post assms(4,5) slice_of_next[OF assms(4,5), of _ ops p]
    by (intro exI[of _ "map (slice_of ops n p) [0..<n]"] conjI allI impI)
      (simp_all add: slice_of_def mk_sub_op_def slice_off_def sum_unat_slice_size slice_words_even)
qed

theorem lb_post_tiles_operation_witness:
  "\<exists>subs. length subs = 2 \<and> sub_heap (lb lb_demo2) 1 = Some (subs ! 1) \<and> sub_op (subs ! 1) = 5
     \<and> sub_data (subs ! 0) = 1000 \<and> sub_data (subs ! 1) = 1000 + ucast (sub_size (subs ! 0))
     \<and> (\<Sum>k<2. unat (sub_size (subs ! k))) = 12"
  using lb_post_tiles_operation[OF lb_demo_queues refl refl _ _ lb_demo1_reach _ lb_demo2_post, of 5]
  by (auto simp: lb_demo1_def front_req_def fifo_ops_def demo_op_def)

text \<open>
  C32: The aggregator slots of a group are shared out without overlap: the block of each worker
  lies in the block the controller gave the group, and below the block of the next worker.
\<close>

theorem lb_agg_blocks_disjoint:
  assumes "i < n" and "unat (group_agg_addr (op_group op)) + unat (group_agg_len (op_group op)) \<le> 2 ^ 16"
    and "n \<le> unat (group_agg_len (op_group op))"
  shows "unat (group_agg_addr (op_group op)) \<le> unat (sub_agg_addr (mk_sub_op n p op i off))
    \<and> unat (sub_agg_addr (mk_sub_op n p op i off)) + unat (sub_agg_len (mk_sub_op n p op i off))
        \<le> unat (group_agg_addr (op_group op)) + unat (group_agg_len (op_group op))
    \<and> 0 < unat (sub_agg_len (mk_sub_op n p op i off))
    \<and> (\<forall>j<i. unat (sub_agg_addr (mk_sub_op n p op j off')) + unat (sub_agg_len (mk_sub_op n p op j off'))
        \<le> unat (sub_agg_addr (mk_sub_op n p op i off)))"
proof -
  have pos: "0 < unat (slice_agg_len n (op_group op))"
    using assms by (simp add: unat_slice_agg_len div_greater_zero_iff)
  note addr = unat_slice_agg_addr[OF _ assms(2) pos]
  have "unat (slice_agg_len n (op_group op)) * j + unat (slice_agg_len n (op_group op))
      \<le> unat (slice_agg_len n (op_group op)) * i" if "j < i" for j
    using that mult_le_mono2[of "Suc j" i "unat (slice_agg_len n (op_group op))"] by simp
  with pos assms(1) slice_agg_block[OF assms(1), of "op_group op"] show ?thesis
    by (simp add: mk_sub_op_def addr)
qed

theorem lb_agg_blocks_disjoint_witness:
  "unat (sub_agg_addr (mk_sub_op 2 5 demo_op 1 8)) + unat (sub_agg_len (mk_sub_op 2 5 demo_op 1 8)) \<le> 14
   \<and> unat (sub_agg_addr (mk_sub_op 2 5 demo_op 0 0)) + unat (sub_agg_len (mk_sub_op 2 5 demo_op 0 0))
     \<le> unat (sub_agg_addr (mk_sub_op 2 5 demo_op 1 8))"
  using lb_agg_blocks_disjoint[of 1 2 demo_op 5 8 0]
  by (simp add: demo_op_def)

text \<open>
  C7: The load balancer answers operations in the order they were submitted, each once: at any
  moment what the frontend submitted is what it got back, then the queued answers, then the
  operations in work, then the queued requests.
\<close>

theorem lb_answers_in_order:
  assumes "lb_queues Qo ocont Qs scont" and "ocont qo = []" and "scont qs = []" and "0 < n"
    and "lb_reach Qo Qs ops (lb_init qo qs n) s"
  shows "submitted s = answered s @ ocont (cq (shm_qp (lb s))) @ pending s @ ocont (wq (shm_qp (lb s)))
    \<and> length (submitted s) \<le> length (answered s) + QUEUE_SIZE"
  using lb_queues.sys_reach_inv[OF assms(1,5,2,3,4)]
  by (auto simp: lb_inv_def lb_ok_def qp_ok_def)

theorem lb_answers_in_order_witness:
  "submitted lb_demo2 = answered lb_demo2 @ [] @ [5] @ [] \<and> length (submitted lb_demo2) \<le> 1024"
  using lb_answers_in_order[OF lb_demo_queues refl refl _ lb_demo2_reach]
  by (simp add: lb_demo2_def QUEUE_SIZE_def)

text \<open>
  C20: The heap of sub-operations is exact: every address some worker has not finished with is
  live and holds that worker's slice of the pending operations, in their order; nothing else is live, and no
  address is shared. So nothing leaks, nothing is freed twice and no freed object is read.
\<close>

theorem lb_heap_exact:
  assumes "lb_queues Qo ocont Qs scont" and "ocont qo = []" and "scont qs = []" and "0 < n"
    and "lb_reach Qo Qs ops (lb_init qo qs n) s"
  shows "dom (sub_heap (lb s)) = (\<Union>k<n. set (outstanding scont s k))
    \<and> (\<forall>k<n. map (sub_heap (lb s)) (outstanding scont s k) = map (\<lambda>p. Some (slice_of ops n p k)) (pending s)
         \<and> distinct (outstanding scont s k)
         \<and> (\<forall>k'<n. k \<noteq> k' \<longrightarrow> set (outstanding scont s k) \<inter> set (outstanding scont s k') = {}))"
proof -
  obtain c d where s: "lb_ok ocont scont ops n c d s"
    using lb_queues.sys_reach_inv[OF assms(1,5,2,3,4)] by (auto simp: lb_inv_def)
  from lb_queues.sys_ok_live[OF assms(1) s] lb_queues.sys_ok_dom[OF assms(1) s assms(4)]
  show ?thesis by simp
qed

theorem lb_heap_exact_witness:
  "dom (sub_heap (lb lb_demo2)) = (\<Union>k<2. set (outstanding (\<lambda>q. q) lb_demo2 k))"
  using lb_heap_exact[OF lb_demo_queues refl refl _ lb_demo2_reach] by simp

text \<open>
  The load balancer thread never aborts and never dereferences a null or freed pointer, as
  long as the all-reduces and reduces it is handed are a whole number of words; the result of \<open>push_req\<close> it drops
  is always true. An operation that is not makes \<open>try_post_op\<close> fail its assert.
\<close>

theorem lb_never_aborts:
  assumes "lb_queues Qo ocont Qs scont" and "ocont qo = []" and "scont qs = []" and "0 < n"
    and "lb_reach Qo Qs ops (lb_init qo qs n) s"
  shows "((\<forall>p. op_wf (ops p)) \<longrightarrow> lb_iteration Qo Qs ops (lb s) \<noteq> None)
    \<and> (\<forall>p. front_req Qo (shm_qp (lb s)) = Some p \<and> \<not> op_wf (ops p) \<longrightarrow> lb_try_post_op Qo Qs ops (lb s) = None)"
proof -
  note inv = lb_queues.sys_reach_inv[OF assms(1,5,2,3,4)]
  have impl: "queue_pair_impl Qo ocont QUEUE_SIZE"
    using assms(1) by (simp add: lb_queues_def)
  have "lb_try_post_op Qo Qs ops (lb s) = None"
    if "front_req Qo (shm_qp (lb s)) = Some p" "\<not> op_wf (ops p)" for p
    using that queue_pair_impl.front_req_eq[OF impl, of "shm_qp (lb s)"] lb_queues.post_aborts[OF assms(1)]
    by (auto split: list.splits)
  with lb_queues.iteration_returns[OF assms(1) inv assms(4)] show ?thesis by blast
qed

theorem lb_never_aborts_witness:
  "lb_iteration demo_q demo_q (\<lambda>_. demo_op) (lb lb_demo2) \<noteq> None"
  using lb_never_aborts[OF lb_demo_queues refl refl _ lb_demo2_reach]
  by (simp add: op_wf_def demo_op_def)

end
