(* ===== verification/CopyBuffer.thy ===== *)
theory CopyBuffer
  imports CommonTypes
begin

text \<open>
  The two allocators of the frontend's shared memory (\<open>server/frontend/src/c/common.hpp\<close>), both
  first in, first out: \<open>copy_buffer_t\<close> hands out byte ranges of one buffer, \<open>op_buffer_t\<close> the
  entries of an array of operations. A range is given by its offset in the buffer.
\<close>

subsection \<open>The code\<close>

definition FRONTEND_SEGMENT_SIZE :: nat where [const_defs]: "FRONTEND_SEGMENT_SIZE = 2 * 1024 * 1024"
definition SHM_COPY_BUFFER_SIZE :: nat where [const_defs]: "SHM_COPY_BUFFER_SIZE = 8 * 1024 * 1024"

record copy_buffer =
  cb_head :: u32
  cb_tail :: u32

definition new_copy_buffer :: copy_buffer where
  "new_copy_buffer = \<lparr>cb_head = 0, cb_tail = 0\<rparr>"

definition cb_available :: "copy_buffer \<Rightarrow> u32" where
  "cb_available cb =
     (if cb_tail cb = 0 then of_nat SHM_COPY_BUFFER_SIZE - cb_head cb
      else if cb_head cb \<ge> cb_tail cb
      then max (of_nat SHM_COPY_BUFFER_SIZE + 1 - cb_head cb) (cb_tail cb - 1)
      else cb_tail cb - 1 - cb_head cb)"

definition cb_allocate :: "u32 \<Rightarrow> copy_buffer \<Rightarrow> u32 option \<times> copy_buffer" where
  "cb_allocate sz cb =
     (if sz > cb_available cb then (None, cb)
      else let ret = cb_head cb;
               head = cb_head cb + sz;
               head = (if head = of_nat SHM_COPY_BUFFER_SIZE + 1 then 0 else head)
           in if head > of_nat SHM_COPY_BUFFER_SIZE + 1 then (Some 0, cb\<lparr>cb_head := sz\<rparr>)
              else (Some ret, cb\<lparr>cb_head := head\<rparr>))"

definition cb_free :: "u32 \<Rightarrow> copy_buffer \<Rightarrow> copy_buffer option" where
  "cb_free sz cb = do {
     c_assert (sz \<le> of_nat SHM_COPY_BUFFER_SIZE);
     cb \<leftarrow> (if cb_tail cb + sz > of_nat SHM_COPY_BUFFER_SIZE
           then do { c_assert (cb_head cb < cb_tail cb); Some (cb\<lparr>cb_tail := 0\<rparr>) }
           else Some cb);
     c_assert ((cb_head cb \<ge> cb_tail cb) = (cb_head cb \<ge> cb_tail cb + sz));
     Some (cb\<lparr>cb_tail := cb_tail cb + sz\<rparr>)
   }"

record op_buffer =
  ob_head :: u32
  ob_cnt :: u32

definition new_op_buffer :: op_buffer where
  "new_op_buffer = \<lparr>ob_head = 0, ob_cnt = 0\<rparr>"

definition ob_available :: "op_buffer \<Rightarrow> u32" where
  "ob_available ob = of_nat QUEUE_SIZE - ob_cnt ob"

definition ob_allocate :: "op_buffer \<Rightarrow> u32 option \<times> op_buffer" where
  "ob_allocate ob =
     (if ob_cnt ob = of_nat QUEUE_SIZE then (None, ob)
      else let ret = ob_head ob; head = ob_head ob + 1
           in (Some ret, ob\<lparr>ob_cnt := ob_cnt ob + 1, ob_head := (if head = of_nat QUEUE_SIZE then 0 else head)\<rparr>))"

definition ob_free :: "op_buffer \<Rightarrow> op_buffer option" where
  "ob_free ob = do { c_assert (ob_cnt ob \<noteq> 0); Some (ob\<lparr>ob_cnt := ob_cnt ob - 1\<rparr>) }"

subsection \<open>What the byte allocator promises\<close>

text \<open>
  Abstractly the buffer is the list of the ranges handed out and not given back, oldest
  first. \<open>chain a bs e\<close>: the ranges \<open>bs\<close> follow each other without a gap from \<open>a\<close> to \<open>e\<close>.
\<close>

fun chain :: "nat \<Rightarrow> (nat \<times> nat) list \<Rightarrow> nat \<Rightarrow> bool" where
  "chain a [] e \<longleftrightarrow> e = a"
| "chain a ((p, s) # bs) e \<longleftrightarrow> p = a \<and> chain (a + s) bs e"

text \<open>
  The ranges are those from \<open>tail\<close> up to some end, then, when the buffer has wrapped, those
  from the start up to \<open>head\<close>, the first of which did not fit at the end.
\<close>

definition cb_inv :: "copy_buffer \<Rightarrow> (nat \<times> nat) list \<Rightarrow> bool" where
  "cb_inv cb bs \<longleftrightarrow> (\<exists>xs ys e. bs = xs @ ys
     \<and> chain (unat (cb_tail cb)) xs e \<and> e \<le> SHM_COPY_BUFFER_SIZE
     \<and> even (unat (cb_tail cb)) \<and> (\<forall>(p, s)\<in>set bs. even s)
     \<and> (if ys = [] then unat (cb_head cb) = e
        else chain 0 ys (unat (cb_head cb)) \<and> cb_head cb < cb_tail cb \<and> SHM_COPY_BUFFER_SIZE < e + snd (hd ys)))"

text \<open>Two ranges have no byte in common.\<close>

definition apart :: "nat \<times> nat \<Rightarrow> nat \<times> nat \<Rightarrow> bool" where
  "apart b c \<longleftrightarrow> fst b + snd b \<le> fst c \<or> fst c + snd c \<le> fst b"

lemma chain_append: "chain a (xs @ ys) e \<longleftrightarrow> (\<exists>m. chain a xs m \<and> chain m ys e)"
  by (induction xs arbitrary: a) auto

lemma chain_bounds: "chain a bs e \<Longrightarrow> (p, s) \<in> set bs \<Longrightarrow> a \<le> p \<and> p + s \<le> e"
proof (induction bs arbitrary: a)
  case (Cons b bs)
  obtain p' s' where b: "b = (p', s')" by fastforce
  have le: "chain x bs e \<Longrightarrow> x \<le> e" for x by (induction bs arbitrary: x) fastforce+
  show ?case using Cons b le[of "a + s'"] by fastforce
qed simp

lemma chain_le: "chain a bs e \<Longrightarrow> a \<le> e"
  by (induction bs arbitrary: a) fastforce+

lemma chain_even: "chain a bs e \<Longrightarrow> even a \<Longrightarrow> \<forall>(p, s)\<in>set bs. even s \<Longrightarrow> even e"
  by (induction bs arbitrary: a) auto

lemma size_const: "SHM_COPY_BUFFER_SIZE = 8388608"
  by (simp add: SHM_COPY_BUFFER_SIZE_def)

lemma unat_size: "unat (of_nat SHM_COPY_BUFFER_SIZE :: u32) = SHM_COPY_BUFFER_SIZE"
  "unat (of_nat SHM_COPY_BUFFER_SIZE + 1 :: u32) = Suc SHM_COPY_BUFFER_SIZE"
  by (simp_all add: size_const)

lemma cb_new_inv: "cb_inv new_copy_buffer []"
  by (simp add: cb_inv_def new_copy_buffer_def)

lemma cb_inv_range:
  assumes "cb_inv cb bs" "(p, s) \<in> set bs"
  shows "p + s \<le> SHM_COPY_BUFFER_SIZE"
proof -
  obtain xs ys e where i: "bs = xs @ ys" "chain (unat (cb_tail cb)) xs e" "e \<le> SHM_COPY_BUFFER_SIZE"
    "if ys = [] then unat (cb_head cb) = e
        else chain 0 ys (unat (cb_head cb)) \<and> cb_head cb < cb_tail cb \<and> SHM_COPY_BUFFER_SIZE < e + snd (hd ys)"
    using assms(1) unfolding cb_inv_def by blast
  have "unat (cb_tail cb) \<le> e" using chain_le[OF i(2)] .
  with i assms(2) chain_bounds[OF i(2), of p s] chain_bounds[of 0 ys "unat (cb_head cb)" p s] show ?thesis
    by (auto simp: word_less_nat_alt split: if_splits)
qed

text \<open>The byte counts of \<open>cb_available\<close>.\<close>

lemma cb_available_nat:
  assumes "unat (cb_head cb) \<le> SHM_COPY_BUFFER_SIZE" "unat (cb_tail cb) \<le> SHM_COPY_BUFFER_SIZE"
  shows "unat (cb_available cb) =
    (if unat (cb_tail cb) = 0 then SHM_COPY_BUFFER_SIZE - unat (cb_head cb)
     else if unat (cb_tail cb) \<le> unat (cb_head cb)
     then max (SHM_COPY_BUFFER_SIZE + 1 - unat (cb_head cb)) (unat (cb_tail cb) - 1)
     else unat (cb_tail cb) - 1 - unat (cb_head cb))"
proof -
  let ?S = "of_nat SHM_COPY_BUFFER_SIZE :: u32"
  have a: "cb_head cb \<le> ?S" "cb_head cb \<le> ?S + 1"
    using assms unat_size by (simp_all add: word_le_nat_alt)
  have 1: "unat (?S - cb_head cb) = SHM_COPY_BUFFER_SIZE - unat (cb_head cb)"
    "unat (?S + 1 - cb_head cb) = SHM_COPY_BUFFER_SIZE + 1 - unat (cb_head cb)"
    using a unat_size by (simp_all add: unat_sub)
  have 2: "unat (cb_tail cb - 1) = unat (cb_tail cb) - 1" if "cb_tail cb \<noteq> 0"
    using that by (intro unat_dec) (simp add: unat_gt_0)
  have 3: "unat (cb_tail cb - 1 - cb_head cb) = unat (cb_tail cb) - 1 - unat (cb_head cb)"
    if "cb_tail cb \<noteq> 0" "\<not> unat (cb_tail cb) \<le> unat (cb_head cb)"
  proof -
    have "cb_head cb \<le> cb_tail cb - 1" using 2[OF that(1)] that(2) by (simp add: word_le_nat_alt)
    then show ?thesis using 2[OF that(1)] by (simp add: unat_sub)
  qed
  show ?thesis
  proof (cases "cb_tail cb = 0")
    case True
    then show ?thesis using 1 by (simp add: cb_available_def)
  next
    case False
    then have "unat (cb_tail cb) \<noteq> 0" by (simp add: unat_eq_0)
    moreover have "unat (max x y) = max (unat x) (unat y)" for x y :: u32
      by (simp add: max_def word_le_nat_alt)
    ultimately show ?thesis using 1(2) 2[OF False] 3[OF False] False
      by (simp add: cb_available_def word_le_nat_alt)
  qed
qed


lemma cb_inv_cases:
  assumes "cb_inv cb bs"
  obtains (straight) "chain (unat (cb_tail cb)) bs (unat (cb_head cb))" "unat (cb_head cb) \<le> SHM_COPY_BUFFER_SIZE"
      "even (unat (cb_tail cb))" "\<forall>(p, s)\<in>set bs. even s"
  | (wrapped) xs s ys e where "bs = xs @ (0, s) # ys" "chain (unat (cb_tail cb)) xs e" "e \<le> SHM_COPY_BUFFER_SIZE"
      "chain s ys (unat (cb_head cb))" "unat (cb_head cb) < unat (cb_tail cb)" "SHM_COPY_BUFFER_SIZE < e + s"
      "even (unat (cb_tail cb))" "\<forall>(p, s)\<in>set bs. even s"
proof -
  obtain xs ys e where i: "bs = xs @ ys" "chain (unat (cb_tail cb)) xs e" "e \<le> SHM_COPY_BUFFER_SIZE"
    "even (unat (cb_tail cb))" "\<forall>(p, s)\<in>set bs. even s"
    "if ys = [] then unat (cb_head cb) = e
        else chain 0 ys (unat (cb_head cb)) \<and> cb_head cb < cb_tail cb \<and> SHM_COPY_BUFFER_SIZE < e + snd (hd ys)"
    using assms unfolding cb_inv_def by blast
  show thesis
  proof (cases ys)
    case Nil
    with i show ?thesis by (intro straight) auto
  next
    case (Cons y zs)
    with i show ?thesis
      by (intro wrapped[of xs "snd y" zs e]) (cases y; auto simp: word_less_nat_alt)+
  qed
qed

lemma cb_inv_straight:
  assumes "chain (unat (cb_tail cb)) bs (unat (cb_head cb))" "unat (cb_head cb) \<le> SHM_COPY_BUFFER_SIZE"
    "even (unat (cb_tail cb))" "\<forall>(p, s)\<in>set bs. even s"
  shows "cb_inv cb bs"
  unfolding cb_inv_def using assms by (intro exI[of _ bs] exI[of _ "[]"]) auto

lemma cb_inv_wrapped:
  assumes "chain (unat (cb_tail cb)) xs e" "e \<le> SHM_COPY_BUFFER_SIZE"
    "chain s ys (unat (cb_head cb))" "unat (cb_head cb) < unat (cb_tail cb)" "SHM_COPY_BUFFER_SIZE < e + s"
    "even (unat (cb_tail cb))" "\<forall>(p, s)\<in>set (xs @ (0, s) # ys). even s"
  shows "cb_inv cb (xs @ (0, s) # ys)"
  unfolding cb_inv_def using assms
  by (intro exI[of _ xs] exI[of _ "(0, s) # ys"] exI[of _ e]) (auto simp: word_less_nat_alt)

lemma cb_inv_bounds:
  assumes "cb_inv cb bs"
  shows "unat (cb_head cb) \<le> SHM_COPY_BUFFER_SIZE" "unat (cb_tail cb) \<le> SHM_COPY_BUFFER_SIZE"
  using assms by (cases rule: cb_inv_cases; auto dest: chain_le)+

text \<open>Ranges handed out are pairwise disjoint.\<close>

lemma chain_apart: "chain a bs e \<Longrightarrow> sorted_wrt apart bs"
proof (induction bs arbitrary: a)
  case (Cons b bs)
  then show ?case
    by (cases b) (auto simp: apart_def dest: chain_bounds)
qed simp

lemma cb_inv_apart:
  assumes "cb_inv cb bs"
  shows "sorted_wrt apart bs"
  using assms
proof (cases rule: cb_inv_cases)
  case straight
  then show ?thesis by (blast intro: chain_apart)
next
  case (wrapped xs s ys e)
  have "chain 0 ((0, s) # ys) (unat (cb_head cb))" using wrapped by simp
  from chain_apart[OF this] chain_bounds[OF this] chain_bounds[OF wrapped(2)] chain_apart[OF wrapped(2)] wrapped(5)
  show ?thesis unfolding wrapped(1) sorted_wrt_append by (fastforce simp: apart_def)
qed

lemma unat_add_u32: "unat a + unat b < 4294967296 \<Longrightarrow> unat (a + b) = unat a + unat b" for a b :: u32
  by (simp add: unat_add_lem[symmetric])

lemma cb_allocate_inv:
  assumes inv: "cb_inv cb bs" and ev: "even (unat sz)" and al: "cb_allocate sz cb = (Some off, cb')"
  shows "cb_inv cb' (bs @ [(unat off, unat sz)])"
proof -
  note B = cb_inv_bounds[OF inv]
  have fits: "unat sz \<le> unat (cb_available cb)"
    using al by (auto simp: cb_allocate_def word_less_nat_alt split: if_splits)
  then have sz: "unat sz \<le> SHM_COPY_BUFFER_SIZE"
    using cb_available_nat[OF B] B by (auto simp: max_def split: if_splits)
  have h: "unat (cb_head cb + sz) = unat (cb_head cb) + unat sz"
    using B sz by (intro unat_add_u32) (simp add: size_const)
  let ?S1 = "of_nat SHM_COPY_BUFFER_SIZE + 1 :: u32"
  have eq: "cb_head cb + sz = ?S1 \<longleftrightarrow> unat (cb_head cb) + unat sz = Suc SHM_COPY_BUFFER_SIZE"
    using h unat_size(2) by (simp add: word_unat_eq_iff)
  have lt: "?S1 < cb_head cb + sz \<longleftrightarrow> Suc SHM_COPY_BUFFER_SIZE < unat (cb_head cb) + unat sz"
    using h unat_size(2) by (simp add: word_less_nat_alt)
  have z: "\<not> ?S1 < (0::u32)" by simp
  show ?thesis
    using inv
  proof (cases rule: cb_inv_cases)
    case straight
    have "even (unat (cb_head cb))"
      using chain_even[OF straight(1,3,4)] .
    then have ne: "unat (cb_head cb) + unat sz \<noteq> Suc SHM_COPY_BUFFER_SIZE"
      using ev by (metis even_add even_Suc size_const even_numeral)
    show ?thesis
    proof (cases "Suc SHM_COPY_BUFFER_SIZE < unat (cb_head cb) + unat sz")
      case True
      with al ne have r: "off = 0" "cb' = cb\<lparr>cb_head := sz\<rparr>"
        by (auto simp: cb_allocate_def eq lt z Let_def split: if_splits)
      have "unat sz < unat (cb_tail cb)"
        using fits True cb_available_nat[OF B] B chain_le[OF straight(1)]
        by (auto simp: max_def split: if_splits)
      with straight True ev show ?thesis unfolding r
        using cb_inv_wrapped[of "cb\<lparr>cb_head := sz\<rparr>" bs "unat (cb_head cb)" "unat sz" "[]"] by simp
    next
      case False
      with al ne have r: "off = cb_head cb" "cb' = cb\<lparr>cb_head := cb_head cb + sz\<rparr>"
        by (auto simp: cb_allocate_def eq lt z Let_def split: if_splits)
      show ?thesis unfolding r using straight False ne ev
        by (intro cb_inv_straight) (auto simp: chain_append h)
    qed
  next
    case (wrapped xs s ys e)
    then have "unat sz \<le> unat (cb_tail cb) - 1 - unat (cb_head cb)"
      using fits cb_available_nat[OF B] by (auto split: if_splits)
    with wrapped(5) have lt2: "unat (cb_head cb) + unat sz < unat (cb_tail cb)" by linarith
    with al B have r: "off = cb_head cb" "cb' = cb\<lparr>cb_head := cb_head cb + sz\<rparr>"
      by (auto simp: cb_allocate_def eq lt z Let_def split: if_splits)
    have "cb_inv cb' (xs @ (0, s) # (ys @ [(unat off, unat sz)]))"
      unfolding r using wrapped lt2 ev by (intro cb_inv_wrapped[of _ _ e]) (auto simp: chain_append h)
    then show ?thesis by (simp add: wrapped(1))
  qed
qed

lemma cb_allocate_none: "fst (cb_allocate sz cb) = None \<longleftrightarrow> cb_available cb < sz"
  by (auto simp: cb_allocate_def Let_def)

lemma cb_free_inv:
  assumes inv: "cb_inv cb ((p, unat sz) # bs)"
  shows "\<exists>cb'. cb_free sz cb = Some cb' \<and> cb_inv cb' bs"
proof -
  note B = cb_inv_bounds[OF inv]
  have sz: "unat sz \<le> SHM_COPY_BUFFER_SIZE" using cb_inv_range[OF inv] by force
  have t: "unat (cb_tail cb + sz) = unat (cb_tail cb) + unat sz"
    using B sz by (intro unat_add_u32) (simp add: size_const)
  have S: "sz \<le> of_nat SHM_COPY_BUFFER_SIZE"
    "of_nat SHM_COPY_BUFFER_SIZE < cb_tail cb + sz \<longleftrightarrow> SHM_COPY_BUFFER_SIZE < unat (cb_tail cb) + unat sz"
    using sz t unat_size(1) by (simp_all add: word_le_nat_alt word_less_nat_alt)
  note W = word_le_nat_alt word_less_nat_alt
  show ?thesis using inv
  proof (cases rule: cb_inv_cases)
    case straight
    then have h: "unat (cb_tail cb) + unat sz \<le> unat (cb_head cb)" by (auto dest: chain_le)
    with straight have "cb_free sz cb = Some (cb\<lparr>cb_tail := cb_tail cb + sz\<rparr>)"
      unfolding cb_free_def by (simp add: S W t unat_size)
    with straight show ?thesis by (auto intro!: cb_inv_straight simp: t)
  next
    case (wrapped xs s ys e)
    show ?thesis
    proof (cases xs)
      case Nil
      with wrapped have w: "SHM_COPY_BUFFER_SIZE < unat (cb_tail cb) + unat sz" "chain (unat sz) bs (unat (cb_head cb))"
        by auto
      have "unat sz \<le> unat (cb_head cb)" using chain_le[OF w(2)] .
      with w wrapped(5) sz have "cb_free sz cb = Some (cb\<lparr>cb_tail := sz\<rparr>)"
        unfolding cb_free_def by (simp add: S W t unat_size)
      with w wrapped(7,8) B show ?thesis by (auto intro!: cb_inv_straight)
    next
      case (Cons x xs')
      with wrapped(1) have x: "x = (p, unat sz)" "bs = xs' @ (0, s) # ys" by auto
      with Cons wrapped(2) have c: "chain (unat (cb_tail cb) + unat sz) xs' e" by simp
      have "unat (cb_tail cb) + unat sz \<le> SHM_COPY_BUFFER_SIZE" using chain_le[OF c] wrapped(3) by simp
      with wrapped(5) have "cb_free sz cb = Some (cb\<lparr>cb_tail := cb_tail cb + sz\<rparr>)"
        unfolding cb_free_def by (simp add: S W t unat_size)
      moreover have "cb_inv (cb\<lparr>cb_tail := cb_tail cb + sz\<rparr>) bs"
        unfolding x using wrapped c Cons x by (intro cb_inv_wrapped[of _ _ e]) (auto simp: t)
      ultimately show ?thesis by blast
    qed
  qed
qed

text \<open>With nothing handed out, half of the buffer is free in one piece, wherever \<open>head\<close> stands.\<close>

lemma cb_empty_available:
  assumes "cb_inv cb []"
  shows "SHM_COPY_BUFFER_SIZE div 2 \<le> unat (cb_available cb)"
  using assms
proof (cases rule: cb_inv_cases)
  case straight
  then show ?thesis using cb_available_nat[of cb] by (auto simp: size_const)
qed simp


lemma cb_allocate_same: "cb_allocate sz cb = (None, cb') \<Longrightarrow> cb' = cb"
  by (auto simp: cb_allocate_def Let_def split: if_splits)

subsection \<open>What the operation allocator promises\<close>

text \<open>The entries handed out are the \<open>cnt\<close> ones before \<open>head\<close>, around the end of the array.\<close>

definition ob_inv :: "op_buffer \<Rightarrow> (nat \<times> nat) list \<Rightarrow> bool" where
  "ob_inv ob bs \<longleftrightarrow> unat (ob_head ob) < QUEUE_SIZE \<and> unat (ob_cnt ob) = length bs \<and> length bs \<le> QUEUE_SIZE
     \<and> bs = map (\<lambda>i. ((unat (ob_head ob) + QUEUE_SIZE - i) mod QUEUE_SIZE, 1)) (rev [1..<Suc (length bs)])"

lemma ob_new_inv: "ob_inv new_op_buffer []"
  by (simp add: ob_inv_def new_op_buffer_def QUEUE_SIZE_def)

lemma ob_available_eq: "ob_inv ob bs \<Longrightarrow> unat (ob_available ob) = QUEUE_SIZE - length bs"
  by (simp add: ob_inv_def ob_available_def QUEUE_SIZE_def unat_sub word_le_nat_alt)

lemma ob_cnt_full: "ob_cnt ob = of_nat QUEUE_SIZE \<longleftrightarrow> unat (ob_cnt ob) = QUEUE_SIZE"
  by (rule word_eq_of_nat_iff) (simp add: QUEUE_SIZE_def)

lemma mod_back: "(h::nat) < n \<Longrightarrow> 0 < i \<Longrightarrow> i \<le> n \<Longrightarrow> (h + n - i) mod n = (if i \<le> h then h - i else h + n - i)"
  by (auto simp: mod_if)

lemma ob_step:
  assumes "(h::nat) < n" "i < n"
  shows "((if Suc h = n then 0 else Suc h) + n - Suc i) mod n = (h + n - i) mod n"
proof (cases "Suc h = n")
  case True
  with assms have "h + n - i = (h - i) + n" "n - Suc i = h - i" by simp_all
  moreover have "(h - i + n) mod n = h - i" "(h - i) mod n = h - i" using assms by simp_all
  moreover have "0 + n - Suc i = n - Suc i" by simp
  ultimately show ?thesis unfolding if_P[OF True] by simp
qed (use assms in auto)

lemma ob_allocate_inv:
  assumes inv: "ob_inv ob bs" and al: "ob_allocate ob = (Some i, ob')"
  shows "ob_inv ob' (bs @ [(unat i, 1)])"
proof -
  let ?h = "unat (ob_head ob)"
  have c: "unat (ob_cnt ob) = length bs" "?h < QUEUE_SIZE" "length bs \<noteq> QUEUE_SIZE" "length bs \<le> QUEUE_SIZE"
    using inv al by (auto simp: ob_inv_def ob_allocate_def ob_cnt_full split: if_splits)
  have h: "unat (ob_head ob + 1) = Suc ?h" "unat (ob_cnt ob + 1) = Suc (length bs)"
    using c by (simp_all add: unat_inc QUEUE_SIZE_def)
  have "ob_head ob + 1 = of_nat QUEUE_SIZE \<longleftrightarrow> Suc ?h = QUEUE_SIZE"
    using h by (subst word_eq_of_nat_iff) (auto simp: QUEUE_SIZE_def)
  with al h have r: "i = ob_head ob" "unat (ob_cnt ob') = Suc (length bs)"
    "unat (ob_head ob') = (if Suc ?h = QUEUE_SIZE then 0 else Suc ?h)"
    by (auto simp: ob_allocate_def Let_def split: if_splits)
  have bs: "bs = map (\<lambda>i. ((?h + QUEUE_SIZE - i) mod QUEUE_SIZE, 1)) (rev [1..<Suc (length bs)])"
    using inv by (simp add: ob_inv_def)
  let ?g = "\<lambda>i. ((unat (ob_head ob') + QUEUE_SIZE - i) mod QUEUE_SIZE, 1::nat)"
  have step: "?g (Suc i) = ((?h + QUEUE_SIZE - i) mod QUEUE_SIZE, 1)" if "i < QUEUE_SIZE" for i
    using that c(2) by (simp only: r ob_step)
  have upt: "[1..<Suc (Suc (length bs))] = 1 # map Suc [1..<Suc (length bs)]"
    by (simp add: map_Suc_upt upt_conv_Cons del: upt_Suc)
  have "map ?g (rev [1..<Suc (Suc (length bs))]) = map (?g \<circ> Suc) (rev [1..<Suc (length bs)]) @ [?g (Suc 0)]"
    unfolding upt by (simp add: rev_map del: upt_Suc)
  also have "map (?g \<circ> Suc) (rev [1..<Suc (length bs)])
      = map (\<lambda>i. ((?h + QUEUE_SIZE - i) mod QUEUE_SIZE, 1)) (rev [1..<Suc (length bs)])"
    using c by (intro map_cong refl) (subst comp_def, rule step, auto)
  also have "\<dots> = bs" by (rule bs[symmetric])
  also have "?g (Suc 0) = (unat i, 1)"
    using step[of 0] c(2) by (simp add: r)
  finally show ?thesis
    unfolding ob_inv_def using r c by auto
qed


lemma ob_allocate_none: "ob_inv ob bs \<Longrightarrow> fst (ob_allocate ob) = None \<longleftrightarrow> length bs = QUEUE_SIZE"
  using ob_cnt_full[of ob] by (auto simp: ob_allocate_def ob_inv_def Let_def)

lemma ob_free_inv:
  assumes "ob_inv ob (b # bs)"
  shows "\<exists>ob'. ob_free ob = Some ob' \<and> ob_inv ob' bs"
proof -
  have c: "unat (ob_cnt ob) = Suc (length bs)" using assms by (simp add: ob_inv_def)
  then have "ob_cnt ob \<noteq> 0" "unat (ob_cnt ob - 1) = length bs"
    by (auto simp: unat_dec)
  then show ?thesis using assms by (auto simp: ob_free_def ob_inv_def)
qed

lemma unit_ranges_apart: "distinct (map fst bs) \<Longrightarrow> \<forall>b\<in>set bs. snd b = Suc 0 \<Longrightarrow> sorted_wrt apart bs"
proof (induction bs)
  case (Cons b bs)
  have "apart b c" if "c \<in> set bs" for c
  proof -
    have "fst b \<noteq> fst c" using Cons.prems(1) that by (metis distinct.simps(2) image_eqI list.set_map list.simps(9))
    then show ?thesis using Cons.prems(2) that by (auto simp: apart_def)
  qed
  with Cons show ?case by simp
qed simp

lemma ob_inv_apart:
  assumes "ob_inv ob bs"
  shows "sorted_wrt apart bs"
proof (rule unit_ranges_apart)
  let ?f = "\<lambda>i. (unat (ob_head ob) + QUEUE_SIZE - i) mod QUEUE_SIZE"
  have h: "unat (ob_head ob) < QUEUE_SIZE" "length bs \<le> QUEUE_SIZE" using assms by (simp_all add: ob_inv_def)
  have bs: "bs = map (\<lambda>i. (?f i, 1)) (rev [1..<Suc (length bs)])" using assms unfolding ob_inv_def by blast
  have "inj_on ?f {1..<Suc (length bs)}"
    using h by (intro inj_onI) (auto simp: mod_back split: if_splits)
  then have "distinct (map ?f (rev [1..<Suc (length bs)]))"
    by (simp add: distinct_map del: upt_Suc)
  moreover have "map fst bs = map ?f (rev [1..<Suc (length bs)])"
    by (subst bs) (simp add: comp_def del: upt_Suc)
  ultimately show "distinct (map fst bs)" by simp
  show "\<forall>b\<in>set bs. snd b = Suc 0" by (subst bs) auto
qed

lemma ob_inv_range: "ob_inv ob bs \<Longrightarrow> (p, n) \<in> set bs \<Longrightarrow> p + n \<le> QUEUE_SIZE"
proof -
  assume "ob_inv ob bs" "(p, n) \<in> set bs"
  then obtain i where "n = 1" "p = (unat (ob_head ob) + QUEUE_SIZE - i) mod QUEUE_SIZE"
    unfolding ob_inv_def by (metis (no_types, lifting) in_set_conv_nth length_map nth_map prod.inject)
  moreover have "x mod QUEUE_SIZE < QUEUE_SIZE" for x by (simp add: QUEUE_SIZE_def)
  ultimately show "p + n \<le> QUEUE_SIZE" by (metis Suc_eq_plus1 Suc_leI)
qed

subsection \<open>The contract the two share\<close>

text \<open>
  A first-in, first-out allocator: what it hands out goes to the end of the list of what is
  outstanding, the oldest can always be given back, and what is outstanding never overlaps. \<open>len\<close> is
  how much a request of a given size takes and \<open>good\<close> the requests the contract covers.
\<close>

locale fifo_allocator =
  fixes alloc :: "u32 \<Rightarrow> 's \<Rightarrow> u32 option \<times> 's" and give_back :: "u32 \<Rightarrow> 's \<Rightarrow> 's option"
    and inv :: "'s \<Rightarrow> (nat \<times> nat) list \<Rightarrow> bool" and len :: "u32 \<Rightarrow> nat" and good :: "u32 \<Rightarrow> bool"
    and limit :: nat
  assumes alloc_some: "inv s bs \<Longrightarrow> good sz \<Longrightarrow> alloc sz s = (Some p, s') \<Longrightarrow> inv s' (bs @ [(unat p, len sz)])"
    and alloc_none: "alloc sz s = (None, s') \<Longrightarrow> s' = s"
    and give_back_oldest: "inv s ((q, len sz) # bs) \<Longrightarrow> \<exists>s'. give_back sz s = Some s' \<and> inv s' bs"
    and inv_apart: "inv s bs \<Longrightarrow> sorted_wrt apart bs"
    and inv_range: "inv s bs \<Longrightarrow> (q, n) \<in> set bs \<Longrightarrow> q + n \<le> limit"

text \<open>
  A client: it asks for sizes and gives back the oldest, and keeps a list of what it holds. A
  failed assert ends the run with \<open>None\<close>.
\<close>

datatype alloc_call = Allocate u32 | Give_back

type_synonym ranges = "(u32 \<times> u32) list"

fun run_calls :: "(u32 \<Rightarrow> 's \<Rightarrow> u32 option \<times> 's) \<Rightarrow> (u32 \<Rightarrow> 's \<Rightarrow> 's option) \<Rightarrow> alloc_call list \<Rightarrow> 's \<times> ranges \<Rightarrow> ('s \<times> ranges) option" where
  "run_calls alloc give_back [] st = Some st"
| "run_calls alloc give_back (Allocate sz # cs) (s, bs) =
     (case alloc sz s of
        (None, s') \<Rightarrow> run_calls alloc give_back cs (s', bs)
      | (Some p, s') \<Rightarrow> run_calls alloc give_back cs (s', bs @ [(p, sz)]))"
| "run_calls alloc give_back (Give_back # cs) (s, bs) =
     (case bs of
        [] \<Rightarrow> run_calls alloc give_back cs (s, bs)
      | (p, sz) # bs' \<Rightarrow> (case give_back sz s of None \<Rightarrow> None | Some s' \<Rightarrow> run_calls alloc give_back cs (s', bs')))"

definition asked :: "alloc_call list \<Rightarrow> u32 list" where
  "asked cs = concat (map (\<lambda>c. case c of Allocate sz \<Rightarrow> [sz] | Give_back \<Rightarrow> []) cs)"

lemma asked_simps [simp]: "asked [] = []" "asked (Allocate sz # cs) = sz # asked cs" "asked (Give_back # cs) = asked cs"
  by (simp_all add: asked_def)

context fifo_allocator begin

definition spans :: "ranges \<Rightarrow> (nat \<times> nat) list" where
  "spans = map (\<lambda>(p, sz). (unat p, len sz))"

lemma run_total:
  "inv s (spans bs) \<Longrightarrow> \<forall>sz\<in>set (asked cs). good sz \<Longrightarrow>
    \<exists>s' bs'. run_calls alloc give_back cs (s, bs) = Some (s', bs') \<and> inv s' (spans bs')"
proof (induction cs arbitrary: s bs)
  case (Cons c cs)
  show ?case
  proof (cases c)
    case (Allocate sz)
    obtain r s' where al: "alloc sz s = (r, s')" by fastforce
    have "inv s' (spans (case r of None \<Rightarrow> bs | Some p \<Rightarrow> bs @ [(p, sz)]))"
      using al alloc_none[of sz s s'] alloc_some[OF Cons.prems(1), of sz _ s'] Cons.prems Allocate
      by (auto simp: spans_def split: option.split)
    from Cons.IH[OF this] Cons.prems(2) Allocate al show ?thesis by (auto split: option.splits)
  next
    case Give_back
    show ?thesis
    proof (cases bs)
      case Nil
      with Cons Give_back show ?thesis by simp
    next
      case [simp]: (Cons b bs')
      obtain p sz where b: "b = (p, sz)" by fastforce
      with Cons.prems have "inv s ((unat p, len sz) # spans bs')" by (simp add: spans_def)
      from give_back_oldest[OF this] obtain s' where "give_back sz s = Some s'" "inv s' (spans bs')" by blast
      with Cons.IH[of s' bs'] Cons.prems Give_back b show ?thesis by simp
    qed
  qed
qed auto

lemma run_safe:
  assumes "inv s []" "\<forall>sz\<in>set (asked cs). good sz"
  shows "\<exists>s' bs. run_calls alloc give_back cs (s, []) = Some (s', bs) \<and> sorted_wrt apart (spans bs)
    \<and> list_all (\<lambda>(p, n). p + n \<le> limit) (spans bs)"
proof -
  from run_total[of s "[]" cs] assms obtain s' bs
    where r: "run_calls alloc give_back cs (s, []) = Some (s', bs)" "inv s' (spans bs)"
    by (auto simp: spans_def)
  with inv_apart[OF r(2)] inv_range[OF r(2)] show ?thesis by (auto simp: list_all_iff)
qed

end

interpretation cba: fifo_allocator cb_allocate cb_free cb_inv unat "\<lambda>sz. even (unat sz)" SHM_COPY_BUFFER_SIZE
  by unfold_locales (auto intro: cb_allocate_inv cb_allocate_same cb_free_inv cb_inv_apart cb_inv_range)

interpretation oba: fifo_allocator "\<lambda>_. ob_allocate" "\<lambda>_. ob_free" ob_inv "\<lambda>_. 1" "\<lambda>_. True" QUEUE_SIZE
proof
  show "ob_allocate s = (None, s') \<Longrightarrow> s' = s" for s s'
    by (auto simp: ob_allocate_def Let_def split: if_splits)
qed (use ob_allocate_inv ob_free_inv ob_inv_apart ob_inv_range in auto)


subsection \<open>Properties\<close>

lemma run_copy_buffer:
  assumes "\<forall>sz\<in>set (asked cs). even (unat sz)"
  obtains cb bs where "run_calls cb_allocate cb_free cs (new_copy_buffer, []) = Some (cb, bs)" "cb_inv cb (cba.spans bs)"
  using cba.run_total[of new_copy_buffer "[]" cs] assms cb_new_inv by (auto simp: cba.spans_def)

lemma segment_fits: "cb_inv cb [] \<Longrightarrow> unat sz \<le> FRONTEND_SEGMENT_SIZE \<Longrightarrow> fst (cb_allocate sz cb) \<noteq> None"
  using cb_empty_available[of cb] cb_allocate_none[of sz cb]
  by (simp add: size_const FRONTEND_SEGMENT_SIZE_def word_less_nat_alt)

text \<open>
  C18: Whatever a client asks of the copy buffer and in whatever order it gives back its oldest range,
  as long as the sizes are even: no assert fails, the ranges it holds lie inside the
  \<open>SHM_COPY_BUFFER_SIZE\<close> bytes that may be used and no two of them overlap; and whenever it
  holds nothing, a whole segment can be had, wherever the buffer has wrapped to.
\<close>

theorem copy_buffer_safe:
  assumes "\<forall>sz\<in>set (asked cs). even (unat sz)"
  shows "\<exists>cb bs. run_calls cb_allocate cb_free cs (new_copy_buffer, []) = Some (cb, bs)
    \<and> sorted_wrt (\<lambda>(p, n) (q, m). unat p + unat n \<le> unat q \<or> unat q + unat m \<le> unat p) bs
    \<and> (\<forall>(p, n)\<in>set bs. unat p + unat n \<le> SHM_COPY_BUFFER_SIZE)
    \<and> (bs = [] \<longrightarrow> (\<forall>sz. unat sz \<le> FRONTEND_SEGMENT_SIZE \<longrightarrow> fst (cb_allocate sz cb) \<noteq> None))"
proof -
  obtain cb bs where r: "run_calls cb_allocate cb_free cs (new_copy_buffer, []) = Some (cb, bs)"
    "cb_inv cb (cba.spans bs)"
    using run_copy_buffer[OF assms] .
  have "sorted_wrt (\<lambda>(p, n) (q, m). unat p + unat n \<le> unat q \<or> unat q + unat m \<le> unat p) bs"
    using cb_inv_apart[OF r(2)] by (simp add: cba.spans_def sorted_wrt_map apart_def split_beta')
  moreover have "\<forall>(p, n)\<in>set bs. unat p + unat n \<le> SHM_COPY_BUFFER_SIZE"
    using cb_inv_range[OF r(2)] by (force simp: cba.spans_def)
  moreover have "bs = [] \<longrightarrow> (\<forall>sz. unat sz \<le> FRONTEND_SEGMENT_SIZE \<longrightarrow> fst (cb_allocate sz cb) \<noteq> None)"
    using segment_fits r(2) by (auto simp: cba.spans_def)
  ultimately show ?thesis using r(1) by blast
qed

theorem copy_buffer_safe_witness:
  "run_calls cb_allocate cb_free [Allocate 6291456, Allocate 2, Give_back, Allocate 4194304] (new_copy_buffer, [])
    = Some (\<lparr>cb_head = 4194304, cb_tail = 6291456\<rparr>, [(6291456, 2), (0, 4194304)])"
  using copy_buffer_safe[of "[Allocate 6291456, Allocate 2, Give_back, Allocate 4194304]"]
  by (simp add: cb_allocate_def cb_free_def cb_available_def new_copy_buffer_def size_const)

lemma run_calls_append:
  "run_calls alloc give_back (cs @ ds) st = (case run_calls alloc give_back cs st of None \<Rightarrow> None | Some st' \<Rightarrow> run_calls alloc give_back ds st')"
  by (induction alloc give_back cs st rule: run_calls.induct) (auto split: option.splits list.splits prod.splits)

text \<open>With \<open>head\<close> at 0 and \<open>tail\<close> further on, ranges are given back without an assert failing until \<open>tail\<close> is where they end.\<close>

lemma give_back_straight:
  assumes "chain t (cba.spans bs) h" "h \<le> SHM_COPY_BUFFER_SIZE" "0 < t"
  shows "run_calls cb_allocate cb_free (replicate (length bs) Give_back) (\<lparr>cb_head = 0, cb_tail = of_nat t\<rparr>, bs @ cs)
    = Some (\<lparr>cb_head = 0, cb_tail = of_nat h\<rparr>, cs)"
  using assms
proof (induction bs arbitrary: t)
  case Nil
  then show ?case by (simp add: cba.spans_def)
next
  case (Cons b bs)
  obtain p s where b: "b = (p, s)" by fastforce
  have c: "chain (t + unat s) (cba.spans bs) h" using Cons.prems(1) by (simp add: b cba.spans_def)
  have le: "t + unat s \<le> SHM_COPY_BUFFER_SIZE" using chain_le[OF c] Cons.prems(2) by simp
  have t: "unat (of_nat t :: u32) = t" using le by (intro unat_of_nat_small) (simp add: size_const)
  have ts: "unat (of_nat (t + unat s) :: u32) = t + unat s" using le by (intro unat_of_nat_small) (simp add: size_const)
  have "of_nat t + s = (of_nat (t + unat s) :: u32)" by simp
  then have "cb_free s \<lparr>cb_head = 0, cb_tail = of_nat t\<rparr> = Some \<lparr>cb_head = 0, cb_tail = of_nat (t + unat s)\<rparr>"
    using le Cons.prems(3) by (simp add: cb_free_def word_le_nat_alt word_less_nat_alt unat_size ts t del: of_nat_add)
  with Cons.IH[OF c Cons.prems(2)] Cons.prems(3) show ?case by (simp add: b del: of_nat_add)
qed

text \<open>
  C40: The even sizes of the previous property are needed: in any state even sizes lead to, a request that is granted and
  would end one byte past the usable bytes - its size is then odd - is the ruin of the buffer: \<open>fifo_allocate\<close> moves
  \<open>head\<close> to 0, and although everything older can still be given back in order, the \<open>fifo_free\<close> of that range fails its assert.
\<close>

theorem copy_buffer_odd_aborts:
  assumes "\<forall>x\<in>set (asked cs). even (unat x)"
    and "run_calls cb_allocate cb_free cs (new_copy_buffer, []) = Some (cb, bs)"
    and "fst (cb_allocate sz cb) \<noteq> None" and "unat (cb_head cb) + unat sz = SHM_COPY_BUFFER_SIZE + 1"
  shows "odd (unat sz)
    \<and> run_calls cb_allocate cb_free (cs @ Allocate sz # replicate (length bs) Give_back) (new_copy_buffer, []) \<noteq> None
    \<and> run_calls cb_allocate cb_free (cs @ Allocate sz # replicate (Suc (length bs)) Give_back) (new_copy_buffer, []) = None"
proof -
  have inv: "cb_inv cb (cba.spans bs)"
    using run_copy_buffer[OF assms(1)] assms(2) by (metis option.inject prod.inject)
  note B = cb_inv_bounds[OF inv]
  have fit: "unat sz \<le> unat (cb_available cb)" using assms(3) by (simp add: cb_allocate_none word_less_nat_alt)
  show ?thesis
    using inv
  proof (cases rule: cb_inv_cases)
    case straight
    have ev: "even (unat (cb_head cb))" using chain_even[OF straight(1,3,4)] .
    have "cb_tail cb \<noteq> 0" using fit cb_available_nat[OF B] assms(4) B(1) by auto
    then have t: "0 < unat (cb_tail cb)" by (simp add: unat_gt_0)
    have h: "0 < unat (cb_head cb)" "0 < unat sz" using chain_le[OF straight(1)] t assms(4) B by simp_all
    have sum: "unat (cb_head cb + sz) = unat (cb_head cb) + unat sz" using assms(4) by (intro unat_add_u32) (simp add: size_const)
    have "cb_head cb + sz = of_nat SHM_COPY_BUFFER_SIZE + 1"
      using sum assms(4) unat_size(2) by (simp add: word_unat_eq_iff)
    then have al: "cb_allocate sz cb = (Some (cb_head cb), \<lparr>cb_head = 0, cb_tail = cb_tail cb\<rparr>)"
      using assms(3) by (auto simp: cb_allocate_def Let_def split: if_splits)
    let ?g = "\<lambda>k. run_calls cb_allocate cb_free (replicate k Give_back) (\<lparr>cb_head = 0, cb_tail = cb_tail cb\<rparr>, bs @ [(cb_head cb, sz)])"
    have run: "run_calls cb_allocate cb_free (cs @ Allocate sz # replicate k Give_back) (new_copy_buffer, []) = ?g k" for k
      using assms(2) al by (simp add: run_calls_append)
    have g: "?g (length bs) = Some (\<lparr>cb_head = 0, cb_tail = cb_head cb\<rparr>, [(cb_head cb, sz)])"
      using give_back_straight[OF straight(1,2) t, of "[(cb_head cb, sz)]"] by simp
    have last: "?g (Suc (length bs)) = run_calls cb_allocate cb_free [Give_back] (\<lparr>cb_head = 0, cb_tail = cb_head cb\<rparr>, [(cb_head cb, sz)])"
      using run_calls_append[of cb_allocate cb_free "replicate (length bs) Give_back" "[Give_back]"] g by (simp add: replicate_append_same[symmetric])
    have "cb_free sz \<lparr>cb_head = 0, cb_tail = cb_head cb\<rparr> = None"
      using h sum assms(4) unat_size(1) by (auto simp: cb_free_def word_le_nat_alt word_less_nat_alt)
    then have none: "?g (Suc (length bs)) = None" unfolding last by simp
    have "odd (unat sz)" using ev assms(4) by (metis even_add even_plus_one_iff size_const even_numeral)
    then show ?thesis unfolding run none g by simp
  next
    case (wrapped xs s ys e)
    then show ?thesis using fit cb_available_nat[OF B] assms(4) B by (auto split: if_splits)
  qed
qed

definition odd_calls :: "alloc_call list" where
  "odd_calls = [Allocate 2, Give_back, Allocate 2097152, Allocate 2097152, Allocate 2097152]"

theorem copy_buffer_odd_aborts_witness:
  "list_all (\<lambda>sz. unat sz \<le> FRONTEND_SEGMENT_SIZE) (asked (odd_calls @ [Allocate 2097151]))
   \<and> run_calls cb_allocate cb_free (odd_calls @ [Allocate 2097151, Give_back, Give_back, Give_back]) (new_copy_buffer, []) \<noteq> None
   \<and> run_calls cb_allocate cb_free (odd_calls @ [Allocate 2097151, Give_back, Give_back, Give_back, Give_back]) (new_copy_buffer, []) = None"
proof -
  have run: "run_calls cb_allocate cb_free odd_calls (new_copy_buffer, [])
    = Some (\<lparr>cb_head = 6291458, cb_tail = 2\<rparr>, [(2, 2097152), (2097154, 2097152), (4194306, 2097152)])"
    by (simp add: odd_calls_def cb_allocate_def cb_free_def cb_available_def new_copy_buffer_def size_const)
  have "\<forall>x\<in>set (asked odd_calls). even (unat x)" by (simp add: odd_calls_def)
  moreover have "fst (cb_allocate 2097151 \<lparr>cb_head = 6291458, cb_tail = 2\<rparr>) \<noteq> None"
    by (simp add: cb_allocate_none cb_available_def size_const)
  moreover have "unat (cb_head \<lparr>cb_head = 6291458, cb_tail = 2\<rparr>) + unat (2097151 :: u32) = SHM_COPY_BUFFER_SIZE + 1"
    by (simp add: size_const)
  ultimately have "run_calls cb_allocate cb_free (odd_calls @ [Allocate 2097151, Give_back, Give_back, Give_back]) (new_copy_buffer, []) \<noteq> None"
    "run_calls cb_allocate cb_free (odd_calls @ [Allocate 2097151, Give_back, Give_back, Give_back, Give_back]) (new_copy_buffer, []) = None"
    using copy_buffer_odd_aborts[OF _ run, of 2097151] by simp_all
  moreover have "list_all (\<lambda>sz. unat sz \<le> FRONTEND_SEGMENT_SIZE) (asked (odd_calls @ [Allocate 2097151]))"
    by (simp add: odd_calls_def FRONTEND_SEGMENT_SIZE_def)
  ultimately show ?thesis by blast
qed

end
