(* ===== verification/Frontend.thy ===== *)
theory Frontend
  imports CopyBuffer QueuePair
begin

text \<open>
  The C++ part of the frontend (\<open>server/frontend/src/c/api.cpp\<close>, \<open>daemon.cpp\<close>). The Python thread
  cuts a collective into segments and hands one record per segment (\<open>op_with_fut_t\<close>) to the daemon
  thread over the queue pair \<open>py_qp\<close>; the daemon copies the bytes between the device and the shared
  memory and passes the operation to the backend, and back, over the queue pair of the shared
  memory.

  CUDA is not code of the repository. The calls made to it are values of \<open>cuda_call\<close>, recorded in
  \<open>fe_log\<close> in the order they are made; what it answers is a parameter: \<open>event_create\<close> is the event
  \<open>cudaEventCreate\<close> gives after the calls so far, and the operations that ask \<open>cudaEventQuery\<close> take
  its answer at that time (\<open>ready\<close>) as an argument. \<open>CUDA_CHECK\<close> prints an error and goes on, so no call
  has a failure branch.
\<close>

subsection \<open>State\<close>

datatype copy_kind = HostToDevice | DeviceToHost

datatype cuda_call =
    EventCreate nat
  | EventDestroy nat
  | EventRecord nat nat
  | StreamWaitEvent nat nat
  | MemcpyAsync u64 u64 u32 copy_kind nat
  | MarkCompleted ptr

record fe_env =
  event_create :: "cuda_call list \<Rightarrow> nat"
  copy_base :: u64
  h2d_stream :: nat
  d2h_stream :: nat

text \<open>\<open>wf_op\<close> is a position of \<open>op_buffer\<close>. A future is named by the record it was made for.\<close>

record op_with_fut_t =
  copying :: bool
  wf_data :: u64
  wf_stream :: nat
  is_first :: bool
  is_last :: bool
  wf_event :: nat
  fut_wrapper :: "ptr option"
  wf_op :: nat

text \<open>
  The shared memory (\<open>shm_t\<close>), \<open>py_qp\<close>, the \<open>op_with_fut_t\<close> objects on the heap with the address
  of the next one, and the calls made to CUDA.
\<close>

record ('p, 'o) frontend =
  copy_buf :: copy_buffer
  op_buf :: op_buffer
  op_mem :: "nat \<Rightarrow> op_t"
  be_qp :: "'o queue_pair"
  py_qp :: "'p queue_pair"
  fe_heap :: "ptr \<rightharpoonup> op_with_fut_t"
  fe_next :: ptr
  fe_log :: "cuda_call list"

definition fe_call :: "cuda_call \<Rightarrow> ('p, 'o) frontend \<Rightarrow> ('p, 'o) frontend" where
  "fe_call c fe = fe\<lparr>fe_log := fe_log fe @ [c]\<rparr>"

subsection \<open>The Python thread\<close>

text \<open>The arguments of \<open>post_sub_collective\<close> and \<open>create_op\<close>.\<close>

record post_args =
  pa_code :: u8
  pa_root :: u8
  pa_data :: u64
  pa_size :: u32
  pa_group :: group_t
  pa_stream :: nat
  pa_first :: bool
  pa_last :: bool
  pa_future :: bool

definition create_op :: "fe_env \<Rightarrow> post_args \<Rightarrow> ('p, 'o) frontend \<Rightarrow> (ptr \<times> ('p, 'o) frontend) option" where
  "create_op E a fe = do {
     let p = fe_next fe;
     let (op, ob) = ob_allocate (op_buf fe);
     c_assert (op \<noteq> None);
     let (buf, cb) = cb_allocate (pa_size a) (copy_buf fe);
     c_assert (buf \<noteq> None);
     let fut = (if pa_future a then Some p else None);
     let event = event_create E (fe_log fe);
     let i = unat (the op);
     let rec = \<lparr>op_code = pa_code a, op_root = pa_root a, op_size = pa_size a,
       shm_buffer = copy_base E + ucast (the buf), op_group = pa_group a, op_with_fut = p\<rparr>;
     let w = \<lparr>copying = False, wf_data = pa_data a, wf_stream = pa_stream a, is_first = pa_first a,
       is_last = pa_last a, wf_event = event, fut_wrapper = fut, wf_op = i\<rparr>;
     Some (p, fe_call (EventCreate event)
       (fe\<lparr>op_buf := ob, copy_buf := cb, op_mem := (op_mem fe)(i := rec),
          fe_heap := (fe_heap fe)(p \<mapsto> w), fe_next := p + 1\<rparr>))
   }"

definition destroy_op :: "ptr \<Rightarrow> ('p, 'o) frontend \<Rightarrow> ('p, 'o) frontend option" where
  "destroy_op p fe = do {
     w \<leftarrow> fe_heap fe p;
     cb \<leftarrow> cb_free (op_size (op_mem fe (wf_op w))) (copy_buf fe);
     ob \<leftarrow> ob_free (op_buf fe);
     Some (fe_call (EventDestroy (wf_event w))
       (fe\<lparr>copy_buf := cb, op_buf := ob, fe_heap := (fe_heap fe)(p := None)\<rparr>))
   }"

partial_function (option) recv_all_resp :: "('p, ptr) spsc_ops \<Rightarrow> ('p, 'o) frontend \<Rightarrow> ('p, 'o) frontend option" where
  "recv_all_resp P fe =
     (case front_resp P (py_qp fe) of
        None \<Rightarrow> Some fe
      | Some p \<Rightarrow> do {
          fe \<leftarrow> destroy_op p fe;
          qp \<leftarrow> pop_resp P (py_qp fe);
          recv_all_resp P (fe\<lparr>py_qp := qp\<rparr>)
        })"

text \<open>
  One turn of the loop of \<open>post_sub_collective\<close>: false when the memory is not available and the
  thread yields, else true and the future, when one was asked for.
\<close>

definition post_sub_collective :: "('p, ptr) spsc_ops \<Rightarrow> fe_env \<Rightarrow> post_args \<Rightarrow> ('p, 'o) frontend
    \<Rightarrow> (bool \<times> ptr option \<times> ('p, 'o) frontend) option" where
  "post_sub_collective P E a fe = do {
     fe \<leftarrow> recv_all_resp P fe;
     if 0 < ob_available (op_buf fe) \<and> pa_size a \<le> cb_available (copy_buf fe) then do {
       (p, fe) \<leftarrow> create_op E a fe;
       (ret, qp) \<leftarrow> push_req P QUEUE_SIZE p (py_qp fe);
       c_assert ret;
       w \<leftarrow> fe_heap fe p;
       Some (True, fut_wrapper w, fe\<lparr>py_qp := qp\<rparr>)
     } else Some (False, None, fe)
   }"

text \<open>
  The segments \<open>post_collective_c\<close> posts, one after the other. \<open>r\<close> holds the arguments that do
  not change; its \<open>pa_data\<close> is the tensor's address.
\<close>

partial_function (option) segment_loop :: "post_args \<Rightarrow> u64 \<Rightarrow> bool \<Rightarrow> u64 \<Rightarrow> post_args list option" where
  "segment_loop r sz async offset =
     (let last = (sz - offset \<le> of_nat FRONTEND_SEGMENT_SIZE);
          seg = r\<lparr>pa_data := pa_data r + offset,
            pa_size := (if last then ucast (sz - offset) else of_nat FRONTEND_SEGMENT_SIZE),
            pa_first := (offset = 0), pa_last := last, pa_future := (if last then async else False)\<rparr>;
          offset = offset + of_nat FRONTEND_SEGMENT_SIZE
      in if \<not> offset < sz then Some [seg]
         else do { segs \<leftarrow> segment_loop r sz async offset; Some (seg # segs) })"

definition post_collective_segments :: "post_args \<Rightarrow> u64 \<Rightarrow> bool \<Rightarrow> post_args list option" where
  "post_collective_segments r sz async = segment_loop r sz async 0"

text \<open>One turn of the loop that ends \<open>post_collective_c\<close>: true when it returns.\<close>

definition wait_collective :: "('p, ptr) spsc_ops \<Rightarrow> ('p, 'o) frontend \<Rightarrow> (bool \<times> ('p, 'o) frontend) option" where
  "wait_collective P fe = do {
     fe \<leftarrow> recv_all_resp P fe;
     Some (ob_available (op_buf fe) = of_nat QUEUE_SIZE, fe)
   }"

subsection \<open>The daemon thread\<close>

text \<open>
  Both operations return whether they did something. \<open>set_copying\<close> writes the flag of the record
  at \<open>p\<close>.
\<close>

definition set_copying :: "ptr \<Rightarrow> op_with_fut_t \<Rightarrow> bool \<Rightarrow> ('p, 'o) frontend \<Rightarrow> ('p, 'o) frontend" where
  "set_copying p w b fe = fe\<lparr>fe_heap := (fe_heap fe)(p \<mapsto> w\<lparr>copying := b\<rparr>)\<rparr>"

definition calls_when :: "bool \<Rightarrow> cuda_call list \<Rightarrow> ('p, 'o) frontend \<Rightarrow> ('p, 'o) frontend" where
  "calls_when b cs fe = (if b then fold fe_call cs fe else fe)"

definition fe_complete_op :: "('p, ptr) spsc_ops \<Rightarrow> ('o, ptr) spsc_ops \<Rightarrow> fe_env \<Rightarrow> (nat \<Rightarrow> bool)
    \<Rightarrow> ('p, 'o) frontend \<Rightarrow> (bool \<times> ('p, 'o) frontend) option" where
  "fe_complete_op P Q E ready fe =
     (case front_resp Q (be_qp fe) of
        None \<Rightarrow> Some (False, fe)
      | Some i \<Rightarrow> do {
          let op = op_mem fe i;
          let p = op_with_fut op;
          w \<leftarrow> fe_heap fe p;
          if need_rx op \<and> \<not> copying w then do {
            let fe = set_copying p w True fe;
            let fe = calls_when (is_first w \<and> \<not> need_tx op)
              [EventRecord (wf_event w) (wf_stream w), StreamWaitEvent (h2d_stream E) (wf_event w)] fe;
            let fe = calls_when (op_size op \<noteq> 0)
              [MemcpyAsync (wf_data w) (shm_buffer op) (op_size op) HostToDevice (h2d_stream E),
               EventRecord (wf_event w) (h2d_stream E)] fe;
            let fe = calls_when (is_last w) [StreamWaitEvent (wf_stream w) (wf_event w)] fe;
            Some (True, fe)
          }
          else if need_rx op \<and> \<not> ready (wf_event w) then Some (False, fe)
          else do {
            let fe = (if need_rx op then set_copying p w False fe else fe);
            let fe = (case fut_wrapper w of None \<Rightarrow> fe | Some f \<Rightarrow> fe_call (MarkCompleted f) fe);
            bq \<leftarrow> pop_resp Q (be_qp fe);
            (ret, pq) \<leftarrow> push_resp P p (py_qp fe);
            c_assert ret;
            Some (True, fe\<lparr>be_qp := bq, py_qp := pq\<rparr>)
          }
        })"

definition fe_post_op :: "('p, ptr) spsc_ops \<Rightarrow> ('o, ptr) spsc_ops \<Rightarrow> fe_env \<Rightarrow> (nat \<Rightarrow> bool)
    \<Rightarrow> ('p, 'o) frontend \<Rightarrow> (bool \<times> ('p, 'o) frontend) option" where
  "fe_post_op P Q E ready fe =
     (case front_req P (py_qp fe) of
        None \<Rightarrow> Some (False, fe)
      | Some p \<Rightarrow> do {
          w \<leftarrow> fe_heap fe p;
          let op = op_mem fe (wf_op w);
          if need_tx op \<and> \<not> copying w then do {
            let fe = set_copying p w True fe;
            let fe = calls_when (is_first w)
              [EventRecord (wf_event w) (wf_stream w), StreamWaitEvent (d2h_stream E) (wf_event w)] fe;
            let fe = calls_when (op_size op \<noteq> 0)
              [MemcpyAsync (shm_buffer op) (wf_data w) (op_size op) DeviceToHost (d2h_stream E),
               EventRecord (wf_event w) (d2h_stream E)] fe;
            let fe = calls_when (is_last w \<and> \<not> need_rx op) [StreamWaitEvent (wf_stream w) (wf_event w)] fe;
            Some (True, fe)
          }
          else if need_tx op \<and> \<not> ready (wf_event w) then Some (False, fe)
          else do {
            let fe = (if need_tx op then set_copying p w False fe else fe);
            pq \<leftarrow> pop_req P (py_qp fe);
            (ret, bq) \<leftarrow> push_req Q QUEUE_SIZE (wf_op w) (be_qp fe);
            c_assert ret;
            Some (True, fe\<lparr>py_qp := pq, be_qp := bq\<rparr>)
          }
        })"

text \<open>One turn of \<open>daemon_loop\<close>: true when either operation did something, else the thread yields.\<close>

definition daemon_turn :: "('p, ptr) spsc_ops \<Rightarrow> ('o, ptr) spsc_ops \<Rightarrow> fe_env \<Rightarrow> (nat \<Rightarrow> bool) \<Rightarrow> (nat \<Rightarrow> bool)
    \<Rightarrow> ('p, 'o) frontend \<Rightarrow> (bool \<times> ('p, 'o) frontend) option" where
  "daemon_turn P Q E ready ready' fe = do {
     (c, fe) \<leftarrow> fe_complete_op P Q E ready fe;
     (t, fe) \<leftarrow> fe_post_op P Q E ready' fe;
     Some (c \<or> t, fe)
   }"

text \<open>One turn of \<open>test_loop\<close>, which stands in for the backend and answers at once.\<close>

definition test_turn :: "('o, ptr) spsc_ops \<Rightarrow> ('p, 'o) frontend \<Rightarrow> ('p, 'o) frontend option" where
  "test_turn Q fe =
     (case front_req Q (be_qp fe) of
        None \<Rightarrow> Some fe
      | Some i \<Rightarrow> do {
          bq \<leftarrow> pop_req Q (be_qp fe);
          (_, bq) \<leftarrow> push_resp Q i bq;
          Some (fe\<lparr>be_qp := bq\<rparr>)
        })"

definition new_frontend :: "'p \<Rightarrow> 'o \<Rightarrow> (nat \<Rightarrow> op_t) \<Rightarrow> ('p, 'o) frontend" where
  "new_frontend p q m = \<lparr>copy_buf = new_copy_buffer, op_buf = new_op_buffer, op_mem = m,
     be_qp = empty_pair q, py_qp = empty_pair p, fe_heap = Map.empty, fe_next = 0, fe_log = []\<rparr>"

end
