(* ===== verification/FrontendSystem.thy ===== *)
theory FrontendSystem
  imports Frontend
begin

text \<open>
  The frontend at work: the Python thread runs one collective after another, the daemon thread
  turns, and the backend takes operations from the shared memory and answers them in order. A step
  is one turn of a loop of one of them; the two threads of the frontend share only the queue pair
  \<open>py_qp\<close> and the records handed over on it. A collective may have any number of bytes; what is shown of a run
  asks that they are even (\<open>even_sizes\<close>: the copy buffer needs it, see \<open>CopyBuffer\<close>; tensors of 32 bit elements are).

  \<open>todo\<close> are the segments of the running collective that are not posted, \<open>busy\<close> says that
  \<open>post_collective_c\<close> has not returned, \<open>be_held\<close> is what the backend has taken and not
  answered; \<open>given\<close> and \<open>created\<close> record the segments of all collectives and the operations made
  for them.
\<close>

subsection \<open>Steps\<close>

record ('p, 'o) fe_sys =
  fe :: "('p, 'o) frontend"
  be_held :: "nat list"
  todo :: "post_args list"
  busy :: bool
  given :: "post_args list"
  created :: "(op_t \<times> op_with_fut_t) list"

definition last_created :: "('p, 'o) frontend \<Rightarrow> op_t \<times> op_with_fut_t" where
  "last_created f = (let w = the (fe_heap f (fe_next f - 1)) in (op_mem f (wf_op w), w))"

definition fe_init :: "'p \<Rightarrow> 'o \<Rightarrow> (nat \<Rightarrow> op_t) \<Rightarrow> ('p, 'o) fe_sys" where
  "fe_init p q m = \<lparr>fe = new_frontend p q m, be_held = [], todo = [], busy = False, given = [], created = []\<rparr>"

inductive fe_step :: "('p, ptr) spsc_ops \<Rightarrow> ('o, ptr) spsc_ops \<Rightarrow> fe_env
    \<Rightarrow> ('p, 'o) fe_sys \<Rightarrow> ('p, 'o) fe_sys \<Rightarrow> bool"
  for P :: "('p, ptr) spsc_ops" and Q :: "('o, ptr) spsc_ops" and E :: fe_env where
  collective: "\<not> busy s \<Longrightarrow> post_collective_segments r sz async = Some segs \<Longrightarrow>
    fe_step P Q E s (s\<lparr>todo := segs, busy := True, given := given s @ segs\<rparr>)"
| post: "busy s \<Longrightarrow> todo s = a # as \<Longrightarrow> post_sub_collective P E a (fe s) = Some (b, fut, f) \<Longrightarrow>
    fe_step P Q E s (s\<lparr>fe := f, todo := (if b then as else a # as),
      created := created s @ (if b then [last_created f] else [])\<rparr>)"
| wait: "busy s \<Longrightarrow> todo s = [] \<Longrightarrow> wait_collective P (fe s) = Some (b, f) \<Longrightarrow>
    fe_step P Q E s (s\<lparr>fe := f, busy := \<not> b\<rparr>)"
| complete: "fe_complete_op P Q E ready (fe s) = Some (b, f) \<Longrightarrow> fe_step P Q E s (s\<lparr>fe := f\<rparr>)"
| submit: "fe_post_op P Q E ready (fe s) = Some (b, f) \<Longrightarrow> fe_step P Q E s (s\<lparr>fe := f\<rparr>)"
| be_take: "front_req Q (be_qp (fe s)) = Some i \<Longrightarrow> pop_req Q (be_qp (fe s)) = Some qp \<Longrightarrow>
    fe_step P Q E s (s\<lparr>fe := (fe s)\<lparr>be_qp := qp\<rparr>, be_held := be_held s @ [i]\<rparr>)"
| be_answer: "be_held s = i # is \<Longrightarrow> push_resp Q i (be_qp (fe s)) = Some (b, qp) \<Longrightarrow>
    fe_step P Q E s (s\<lparr>fe := (fe s)\<lparr>be_qp := qp\<rparr>, be_held := is\<rparr>)"

inductive fe_reach :: "('p, ptr) spsc_ops \<Rightarrow> ('o, ptr) spsc_ops \<Rightarrow> fe_env \<Rightarrow> ('p, 'o) fe_sys \<Rightarrow> ('p, 'o) fe_sys \<Rightarrow> bool"
  for P :: "('p, ptr) spsc_ops" and Q :: "('o, ptr) spsc_ops" and E :: fe_env and s0 :: "('p, 'o) fe_sys" where
  init: "fe_reach P Q E s0 s0"
| step: "fe_reach P Q E s0 s \<Longrightarrow> fe_step P Q E s t \<Longrightarrow> fe_reach P Q E s0 t"

subsection \<open>Segments\<close>

definition even_sizes :: "post_args list \<Rightarrow> bool" where
  "even_sizes as \<longleftrightarrow> (\<forall>a\<in>set as. even (unat (pa_size a)))"

lemma even_sizes_mono: "even_sizes bs \<Longrightarrow> set as \<subseteq> set bs \<Longrightarrow> even_sizes as"
  unfolding even_sizes_def by blast

lemma fe_step_given: "fe_step P Q E s t \<Longrightarrow> set (given s) \<subseteq> set (given t)"
  by (cases rule: fe_step.cases) auto

definition fits :: "post_args \<Rightarrow> bool" where
  "fits a \<longleftrightarrow> even (unat (pa_size a)) \<and> unat (pa_size a) \<le> FRONTEND_SEGMENT_SIZE"

lemma segment_const: "FRONTEND_SEGMENT_SIZE = 2097152"
  by (simp add: FRONTEND_SEGMENT_SIZE_def)

lemma seg_unat: "unat (of_nat FRONTEND_SEGMENT_SIZE :: u64) = FRONTEND_SEGMENT_SIZE"
  "unat (of_nat FRONTEND_SEGMENT_SIZE :: u32) = FRONTEND_SEGMENT_SIZE"
  by (simp_all add: segment_const)

lemma even_unat [simp]: "even (unat x) \<longleftrightarrow> even x" for x :: "'a::len word"
  by transfer (simp add: even_nat_iff)

lemma last_size:
  fixes x :: u64
  assumes "x \<le> of_nat FRONTEND_SEGMENT_SIZE"
  shows "unat (ucast x :: u32) = unat x"
  using assms by (simp add: word_le_nat_alt segment_const unsigned_ucast_eq take_bit_nat_eq_self)

lemma segment_size:
  "unat (pa_size (r\<lparr>pa_data := d, pa_size := (if x \<le> of_nat FRONTEND_SEGMENT_SIZE then ucast x else of_nat FRONTEND_SEGMENT_SIZE),
     pa_first := f, pa_last := l, pa_future := g\<rparr>)) \<le> FRONTEND_SEGMENT_SIZE" for x :: u64
  using last_size[of x] by (simp add: word_le_nat_alt seg_unat)

lemma segment_loop_bounded:
  assumes "segment_loop r sz async offset = Some segs"
  shows "\<forall>a\<in>set segs. unat (pa_size a) \<le> FRONTEND_SEGMENT_SIZE"
proof (rule segment_loop.raw_induct[where P = "\<lambda>r sz async offset segs. \<forall>a\<in>set segs. unat (pa_size a) \<le> FRONTEND_SEGMENT_SIZE", OF _ assms])
  fix rec :: "post_args \<Rightarrow> u64 \<Rightarrow> bool \<Rightarrow> u64 \<Rightarrow> post_args list option" and r sz async and offset :: u64 and segs
  let ?o = "offset + of_nat FRONTEND_SEGMENT_SIZE"
  assume ih: "\<And>r sz async offset segs. rec r sz async offset = Some segs \<Longrightarrow> \<forall>a\<in>set segs. unat (pa_size a) \<le> FRONTEND_SEGMENT_SIZE"
    and eq: "(let last = (sz - offset \<le> of_nat FRONTEND_SEGMENT_SIZE);
        seg = r\<lparr>pa_data := pa_data r + offset,
          pa_size := (if last then ucast (sz - offset) else of_nat FRONTEND_SEGMENT_SIZE),
          pa_first := (offset = 0), pa_last := last, pa_future := (if last then async else False)\<rparr>;
        offset = offset + of_nat FRONTEND_SEGMENT_SIZE
    in if \<not> offset < sz then Some [seg]
       else do { segs \<leftarrow> rec r sz async offset; Some (seg # segs) }) = Some segs"
  obtain seg segs' where s: "segs = seg # segs'" "segs' = [] \<or> rec r sz async ?o = Some segs'" "unat (pa_size seg) \<le> FRONTEND_SEGMENT_SIZE"
    using eq unfolding Let_def by (split if_split_asm) (auto simp: bind_eq_Some_conv intro: segment_size)
  with ih[of r sz async ?o segs'] show "\<forall>a\<in>set segs. unat (pa_size a) \<le> FRONTEND_SEGMENT_SIZE" by auto
qed

text \<open>The segments, written out.\<close>

definition segment_count :: "nat \<Rightarrow> nat" where
  "segment_count n = max 1 ((n + FRONTEND_SEGMENT_SIZE - 1) div FRONTEND_SEGMENT_SIZE)"

definition segment_at :: "post_args \<Rightarrow> nat \<Rightarrow> bool \<Rightarrow> nat \<Rightarrow> post_args" where
  "segment_at r n async i = (let last = (Suc i = segment_count n) in
     r\<lparr>pa_data := pa_data r + of_nat (i * FRONTEND_SEGMENT_SIZE),
       pa_size := of_nat (if last then n - i * FRONTEND_SEGMENT_SIZE else FRONTEND_SEGMENT_SIZE),
       pa_first := (i = 0), pa_last := last, pa_future := (last \<and> async)\<rparr>)"

lemma segment_count_iff: "i < segment_count n \<longleftrightarrow> i = 0 \<or> i * FRONTEND_SEGMENT_SIZE < n"
proof -
  have "i < (n + FRONTEND_SEGMENT_SIZE - 1) div FRONTEND_SEGMENT_SIZE \<longleftrightarrow> i * FRONTEND_SEGMENT_SIZE < n"
    using less_eq_div_iff_mult_less_eq[of FRONTEND_SEGMENT_SIZE "Suc i" "n + FRONTEND_SEGMENT_SIZE - 1"]
    by (simp add: segment_const Suc_le_eq)
  then show ?thesis by (auto simp: segment_count_def less_max_iff_disj)
qed

lemma segment_last_iff:
  assumes "i < segment_count n"
  shows "Suc i = segment_count n \<longleftrightarrow> n \<le> Suc i * FRONTEND_SEGMENT_SIZE"
  using segment_count_iff[of "Suc i" n] assms by auto

lemma segment_loop_eq:
  assumes b: "unat sz + FRONTEND_SEGMENT_SIZE < 2 ^ 64" and i: "i < segment_count (unat sz)"
  shows "segment_loop r sz async (of_nat (i * FRONTEND_SEGMENT_SIZE))
    = Some (map (segment_at r (unat sz) async) [i..<segment_count (unat sz)])"
  using i
proof (induction "segment_count (unat sz) - i" arbitrary: i)
  case (Suc k)
  let ?m = "segment_count (unat sz)" and ?o = "of_nat (i * FRONTEND_SEGMENT_SIZE) :: u64"
  have le: "i * FRONTEND_SEGMENT_SIZE \<le> unat sz" using segment_count_iff[of i "unat sz"] Suc.prems by auto
  then have o: "unat ?o = i * FRONTEND_SEGMENT_SIZE" using b by (intro unat_of_nat_small) simp
  have d: "unat (sz - ?o) = unat sz - i * FRONTEND_SEGMENT_SIZE"
    using le o by (simp add: unat_sub word_le_nat_alt)
  have last: "sz - ?o \<le> of_nat FRONTEND_SEGMENT_SIZE \<longleftrightarrow> Suc i = ?m"
    using d le segment_last_iff[OF Suc.prems] by (auto simp: word_le_nat_alt seg_unat)
  have off: "?o + of_nat FRONTEND_SEGMENT_SIZE = of_nat (Suc i * FRONTEND_SEGMENT_SIZE)" by (simp add: algebra_simps)
  have o': "unat (of_nat (Suc i * FRONTEND_SEGMENT_SIZE) :: u64) = Suc i * FRONTEND_SEGMENT_SIZE"
    using le b by (intro unat_of_nat_small) simp
  have exit: "of_nat (Suc i * FRONTEND_SEGMENT_SIZE) < sz \<longleftrightarrow> Suc i < ?m"
    using o' segment_last_iff[OF Suc.prems] Suc.prems by (auto simp: word_less_nat_alt)
  have first: "?o = 0 \<longleftrightarrow> i = 0" using o by (metis mult_is_0 of_nat_0 segment_const unat_eq_0 zero_neq_numeral)
  have sz: "ucast (sz - ?o) = (of_nat (unat sz - i * FRONTEND_SEGMENT_SIZE) :: u32)"
    by (simp only: d[symmetric] of_nat_unat)
  have seg: "r\<lparr>pa_data := pa_data r + ?o,
      pa_size := (if Suc i = ?m then ucast (sz - ?o) else of_nat FRONTEND_SEGMENT_SIZE),
      pa_first := (?o = 0), pa_last := (Suc i = ?m), pa_future := (if Suc i = ?m then async else False)\<rparr>
    = segment_at r (unat sz) async i"
    by (auto simp add: segment_at_def Let_def first sz simp del: of_nat_mult)
  show ?case
  proof (cases "Suc i < ?m")
    case True
    then have "segment_loop r sz async (of_nat (Suc i * FRONTEND_SEGMENT_SIZE))
        = Some (map (segment_at r (unat sz) async) [Suc i..<?m])"
      using Suc.hyps by (intro Suc.hyps(1)) auto
    with True Suc.prems show ?thesis
      by (subst segment_loop.simps) (simp only: last off exit seg Let_def upt_conv_Cons list.map, simp)
  next
    case False
    with Suc.prems have m: "?m = Suc i" by simp
    show ?thesis
      by (subst segment_loop.simps, simp only: last off exit seg Let_def upt_conv_Cons[OF Suc.prems] list.map)
        (use m in simp)
  qed
qed simp

subsection \<open>The invariant\<close>

text \<open>The copies and the completed future of an operation, as the calls they are made by.\<close>

definition d2h_of :: "fe_env \<Rightarrow> op_t \<times> op_with_fut_t \<Rightarrow> cuda_call list" where
  "d2h_of E = (\<lambda>(op, w). if need_tx op \<and> op_size op \<noteq> 0
     then [MemcpyAsync (shm_buffer op) (wf_data w) (op_size op) DeviceToHost (d2h_stream E)] else [])"

definition h2d_of :: "fe_env \<Rightarrow> op_t \<times> op_with_fut_t \<Rightarrow> cuda_call list" where
  "h2d_of E = (\<lambda>(op, w). if need_rx op \<and> op_size op \<noteq> 0
     then [MemcpyAsync (wf_data w) (shm_buffer op) (op_size op) HostToDevice (h2d_stream E)] else [])"

definition mark_of :: "op_t \<times> op_with_fut_t \<Rightarrow> cuda_call list" where
  "mark_of = (\<lambda>(op, w). case fut_wrapper w of None \<Rightarrow> [] | Some f \<Rightarrow> [MarkCompleted f])"

fun is_d2h :: "cuda_call \<Rightarrow> bool" where
  "is_d2h (MemcpyAsync _ _ _ DeviceToHost _) = True"
| "is_d2h _ = False"

fun is_h2d :: "cuda_call \<Rightarrow> bool" where
  "is_h2d (MemcpyAsync _ _ _ HostToDevice _) = True"
| "is_h2d _ = False"

fun is_mark :: "cuda_call \<Rightarrow> bool" where
  "is_mark (MarkCompleted _) = True"
| "is_mark _ = False"

text \<open>
  Operation \<open>j\<close> is the \<open>j\<close>-th created; its record is at address \<open>j\<close> and it uses entry
  \<open>j mod QUEUE_SIZE\<close>. Those below \<open>a\<close> are destroyed, those below \<open>b\<close> completed, those below \<open>d\<close> with
  the backend or answered by it. \<open>tc\<close> and \<open>rc\<close>: the copy of \<open>d\<close> to the host, of \<open>b\<close> to the device, is under way.
\<close>

definition fe_hist_ok :: "fe_env \<Rightarrow> (op_t \<times> op_with_fut_t) list \<Rightarrow> bool" where
  "fe_hist_ok E h \<longleftrightarrow> (\<forall>j<length h. op_with_fut (fst (h ! j)) = j \<and> wf_op (snd (h ! j)) = j mod QUEUE_SIZE
     \<and> \<not> copying (snd (h ! j)))"

definition range_of :: "fe_env \<Rightarrow> op_t \<times> op_with_fut_t \<Rightarrow> nat \<times> nat" where
  "range_of E x = (unat (shm_buffer (fst x) - copy_base E), unat (op_size (fst x)))"

definition fe_mem_ok :: "fe_env \<Rightarrow> (op_t \<times> op_with_fut_t) list \<Rightarrow> nat \<Rightarrow> ('p, 'o) frontend \<Rightarrow> bool" where
  "fe_mem_ok E h a f \<longleftrightarrow> fe_next f = length h
     \<and> unat (ob_head (op_buf f)) = length h mod QUEUE_SIZE \<and> unat (ob_cnt (op_buf f)) = length h - a
     \<and> a \<le> length h \<and> length h - a \<le> QUEUE_SIZE
     \<and> cb_inv (copy_buf f) (map (range_of E) (drop a h))
     \<and> (\<forall>j. a \<le> j \<and> j < length h \<longrightarrow> op_mem f (j mod QUEUE_SIZE) = fst (h ! j))"

definition live_records :: "(op_t \<times> op_with_fut_t) list \<Rightarrow> nat \<Rightarrow> nat \<Rightarrow> nat \<Rightarrow> bool \<Rightarrow> bool \<Rightarrow> ptr \<rightharpoonup> op_with_fut_t" where
  "live_records h a b d tc rc j = (if a \<le> j \<and> j < length h
     then Some ((snd (h ! j))\<lparr>copying := (tc \<and> j = d) \<or> (rc \<and> j = b)\<rparr>) else None)"

definition fe_log_ok :: "fe_env \<Rightarrow> (op_t \<times> op_with_fut_t) list \<Rightarrow> nat \<Rightarrow> nat \<Rightarrow> bool \<Rightarrow> bool \<Rightarrow> cuda_call list \<Rightarrow> bool" where
  "fe_log_ok E h b d tc rc l \<longleftrightarrow>
     filter is_d2h l = concat (map (d2h_of E) (take (d + (if tc then 1 else 0)) h))
   \<and> filter is_h2d l = concat (map (h2d_of E) (take (b + (if rc then 1 else 0)) h))
   \<and> filter is_mark l = concat (map mark_of (take b h))"

definition fe_queues_ok :: "('p \<Rightarrow> ptr list) \<Rightarrow> ('o \<Rightarrow> ptr list) \<Rightarrow> nat list \<Rightarrow> nat \<Rightarrow> nat \<Rightarrow> nat \<Rightarrow> nat
    \<Rightarrow> ('p, 'o) frontend \<Rightarrow> bool" where
  "fe_queues_ok pcont ocont hd' n a b d f \<longleftrightarrow> a \<le> b \<and> b \<le> d \<and> d \<le> n
     \<and> qp_ok pcont QUEUE_SIZE (d - b) (py_qp f) \<and> qp_ok ocont QUEUE_SIZE (length hd') (be_qp f)
     \<and> pcont (cq (py_qp f)) = [a..<b] \<and> pcont (wq (py_qp f)) = [d..<n]
     \<and> ocont (cq (be_qp f)) @ hd' @ ocont (wq (be_qp f)) = map (\<lambda>j. j mod QUEUE_SIZE) [b..<d]"

definition fe_ok :: "('p \<Rightarrow> ptr list) \<Rightarrow> ('o \<Rightarrow> ptr list) \<Rightarrow> fe_env \<Rightarrow> nat \<Rightarrow> nat \<Rightarrow> nat \<Rightarrow> bool \<Rightarrow> bool
    \<Rightarrow> nat list \<Rightarrow> (op_t \<times> op_with_fut_t) list \<Rightarrow> ('p, 'o) frontend \<Rightarrow> bool" where
  "fe_ok pcont ocont E a b d tc rc hd' h f \<longleftrightarrow> fe_hist_ok E h \<and> fe_mem_ok E h a f
     \<and> fe_queues_ok pcont ocont hd' (length h) a b d f
     \<and> fe_heap f = live_records h a b d tc rc
     \<and> (tc \<longrightarrow> d < length h \<and> need_tx (fst (h ! d)))
     \<and> (rc \<longrightarrow> b < d \<and> need_rx (fst (h ! b)))
     \<and> fe_log_ok E h b d tc rc (fe_log f)"

subsection \<open>Every operation keeps it\<close>

lemma calls_when_eq: "calls_when b cs f = f\<lparr>fe_log := fe_log f @ (if b then cs else [])\<rparr>"
proof -
  have "fold fe_call cs f = f\<lparr>fe_log := fe_log f @ cs\<rparr>"
    by (induction cs arbitrary: f) (auto simp: fe_call_def)
  then show ?thesis by (simp add: calls_when_def)
qed

locale fe_queues = pq: queue_pair_impl P pcont QUEUE_SIZE + oq: queue_pair_impl Q ocont QUEUE_SIZE
  for P :: "('p, ptr) spsc_ops" and pcont :: "'p \<Rightarrow> ptr list" and Q :: "('o, ptr) spsc_ops" and ocont :: "'o \<Rightarrow> ptr list"

lemma QUEUE_SIZE_pos: "0 < QUEUE_SIZE"
  by (simp add: QUEUE_SIZE_def)

lemma live_mod_inj:
  assumes "i mod QUEUE_SIZE = j mod QUEUE_SIZE" "(a::nat) \<le> i" "i < n" "a \<le> j" "j < n" "n - a \<le> QUEUE_SIZE"
  shows "i = j"
proof -
  have "\<bar>int i - int j\<bar> < int QUEUE_SIZE" using assms by linarith
  moreover have "int QUEUE_SIZE dvd int i - int j"
    using assms(1) by (metis mod_eq_dvd_iff of_nat_mod)
  ultimately have "int i - int j = 0" by (metis dvd_imp_le_int abs_of_nat not_le zero_less_abs_iff)
  then show ?thesis by simp
qed

lemma destroy_ok:
  assumes "fe_hist_ok E h" "fe_mem_ok E h a f" "a < length h" "fe_heap f a = Some w" "wf_op w = a mod QUEUE_SIZE"
  obtains cb ob where "destroy_op a f = Some (fe_call (EventDestroy (wf_event w))
      (f\<lparr>copy_buf := cb, op_buf := ob, fe_heap := (fe_heap f)(a := None)\<rparr>))"
    "fe_mem_ok E h (Suc a) (fe_call (EventDestroy (wf_event w))
      (f\<lparr>copy_buf := cb, op_buf := ob, fe_heap := (fe_heap f)(a := None)\<rparr>))"
proof -
  have d: "map (range_of E) (drop a h) = range_of E (h ! a) # map (range_of E) (drop (Suc a) h)"
    using assms(3) by (simp add: Cons_nth_drop_Suc[symmetric])
  have m: "op_mem f (wf_op w) = fst (h ! a)" using assms by (simp add: fe_mem_ok_def)
  have "cb_inv (copy_buf f) ((unat (shm_buffer (fst (h ! a)) - copy_base E), unat (op_size (fst (h ! a)))) # map (range_of E) (drop (Suc a) h))"
    using assms(2) d by (simp add: fe_mem_ok_def range_of_def)
  from cb_free_inv[OF this] obtain cb where cb: "cb_free (op_size (fst (h ! a))) (copy_buf f) = Some cb"
    "cb_inv cb (map (range_of E) (drop (Suc a) h))" by blast
  have c: "0 < unat (ob_cnt (op_buf f))" using assms by (simp add: fe_mem_ok_def)
  then have ob: "ob_free (op_buf f) = Some ((op_buf f)\<lparr>ob_cnt := ob_cnt (op_buf f) - 1\<rparr>)"
    by (auto simp: ob_free_def)
  show ?thesis
    using assms cb ob m unat_dec[OF c]
    by (intro that[of "(op_buf f)\<lparr>ob_cnt := ob_cnt (op_buf f) - 1\<rparr>" cb])
      (auto simp: destroy_op_def fe_mem_ok_def fe_call_def)
qed

context fe_queues begin

abbreviation "fok \<equiv> fe_ok pcont ocont"

lemma recv_all_resp_ok:
  assumes "fok E a b d tc rc hd' h f"
  shows "\<exists>f'. recv_all_resp P f = Some f' \<and> fok E b b d tc rc hd' h f'"
  using assms
proof (induction "b - a" arbitrary: a f)
  case 0
  then have "a = b" by (auto simp: fe_ok_def fe_queues_ok_def)
  moreover have "front_resp P (py_qp f) = None"
    using 0 \<open>a = b\<close> by (auto simp: fe_ok_def fe_queues_ok_def pq.front_resp_eq)
  ultimately show ?case using 0 by (subst recv_all_resp.simps) auto
next
  case (Suc k)
  let ?w = "(snd (h ! a))\<lparr>copying := (tc \<and> a = d) \<or> (rc \<and> a = b)\<rparr>"
  from Suc have ab: "a < b" "b \<le> d" "d \<le> length h" "pcont (cq (py_qp f)) = [a..<b]"
    by (auto simp: fe_ok_def fe_queues_ok_def)
  then have c: "pcont (cq (py_qp f)) = a # [Suc a..<b]" by (simp add: upt_conv_Cons)
  have w: "fe_heap f a = Some ?w" "wf_op ?w = a mod QUEUE_SIZE"
    using Suc.prems ab by (auto simp: fe_ok_def live_records_def fe_hist_ok_def)
  have "fe_hist_ok E h" "fe_mem_ok E h a f" "a < length h" using Suc.prems ab by (auto simp: fe_ok_def)
  from destroy_ok[OF this w] obtain cb ob where
    ds: "destroy_op a f = Some (fe_call (EventDestroy (wf_event ?w)) (f\<lparr>copy_buf := cb, op_buf := ob, fe_heap := (fe_heap f)(a := None)\<rparr>))"
    and m: "fe_mem_ok E h (Suc a) (fe_call (EventDestroy (wf_event ?w)) (f\<lparr>copy_buf := cb, op_buf := ob, fe_heap := (fe_heap f)(a := None)\<rparr>))"
    (is "fe_mem_ok E h _ ?f1") by blast
  have "qp_ok pcont QUEUE_SIZE (d - b) (py_qp f)" using Suc.prems by (simp add: fe_ok_def fe_queues_ok_def)
  from pq.pop_resp_cons[OF this c] obtain qp where qp: "pop_resp P (py_qp f) = Some qp" "qp_ok pcont QUEUE_SIZE (d - b) qp"
    "pcont (cq qp) = [Suc a..<b]" "wq qp = wq (py_qp f)" .
  let ?f2 = "?f1\<lparr>py_qp := qp\<rparr>"
  have "fok E (Suc a) b d tc rc hd' h ?f2"
    using Suc.prems m qp ab
    by (auto simp: fe_ok_def fe_queues_ok_def fe_call_def fe_log_ok_def live_records_def fe_mem_ok_def)
  moreover have "k = b - Suc a" using ab Suc.hyps(2) by linarith
  ultimately obtain f' where "recv_all_resp P ?f2 = Some f'" "fok E b b d tc rc hd' h f'"
    using Suc.hyps(1) by blast
  moreover have "front_resp P (py_qp f) = Some a" using c by (simp add: pq.front_resp_eq)
  moreover have "py_qp ?f1 = py_qp f" by (simp add: fe_call_def)
  ultimately show ?case using ds qp(1) by (subst recv_all_resp.simps) auto
qed


text \<open>The range the copy buffer gives an operation is the one \<open>range_of\<close> reads back from its address.\<close>

lemma range_created: "range_of E (\<lparr>op_code = c, op_root = r, op_size = sz, shm_buffer = copy_base E + ucast (buf :: u32),
    op_group = g, op_with_fut = p\<rparr>, w) = (unat buf, unat sz)"
  by (simp add: range_of_def unat_ucast_u64)

lemma create_ok:
  assumes ok: "fok E a b d tc rc hd' h f" and av: "0 < ob_available (op_buf f)" "pa_size r \<le> cb_available (copy_buf f)"
    and ev: "even (unat (pa_size r))"
  obtains x f' f1 qp where "create_op E r f = Some (length h, f1)"
    "push_req P QUEUE_SIZE (length h) (py_qp f1) = Some (True, qp)" "f' = f1\<lparr>py_qp := qp\<rparr>"
    "fe_heap f1 (length h) = Some (snd x)" "x = last_created f'"
    "fut_wrapper (snd x) = (if pa_future r then Some (length h) else None)"
    "fok E a b d tc rc hd' (h @ [x]) f'"
    "op_code (fst x) = pa_code r" "op_root (fst x) = pa_root r" "op_size (fst x) = pa_size r" "op_group (fst x) = pa_group r"
    "wf_data (snd x) = pa_data r"
proof -
  let ?n = "length h"
  have mem: "fe_mem_ok E h a f" and hist: "fe_hist_ok E h" and q: "fe_queues_ok pcont ocont hd' ?n a b d f"
    and heap: "fe_heap f = live_records h a b d tc rc" and log: "fe_log_ok E h b d tc rc (fe_log f)"
    using ok by (simp_all add: fe_ok_def)
  have n: "fe_next f = ?n" using mem by (simp add: fe_mem_ok_def)
  have cnt: "unat (ob_cnt (op_buf f)) = ?n - a" "a \<le> ?n" using mem by (simp_all add: fe_mem_ok_def)
  have room: "?n - a < QUEUE_SIZE"
  proof -
    have "unat (ob_cnt (op_buf f)) \<noteq> QUEUE_SIZE"
      using av(1) ob_cnt_full[of "op_buf f"] by (auto simp: ob_available_def)
    then show ?thesis using mem by (simp add: fe_mem_ok_def)
  qed
  obtain ob where ob: "ob_allocate (op_buf f) = (Some (ob_head (op_buf f)), ob)"
    "unat (ob_head ob) = Suc ?n mod QUEUE_SIZE" "unat (ob_cnt ob) = Suc ?n - a"
  proof -
    let ?h = "unat (ob_head (op_buf f))"
    have h: "?h = ?n mod QUEUE_SIZE" using mem by (simp add: fe_mem_ok_def)
    then have hl: "?h < QUEUE_SIZE" by (simp add: QUEUE_SIZE_pos)
    then have i: "unat (ob_head (op_buf f) + 1) = Suc ?h" "unat (ob_cnt (op_buf f) + 1) = Suc (?n - a)"
      using cnt room by (simp_all add: unat_inc QUEUE_SIZE_def)
    have "ob_head (op_buf f) + 1 = of_nat QUEUE_SIZE \<longleftrightarrow> Suc ?h = QUEUE_SIZE"
      using i by (subst word_eq_of_nat_iff) (auto simp: QUEUE_SIZE_def)
    with i h room cnt show ?thesis
      by (intro that[of "(op_buf f)\<lparr>ob_cnt := ob_cnt (op_buf f) + 1, ob_head := (if ob_head (op_buf f) + 1 = of_nat QUEUE_SIZE then 0 else ob_head (op_buf f) + 1)\<rparr>"])
        (auto simp: ob_allocate_def ob_cnt_full Let_def mod_Suc)
  qed
  have oi: "unat (ob_head (op_buf f)) = ?n mod QUEUE_SIZE" using mem by (simp add: fe_mem_ok_def)
  have "fst (cb_allocate (pa_size r) (copy_buf f)) \<noteq> None"
    using av(2) cb_allocate_none[of "pa_size r" "copy_buf f"] by (simp add: not_less)
  then obtain buf cb where cb: "cb_allocate (pa_size r) (copy_buf f) = (Some buf, cb)"
    by (cases "cb_allocate (pa_size r) (copy_buf f)") auto
  have cbi: "cb_inv cb (map (range_of E) (drop a h) @ [(unat buf, unat (pa_size r))])"
    using mem ev cb by (intro cb_allocate_inv[where cb = "copy_buf f"]) (auto simp: fe_mem_ok_def)
  let ?ev = "event_create E (fe_log f)"
  let ?op = "\<lparr>op_code = pa_code r, op_root = pa_root r, op_size = pa_size r,
       shm_buffer = copy_base E + ucast buf, op_group = pa_group r, op_with_fut = ?n\<rparr>"
  let ?w = "\<lparr>copying = False, wf_data = pa_data r, wf_stream = pa_stream r, is_first = pa_first r,
       is_last = pa_last r, wf_event = ?ev, fut_wrapper = (if pa_future r then Some ?n else None), wf_op = ?n mod QUEUE_SIZE\<rparr>"
  let ?f1 = "fe_call (EventCreate ?ev) (f\<lparr>op_buf := ob, copy_buf := cb, op_mem := (op_mem f)(?n mod QUEUE_SIZE := ?op),
          fe_heap := (fe_heap f)(?n \<mapsto> ?w), fe_next := ?n + 1\<rparr>)"
  have cr: "create_op E r f = Some (?n, ?f1)"
    using ob cb oi n by (simp add: create_op_def Let_def)
  have pqk: "qp_ok pcont QUEUE_SIZE (d - b) (py_qp f)" "unat (num_in_queue (py_qp f)) < QUEUE_SIZE"
    using q room by (auto simp: fe_queues_ok_def qp_ok_def)
  from pq.push_req_room[OF this, of ?n] obtain qp where
    qp: "push_req P QUEUE_SIZE ?n (py_qp f) = Some (True, qp)" "qp_ok pcont QUEUE_SIZE (d - b) qp"
    "pcont (wq qp) = pcont (wq (py_qp f)) @ [?n]" "cq qp = cq (py_qp f)" by metis
  have p1: "py_qp ?f1 = py_qp f" by (simp add: fe_call_def)
  have lc: "(?op, ?w) = last_created (?f1\<lparr>py_qp := qp\<rparr>)"
    by (simp add: last_created_def fe_call_def)
  have "fe_hist_ok E (h @ [(?op, ?w)])"
    using hist by (auto simp: fe_hist_ok_def nth_append less_Suc_eq)
  moreover have "fe_mem_ok E (h @ [(?op, ?w)]) a (?f1\<lparr>py_qp := qp\<rparr>)"
  proof -
    have "op_mem (?f1\<lparr>py_qp := qp\<rparr>) (j mod QUEUE_SIZE) = fst ((h @ [(?op, ?w)]) ! j)" if "a \<le> j" "j < Suc ?n" for j
    proof (cases "j = ?n")
      case ne: False
      moreover have "Suc ?n - a \<le> QUEUE_SIZE" using room cnt(2) by arith
      ultimately have "j mod QUEUE_SIZE \<noteq> ?n mod QUEUE_SIZE"
        using live_mod_inj[of j ?n a "Suc ?n"] that cnt(2) by auto
      with ne that mem show ?thesis by (simp add: fe_call_def nth_append fe_mem_ok_def)
    qed (simp add: fe_call_def nth_append)
    moreover have "cb_inv cb (map (range_of E) (drop a (h @ [(?op, ?w)])))"
      using cbi cnt by (simp add: range_created)
    ultimately show ?thesis
      using ob cnt room by (auto simp: fe_mem_ok_def fe_call_def)
  qed
  moreover have "fe_queues_ok pcont ocont hd' (Suc ?n) a b d (?f1\<lparr>py_qp := qp\<rparr>)"
    using q qp by (auto simp: fe_queues_ok_def fe_call_def)
  moreover have "fe_heap (?f1\<lparr>py_qp := qp\<rparr>) = live_records (h @ [(?op, ?w)]) a b d tc rc"
  proof
    fix j
    have "tc \<Longrightarrow> d < ?n" "rc \<Longrightarrow> b < ?n" using ok by (auto simp: fe_ok_def fe_queues_ok_def)
    then show "fe_heap (?f1\<lparr>py_qp := qp\<rparr>) j = live_records (h @ [(?op, ?w)]) a b d tc rc j"
      using heap cnt by (auto simp: fe_call_def live_records_def nth_append)
  qed
  moreover have "fe_log_ok E (h @ [(?op, ?w)]) b d tc rc (fe_log (?f1\<lparr>py_qp := qp\<rparr>))"
    using log ok by (auto simp: fe_log_ok_def fe_call_def fe_ok_def fe_queues_ok_def)
  moreover have "tc \<longrightarrow> d < ?n \<and> need_tx (fst (h ! d))" "rc \<longrightarrow> b < d \<and> b < ?n \<and> need_rx (fst (h ! b))"
    using ok by (auto simp: fe_ok_def fe_queues_ok_def)
  ultimately have "fok E a b d tc rc hd' (h @ [(?op, ?w)]) (?f1\<lparr>py_qp := qp\<rparr>)"
    by (auto simp: fe_ok_def nth_append)
  then show ?thesis
    by (intro that[OF cr _ refl _ lc]) (simp_all add: qp(1) fe_call_def)
qed


lemma complete_ok:
  assumes ok: "fok E a b d tc rc hd' h f"
  obtains (idle) "fe_complete_op P Q E ready f = Some (False, f)"
    "ocont (cq (be_qp f)) = [] \<or> (rc \<and> \<not> ready (wf_event (snd (h ! b))))"
  | (copy) f' where "fe_complete_op P Q E ready f = Some (True, f')" "\<not> rc" "fok E a b d tc True hd' h f'"
    "be_qp f' = be_qp f"
  | (finish) f' where "fe_complete_op P Q E ready f = Some (True, f')" "b < d"
    "need_rx (fst (h ! b)) \<Longrightarrow> rc \<and> ready (wf_event (snd (h ! b)))" "fok E a (Suc b) d tc False hd' h f'"
    "wq (be_qp f') = wq (be_qp f)"
proof (cases "ocont (cq (be_qp f))")
  case Nil
  then show ?thesis by (intro idle) (auto simp: fe_complete_op_def oq.front_resp_eq)
next
  case (Cons i rest)
  have mem: "fe_mem_ok E h a f" and hist: "fe_hist_ok E h" and q: "fe_queues_ok pcont ocont hd' (length h) a b d f"
    and heap: "fe_heap f = live_records h a b d tc rc" and log: "fe_log_ok E h b d tc rc (fe_log f)"
    and tc: "tc \<longrightarrow> d < length h \<and> need_tx (fst (h ! d))" and rc: "rc \<longrightarrow> b < d \<and> need_rx (fst (h ! b))"
    using ok by (simp_all add: fe_ok_def)
  from q Cons have bd: "b < d" and i: "i = b mod QUEUE_SIZE" and rest: "rest @ hd' @ ocont (wq (be_qp f)) = map (\<lambda>j. j mod QUEUE_SIZE) [Suc b..<d]"
    by (auto simp: fe_queues_ok_def upt_eq_Cons_conv)
  have le: "a \<le> b" "b < length h" "d \<le> length h" using q bd by (simp_all add: fe_queues_ok_def)
  obtain op w where hb: "h ! b = (op, w)" by fastforce
  have m: "op_mem f i = op" "op_with_fut op = b" using mem hist le hb i by (auto simp: fe_mem_ok_def fe_hist_ok_def)
  have w: "fe_heap f b = Some (w\<lparr>copying := rc\<rparr>)" using heap le bd hb by (auto simp: live_records_def)
  have fr: "front_resp Q (be_qp f) = Some i" using Cons by (simp add: oq.front_resp_eq)
  have sb: "take (Suc b) h = take b h @ [(op, w)]" using le hb by (simp add: take_Suc_conv_app_nth)
  have lr: "(live_records h a b d tc rc)(b \<mapsto> w\<lparr>copying := x\<rparr>) = live_records h a b d tc x" for x
    using le bd hb by (auto simp: live_records_def fun_eq_iff)
  consider (start) "need_rx op" "\<not> rc" | (waiting) "rc" "\<not> ready (wf_event w)" | (fin) "need_rx op \<longrightarrow> rc \<and> ready (wf_event w)"
    by blast
  then show ?thesis
  proof cases
    case start
    let ?l = "fe_log f @ (if is_first w \<and> \<not> need_tx op then [EventRecord (wf_event w) (wf_stream w), StreamWaitEvent (h2d_stream E) (wf_event w)] else [])
      @ (if op_size op \<noteq> 0 then [MemcpyAsync (wf_data w) (shm_buffer op) (op_size op) HostToDevice (h2d_stream E), EventRecord (wf_event w) (h2d_stream E)] else [])
      @ (if is_last w then [StreamWaitEvent (wf_stream w) (wf_event w)] else [])"
    let ?f = "f\<lparr>fe_heap := live_records h a b d tc True, fe_log := ?l\<rparr>"
    have "fe_complete_op P Q E ready f = Some (True, ?f)"
      unfolding fe_complete_op_def fr
      using start m w lr heap by (simp add: calls_when_eq set_copying_def)
    moreover have "fe_log_ok E h b d tc True ?l"
      using log start by (auto simp: fe_log_ok_def sb h2d_of_def)
    then have "fok E a b d tc True hd' h ?f"
      using ok start bd hb by (auto simp: fe_ok_def fe_mem_ok_def fe_queues_ok_def)
    ultimately show ?thesis using start by (intro copy[of ?f]) simp_all
  next
    case waiting
    with rc hb have "need_rx op" by simp
    with waiting m w fr hb show ?thesis by (intro idle) (simp_all add: fe_complete_op_def)
  next
    case fin
    have "qp_ok ocont QUEUE_SIZE (length hd') (be_qp f)" using q by (simp add: fe_queues_ok_def)
    from oq.pop_resp_cons[OF this Cons] obtain bq where bq: "pop_resp Q (be_qp f) = Some bq"
      "qp_ok ocont QUEUE_SIZE (length hd') bq" "ocont (cq bq) = rest" "wq bq = wq (be_qp f)" by metis
    have "qp_ok pcont QUEUE_SIZE (Suc (d - Suc b)) (py_qp f)" using q bd by (simp add: fe_queues_ok_def Suc_diff_Suc)
    from pq.push_resp_held[OF this, of b] obtain pq where pq: "push_resp P b (py_qp f) = Some (True, pq)"
      "qp_ok pcont QUEUE_SIZE (d - Suc b) pq" "pcont (cq pq) = pcont (cq (py_qp f)) @ [b]" "wq pq = wq (py_qp f)" by metis
    let ?l = "fe_log f @ mark_of (op, w)"
    have nr: "\<not> need_rx op \<Longrightarrow> \<not> rc" using rc hb by auto
    have lr': "(if need_rx op then live_records h a b d tc False else live_records h a b d tc rc) = live_records h a (Suc b) d tc False"
      using nr by (auto simp: live_records_def fun_eq_iff)
    let ?f = "f\<lparr>fe_heap := live_records h a (Suc b) d tc False, fe_log := ?l, be_qp := bq, py_qp := pq\<rparr>"
    have "fe_complete_op P Q E ready f = Some (True, ?f)"
    proof (cases "need_rx op")
      case True
      with fin have "rc" "ready (wf_event w)" by simp_all
      with True m w lr lr' heap bq(1) pq(1) fr show ?thesis
        by (auto simp: fe_complete_op_def set_copying_def fe_call_def mark_of_def split: option.split)
    next
      case False
      with m w lr lr' heap bq(1) pq(1) fr show ?thesis
        by (auto simp: fe_complete_op_def set_copying_def fe_call_def mark_of_def split: option.split)
    qed
    moreover have "fe_log_ok E h (Suc b) d tc False ?l"
    proof -
      have "filter is_h2d (fe_log f) = concat (map (h2d_of E) (take (Suc b) h))"
      proof (cases rc)
        case True
        then show ?thesis using log by (simp add: fe_log_ok_def)
      next
        case False
        with fin have "h2d_of E (op, w) = []" by (auto simp: h2d_of_def)
        with False log show ?thesis by (simp add: fe_log_ok_def sb)
      qed
      moreover have "filter is_mark (mark_of x) = mark_of x" "filter is_h2d (mark_of x) = []" "filter is_d2h (mark_of x) = []" for x
        by (auto simp: mark_of_def split: option.split prod.split)
      ultimately show ?thesis using log sb by (auto simp: fe_log_ok_def)
    qed
    moreover have "[a..<Suc b] = [a..<b] @ [b]" using le by simp
    ultimately have "fok E a (Suc b) d tc False hd' h ?f"
      using mem hist q tc bq pq bd rest le by (auto simp: fe_ok_def fe_mem_ok_def fe_queues_ok_def)
    with \<open>fe_complete_op P Q E ready f = Some (True, ?f)\<close> bd fin hb bq(4) show ?thesis by (intro finish[of ?f]) auto
  qed
qed


lemma submit_ok:
  assumes ok: "fok E a b d tc rc hd' h f"
  obtains (idle) "fe_post_op P Q E ready f = Some (False, f)"
    "d = length h \<or> (tc \<and> \<not> ready (wf_event (snd (h ! d))))"
  | (copy) f' where "fe_post_op P Q E ready f = Some (True, f')" "\<not> tc" "d < length h" "fok E a b d True rc hd' h f'"
    "be_qp f' = be_qp f"
  | (finish) f' where "fe_post_op P Q E ready f = Some (True, f')" "d < length h"
    "need_tx (fst (h ! d)) \<Longrightarrow> tc \<and> ready (wf_event (snd (h ! d)))" "fok E a b (Suc d) False rc hd' h f'"
    "ocont (wq (be_qp f')) = ocont (wq (be_qp f)) @ [d mod QUEUE_SIZE]"
proof (cases "pcont (wq (py_qp f))")
  case Nil
  with ok have "[d..<length h] = []" "d \<le> length h" by (simp_all add: fe_ok_def fe_queues_ok_def)
  then have "d = length h" by auto
  with Nil show ?thesis by (intro idle) (auto simp: fe_post_op_def pq.front_req_eq)
next
  case (Cons p rest)
  have mem: "fe_mem_ok E h a f" and hist: "fe_hist_ok E h" and q: "fe_queues_ok pcont ocont hd' (length h) a b d f"
    and heap: "fe_heap f = live_records h a b d tc rc" and log: "fe_log_ok E h b d tc rc (fe_log f)"
    and tc: "tc \<longrightarrow> d < length h \<and> need_tx (fst (h ! d))" and rc: "rc \<longrightarrow> b < d \<and> need_rx (fst (h ! b))"
    using ok by (simp_all add: fe_ok_def)
  from q Cons have "[d..<length h] = p # rest" by (simp add: fe_queues_ok_def)
  then have dn: "d < length h" and p: "p = d" and rest: "rest = [Suc d..<length h]"
    by (auto simp: upt_eq_Cons_conv)
  have le: "a \<le> b" "b \<le> d" using q by (simp_all add: fe_queues_ok_def)
  obtain op w where hd: "h ! d = (op, w)" by fastforce
  have wop: "wf_op w = d mod QUEUE_SIZE" using hist hd dn unfolding fe_hist_ok_def by (metis snd_conv)
  have m: "op_mem f (wf_op w) = op"
    using mem le dn hd wop unfolding fe_mem_ok_def by (metis fst_conv le_trans)
  have w: "fe_heap f p = Some (w\<lparr>copying := tc\<rparr>)" using heap le dn hd p rc by (auto simp: live_records_def)
  have fr: "front_req P (py_qp f) = Some p" using Cons by (simp add: pq.front_req_eq)
  have sd: "take (Suc d) h = take d h @ [(op, w)]" using dn hd by (simp add: take_Suc_conv_app_nth)
  have lr: "(live_records h a b d tc rc)(d \<mapsto> w\<lparr>copying := x\<rparr>) = live_records h a b d x rc" for x
    using le dn hd rc by (auto simp: live_records_def fun_eq_iff)
  consider (start) "need_tx op" "\<not> tc" | (waiting) "tc" "\<not> ready (wf_event w)" | (fin) "need_tx op \<longrightarrow> tc \<and> ready (wf_event w)"
    by blast
  then show ?thesis
  proof cases
    case start
    let ?l = "fe_log f @ (if is_first w then [EventRecord (wf_event w) (wf_stream w), StreamWaitEvent (d2h_stream E) (wf_event w)] else [])
      @ (if op_size op \<noteq> 0 then [MemcpyAsync (shm_buffer op) (wf_data w) (op_size op) DeviceToHost (d2h_stream E), EventRecord (wf_event w) (d2h_stream E)] else [])
      @ (if is_last w \<and> \<not> need_rx op then [StreamWaitEvent (wf_stream w) (wf_event w)] else [])"
    let ?f = "f\<lparr>fe_heap := live_records h a b d True rc, fe_log := ?l\<rparr>"
    have "fe_post_op P Q E ready f = Some (True, ?f)"
      unfolding fe_post_op_def fr
      using start m w lr heap p by (simp add: calls_when_eq set_copying_def)
    moreover have "fe_log_ok E h b d True rc ?l"
      using log start by (auto simp: fe_log_ok_def sd d2h_of_def)
    then have "fok E a b d True rc hd' h ?f"
      using ok start dn hd by (auto simp: fe_ok_def fe_mem_ok_def fe_queues_ok_def)
    ultimately show ?thesis using start dn by (intro copy[of ?f]) simp_all
  next
    case waiting
    with tc hd have "need_tx op" by simp
    with waiting m w fr hd show ?thesis by (intro idle) (simp_all add: fe_post_op_def)
  next
    case fin
    have "qp_ok pcont QUEUE_SIZE (d - b) (py_qp f)" using q by (simp add: fe_queues_ok_def)
    from pq.pop_req_cons[OF this Cons] obtain pq where pq: "pop_req P (py_qp f) = Some pq"
      "qp_ok pcont QUEUE_SIZE (Suc (d - b)) pq" "pcont (wq pq) = rest" "cq pq = cq (py_qp f)" by metis
    have qo: "qp_ok ocont QUEUE_SIZE (length hd') (be_qp f)" using q by (simp add: fe_queues_ok_def)
    have "ocont (cq (be_qp f)) @ hd' @ ocont (wq (be_qp f)) = map (\<lambda>j. j mod QUEUE_SIZE) [b..<d]"
      using q by (simp add: fe_queues_ok_def)
    from arg_cong[OF this, of length] have "unat (num_in_queue (be_qp f)) = d - b"
      using qo by (simp add: qp_ok_def)
    moreover have "d - b < length h - a" using le dn by arith
    moreover have "length h - a \<le> QUEUE_SIZE" using mem by (simp add: fe_mem_ok_def)
    ultimately have "unat (num_in_queue (be_qp f)) < QUEUE_SIZE" by simp
    from oq.push_req_room[OF qo this, of "wf_op w"] obtain bq where bq: "push_req Q QUEUE_SIZE (wf_op w) (be_qp f) = Some (True, bq)"
      "qp_ok ocont QUEUE_SIZE (length hd') bq" "ocont (wq bq) = ocont (wq (be_qp f)) @ [wf_op w]" "cq bq = cq (be_qp f)" by metis
    have nt: "\<not> need_tx op \<Longrightarrow> \<not> tc" using tc hd by auto
    have lr': "(if need_tx op then live_records h a b d False rc else live_records h a b d tc rc) = live_records h a b (Suc d) False rc"
      using nt by (auto simp: live_records_def fun_eq_iff)
    let ?f = "f\<lparr>fe_heap := live_records h a b (Suc d) False rc, be_qp := bq, py_qp := pq\<rparr>"
    have ret: "fe_post_op P Q E ready f = Some (True, ?f)"
    proof (cases "need_tx op")
      case True
      with fin have "tc" "ready (wf_event w)" by simp_all
      with True m w lr lr' heap bq(1) pq(1) fr p show ?thesis
        by (auto simp: fe_post_op_def set_copying_def)
    next
      case False
      with m w lr lr' heap bq(1) pq(1) fr p show ?thesis
        by (auto simp: fe_post_op_def set_copying_def)
    qed
    moreover have "fe_log_ok E h b (Suc d) False rc (fe_log ?f)"
    proof -
      have "filter is_d2h (fe_log f) = concat (map (d2h_of E) (take (Suc d) h))"
      proof (cases tc)
        case True
        then show ?thesis using log by (simp add: fe_log_ok_def)
      next
        case False
        with fin have "d2h_of E (op, w) = []" by (auto simp: d2h_of_def)
        with False log show ?thesis by (simp add: fe_log_ok_def sd)
      qed
      then show ?thesis using log by (auto simp: fe_log_ok_def)
    qed
    moreover have "[b..<Suc d] = [b..<d] @ [d]" using le by simp
    moreover have "Suc d - b = Suc (d - b)" using le by simp
    ultimately have "fok E a b (Suc d) False rc hd' h ?f"
      using mem hist q rc bq pq dn rest le wop
      by (auto simp: fe_ok_def fe_mem_ok_def fe_queues_ok_def simp flip: append_assoc)
    with ret dn fin hd bq(3) wop show ?thesis by (intro finish) auto
  qed
qed

text \<open>The neighbour on the other side of the shared memory.\<close>

lemma be_take_ok:
  assumes ok: "fok E a b d tc rc hd' h f" and "front_req Q (be_qp f) = Some i"
  obtains qp where "pop_req Q (be_qp f) = Some qp" "fok E a b d tc rc (hd' @ [i]) h (f\<lparr>be_qp := qp\<rparr>)"
    "ocont (wq (be_qp f)) = i # ocont (wq qp)"
proof -
  from assms(2) obtain es where c: "ocont (wq (be_qp f)) = i # es" by (auto simp: oq.front_req_eq split: list.splits)
  have qo: "qp_ok ocont QUEUE_SIZE (length hd') (be_qp f)" using ok by (simp add: fe_ok_def fe_queues_ok_def)
  from oq.pop_req_cons[OF this c] obtain qp where "pop_req Q (be_qp f) = Some qp"
    "qp_ok ocont QUEUE_SIZE (Suc (length hd')) qp" "ocont (wq qp) = es" "cq qp = cq (be_qp f)" by metis
  with ok c show ?thesis by (intro that[of qp]) (auto simp: fe_ok_def fe_queues_ok_def fe_mem_ok_def)
qed

lemma be_answer_ok:
  assumes ok: "fok E a b d tc rc (i # is) h f"
  obtains qp where "push_resp Q i (be_qp f) = Some (True, qp)" "fok E a b d tc rc is h (f\<lparr>be_qp := qp\<rparr>)"
    "wq qp = wq (be_qp f)"
proof -
  have qo: "qp_ok ocont QUEUE_SIZE (Suc (length is)) (be_qp f)" using ok by (simp add: fe_ok_def fe_queues_ok_def)
  from oq.push_resp_held[OF this, of i] obtain qp where "push_resp Q i (be_qp f) = Some (True, qp)"
    "qp_ok ocont QUEUE_SIZE (length is) qp" "ocont (cq qp) = ocont (cq (be_qp f)) @ [i]" "wq qp = wq (be_qp f)" by metis
  with ok show ?thesis by (intro that[of qp]) (auto simp: fe_ok_def fe_queues_ok_def fe_mem_ok_def)
qed


lemma post_sub_ok:
  assumes ok: "fok E a b d tc rc hd' h f" and ev: "even (unat (pa_size r))"
  obtains (later) f' where "post_sub_collective P E r f = Some (False, None, f')" "fok E b b d tc rc hd' h f'"
    "ob_available (op_buf f') = 0 \<or> cb_available (copy_buf f') < pa_size r"
  | (now) f' x where "post_sub_collective P E r f = Some (True, (if pa_future r then Some (length h) else None), f')"
    "x = last_created f'" "fok E b b d tc rc hd' (h @ [x]) f'"
    "op_code (fst x) = pa_code r" "op_root (fst x) = pa_root r" "op_size (fst x) = pa_size r" "op_group (fst x) = pa_group r"
    "wf_data (snd x) = pa_data r" "fut_wrapper (snd x) = (if pa_future r then Some (length h) else None)"
proof -
  from recv_all_resp_ok[OF ok] obtain f0 where f0: "recv_all_resp P f = Some f0" "fok E b b d tc rc hd' h f0" by blast
  show thesis
  proof (cases "0 < ob_available (op_buf f0) \<and> pa_size r \<le> cb_available (copy_buf f0)")
    case True
    from create_ok[OF f0(2) conjunct1[OF True] conjunct2[OF True] ev] obtain x f' f1 qp where
      c: "create_op E r f0 = Some (length h, f1)"
      "push_req P QUEUE_SIZE (length h) (py_qp f1) = Some (True, qp)" "f' = f1\<lparr>py_qp := qp\<rparr>"
      "fe_heap f1 (length h) = Some (snd x)" "x = last_created f'"
      "fut_wrapper (snd x) = (if pa_future r then Some (length h) else None)"
      "fok E b b d tc rc hd' (h @ [x]) f'"
      "op_code (fst x) = pa_code r" "op_root (fst x) = pa_root r" "op_size (fst x) = pa_size r" "op_group (fst x) = pa_group r"
      "wf_data (snd x) = pa_data r" .
    have "post_sub_collective P E r f = Some (True, (if pa_future r then Some (length h) else None), f')"
      unfolding post_sub_collective_def using f0(1) True c(1-4,6) by simp
    then show ?thesis using c by (intro now)
  next
    case False
    then show ?thesis using f0 by (intro later[of f0]) (auto simp: post_sub_collective_def not_less word_gt_0)
  qed
qed

lemma wait_ok:
  assumes ok: "fok E a b d tc rc hd' h f"
  obtains w f' where "wait_collective P f = Some (w, f')" "fok E b b d tc rc hd' h f'" "w \<longleftrightarrow> b = length h"
proof -
  from recv_all_resp_ok[OF ok] obtain f0 where f0: "recv_all_resp P f = Some f0" "fok E b b d tc rc hd' h f0" by blast
  have le: "b \<le> length h" "unat (ob_cnt (op_buf f0)) = length h - b" using f0 by (simp_all add: fe_ok_def fe_mem_ok_def)
  have "ob_available (op_buf f0) = of_nat QUEUE_SIZE \<longleftrightarrow> ob_cnt (op_buf f0) = 0"
    by (auto simp: ob_available_def)
  also have "\<dots> \<longleftrightarrow> b = length h" using le by (auto simp: unat_eq_0[symmetric])
  finally show ?thesis using f0 by (intro that[of _ f0]) (auto simp: wait_collective_def)
qed

lemma fok_init: "pcont p = [] \<Longrightarrow> ocont q = [] \<Longrightarrow> fok E 0 0 0 False False [] [] (new_frontend p q m)"
  using cb_new_inv
  by (auto simp: fe_ok_def fe_hist_ok_def fe_mem_ok_def fe_queues_ok_def fe_log_ok_def new_frontend_def
      new_op_buffer_def qp_ok_def empty_pair_def live_records_def fun_eq_iff)

end

context fe_queues begin

text \<open>Two operations under way have ranges of their own in the copy buffer.\<close>

lemma fok_apart:
  assumes ok: "fok E a b d tc rc hs h f" and i: "a \<le> i" "i < length h" and j: "a \<le> j" "j < length h" and ne: "i \<noteq> j"
  shows "apart (range_of E (h ! i)) (range_of E (h ! j))"
proof -
  let ?bs = "map (range_of E) (drop a h)"
  have cb: "cb_inv (copy_buf f) ?bs" using ok by (simp add: fe_ok_def fe_mem_ok_def)
  have sw: "apart (range_of E (h ! k)) (range_of E (h ! l))" if "a \<le> k" "k < l" "l < length h" for k l
    using sorted_wrt_nth_less[OF cb_inv_apart[OF cb], of "k - a" "l - a"] that by simp
  from sw[of i j] sw[of j i] i j ne show ?thesis by (cases "i < j") (auto simp: apart_def)
qed

lemma fok_range:
  assumes ok: "fok E a b d tc rc hs h f" and i: "a \<le> i" "i < length h"
  shows "unat (shm_buffer (fst (h ! i)) - copy_base E) + unat (op_size (fst (h ! i))) \<le> SHM_COPY_BUFFER_SIZE"
proof -
  have cb: "cb_inv (copy_buf f) (map (range_of E) (drop a h))" using ok by (simp add: fe_ok_def fe_mem_ok_def)
  have "drop a h ! (i - a) \<in> set (drop a h)" using i by (intro nth_mem) simp
  then have "h ! i \<in> set (drop a h)" using i by simp
  then have "range_of E (h ! i) \<in> set (map (range_of E) (drop a h))" by simp
  from cb_inv_range[OF cb, of "fst (range_of E (h ! i))" "snd (range_of E (h ! i))"] this
  show ?thesis by (simp add: range_of_def)
qed

end

text \<open>The operation and the record made for the arguments of a call.\<close>

definition made_for :: "post_args \<Rightarrow> op_t \<times> op_with_fut_t \<Rightarrow> bool" where
  "made_for r x \<longleftrightarrow> op_code (fst x) = pa_code r \<and> op_root (fst x) = pa_root r \<and> op_size (fst x) = pa_size r
     \<and> op_group (fst x) = pa_group r \<and> wf_data (snd x) = pa_data r \<and> (fut_wrapper (snd x) \<noteq> None) = pa_future r"

definition fe_inv :: "('p \<Rightarrow> ptr list) \<Rightarrow> ('o \<Rightarrow> ptr list) \<Rightarrow> fe_env \<Rightarrow> ('p, 'o) fe_sys \<Rightarrow> bool" where
  "fe_inv pcont ocont E s \<longleftrightarrow> list_all fits (todo s)
     \<and> (\<exists>a b d tc rc. fe_ok pcont ocont E a b d tc rc (be_held s) (created s) (fe s)
          \<and> (\<not> busy s \<longrightarrow> a = length (created s)))
     \<and> (\<not> busy s \<longrightarrow> todo s = [])
     \<and> (\<exists>prev. given s = prev @ todo s \<and> list_all2 made_for prev (created s))"

context fe_queues begin

abbreviation "finv \<equiv> fe_inv pcont ocont"

lemma finvI:
  assumes "list_all fits (todo s)" "fok E a b d tc rc (be_held s) (created s) (fe s)" "\<not> busy s \<longrightarrow> a = length (created s)"
    "\<not> busy s \<longrightarrow> todo s = []" "given s = prev @ todo s" "list_all2 made_for prev (created s)"
  shows "finv E s"
  using assms unfolding fe_inv_def by blast

lemma finvE:
  assumes "finv E s"
  obtains a b d tc rc prev where "list_all fits (todo s)" "fok E a b d tc rc (be_held s) (created s) (fe s)"
    "\<not> busy s \<longrightarrow> a = length (created s)"
    "\<not> busy s \<longrightarrow> todo s = []" "given s = prev @ todo s" "list_all2 made_for prev (created s)"
  using assms unfolding fe_inv_def by blast

lemma fok_idle:
  assumes "fok E a b d tc rc hd' h f" "a = length h"
  shows "b = length h" "d = length h" "\<not> tc" "\<not> rc"
  using assms by (auto simp: fe_ok_def fe_queues_ok_def)

lemma fe_step_inv:
  assumes "fe_step P Q E s t" "finv E s" and ev: "even_sizes (given t)"
  shows "finv E t"
  using assms(2)
proof (rule finvE)
  fix a b d tc rc prev
  assume td: "list_all fits (todo s)" and ok: "fok E a b d tc rc (be_held s) (created s) (fe s)"
    and idle: "\<not> busy s \<longrightarrow> a = length (created s)" and idle': "\<not> busy s \<longrightarrow> todo s = []"
    and giv: "given s = prev @ todo s" "list_all2 made_for prev (created s)"
  have upd: "finv E (s\<lparr>fe := f, be_held := hd'\<rparr>)" if "fok E a b' d' tc' rc' hd' (created s) f" for f hd' b' d' tc' rc'
    using that td idle idle' giv by (auto intro!: finvI)
  show ?thesis using assms(1)
  proof (cases rule: fe_step.cases)
    case (collective sz r async segs)
    have "list_all fits segs"
      using segment_loop_bounded[of _ _ _ 0 segs] collective ev
      by (simp add: post_collective_segments_def list_all_iff fits_def even_sizes_def)
    with collective ok giv idle' show ?thesis by (auto intro!: finvI)
  next
    case (post r as ret fut f)
    with td have ev: "even (unat (pa_size r))" "list_all fits as" by (simp_all add: fits_def)
    show ?thesis
    proof (cases rule: post_sub_ok[OF ok ev(1), case_names later now])
      case (later f')
      with post td giv show ?thesis by (auto intro!: finvI)
    next
      case (now f' x)
      then have "made_for r x" by (auto simp: made_for_def)
      with post now ev giv show ?thesis
        by (intro finvI[where prev = "prev @ [r]"]) (auto intro: list_all2_appendI)
    qed
  next
    case (wait w f)
    from wait_ok[OF ok] obtain w' f' where "wait_collective P (fe s) = Some (w', f')"
      "fok E b b d tc rc (be_held s) (created s) f'" "w' \<longleftrightarrow> b = length (created s)" .
    with wait td giv show ?thesis by (auto intro!: finvI)
  next
    case (complete ready r f)
    have "\<exists>b' rc'. fok E a b' d tc rc' (be_held s) (created s) f"
      using complete_ok[OF ok, of ready] complete(2) ok by (metis option.inject prod.inject)
    with complete upd[of _ _ _ _ "be_held s"] show ?thesis by auto
  next
    case (submit ready r f)
    have "\<exists>d' tc'. fok E a b d' tc' rc (be_held s) (created s) f"
      using submit_ok[OF ok, of ready] submit(2) ok by (metis option.inject prod.inject)
    with submit upd[of _ _ _ _ "be_held s"] show ?thesis by auto
  next
    case (be_take i qp)
    from be_take_ok[OF ok be_take(2)] obtain qp' where "pop_req Q (be_qp (fe s)) = Some qp'"
      "fok E a b d tc rc (be_held s @ [i]) (created s) ((fe s)\<lparr>be_qp := qp'\<rparr>)" by blast
    with be_take upd show ?thesis by auto
  next
    case (be_answer i "is" ret qp)
    from ok be_answer have "fok E a b d tc rc (i # is) (created s) (fe s)" by simp
    from be_answer_ok[OF this] obtain qp' where "push_resp Q i (be_qp (fe s)) = Some (True, qp')"
      "fok E a b d tc rc is (created s) ((fe s)\<lparr>be_qp := qp'\<rparr>)" by blast
    with be_answer upd show ?thesis by auto
  qed
qed

lemma fe_reach_inv:
  assumes "fe_reach P Q E (fe_init p q m) s" "pcont p = []" "ocont q = []" "even_sizes (given s)"
  shows "finv E s"
  using assms(1,4)
proof (induction rule: fe_reach.induct)
  case init
  from fok_init[OF assms(2,3), of E m] show ?case
    by (auto intro!: finvI simp: fe_init_def)
next
  case (step s t)
  from even_sizes_mono[OF step.prems fe_step_given[OF step.hyps(2)]] step show ?case by (blast intro: fe_step_inv)
qed

end
end
