(* ===== verification/FrontendLive.thy ===== *)
theory FrontendLive
  imports FrontendSystem
begin

text \<open>
  A collective can always be brought to its end: while an operation is not completed, the daemon or
  the backend has a turn that brings one nearer to completion (a measure over the stages of the operations
  under way), and with every operation completed the Python thread can post the next segment,
  because the empty copy buffer has room for one, or return.
\<close>

lemma fe_reach_trans: "fe_reach P Q E s t \<Longrightarrow> fe_reach P Q E r s \<Longrightarrow> fe_reach P Q E r t"
  by (induction rule: fe_reach.induct) (auto intro: fe_reach.step)

definition be_work :: "('o \<Rightarrow> ptr list) \<Rightarrow> ('p, 'o) fe_sys \<Rightarrow> nat" where
  "be_work ocont s = 2 * length (ocont (wq (be_qp (fe s)))) + length (be_held s)"

definition work_left :: "nat \<Rightarrow> nat \<Rightarrow> nat \<Rightarrow> bool \<Rightarrow> bool \<Rightarrow> nat" where
  "work_left n b d tc rc = (if tc then 0 else 1) + (if rc then 0 else 1) + 2 * (n - b) + 10 * (n - d)"

definition same_py :: "('p, 'o) fe_sys \<Rightarrow> ('p, 'o) fe_sys \<Rightarrow> bool" where
  "same_py s t \<longleftrightarrow> todo t = todo s \<and> busy t = busy s \<and> given t = given s \<and> created t = created s"

context fe_queues begin

text \<open>Only the backend changes what it holds.\<close>

lemma only_answer:
  assumes "fe_step P Q E s t" "Suc (length (be_held t)) = length (be_held s)"
  obtains i hs b qp where "be_held s = i # hs" "push_resp Q i (be_qp (fe s)) = Some (b, qp)"
    "t = s\<lparr>fe := (fe s)\<lparr>be_qp := qp\<rparr>, be_held := hs\<rparr>"
  using assms by (cases rule: fe_step.cases) auto

lemma only_take:
  assumes "fe_step P Q E s t" "length (be_held t) = Suc (length (be_held s))"
  obtains i qp where "front_req Q (be_qp (fe s)) = Some i" "pop_req Q (be_qp (fe s)) = Some qp"
    "t = s\<lparr>fe := (fe s)\<lparr>be_qp := qp\<rparr>, be_held := be_held s @ [i]\<rparr>"
  using assms by (cases rule: fe_step.cases) auto

lemma can_post:
  assumes ok: "fok E a (length h) d tc rc hd' h f" and r: "fits r"
  shows "\<exists>fut f'. post_sub_collective P E r f = Some (True, fut, f')"
proof -
  have ev: "even (unat (pa_size r))" using r by (simp add: fits_def)
  show ?thesis
  proof (cases rule: post_sub_ok[OF ok ev, case_names later now])
    case (later f')
    have m: "fe_mem_ok E h (length h) f'" using later(2) by (simp add: fe_ok_def)
    then have "cb_inv (copy_buf f') []" "unat (ob_cnt (op_buf f')) = 0" by (simp_all add: fe_mem_ok_def)
    moreover have "unat (pa_size r) \<le> FRONTEND_SEGMENT_SIZE" using r by (simp add: fits_def)
    ultimately have "\<not> cb_available (copy_buf f') < pa_size r" "ob_available (op_buf f') \<noteq> 0"
      using segment_fits[of "copy_buf f'" "pa_size r"] cb_allocate_none[of "pa_size r" "copy_buf f'"]
      by (auto simp: ob_available_def unat_eq_0 QUEUE_SIZE_def)
    with later(3) show ?thesis by simp
  next
    case (now f' x)
    then show ?thesis by blast
  qed
qed

end

text \<open>
  What the argument needs of whatever stands behind the frontend: a system of states with a view of the
  frontend, in which the frontend can make its own moves, and what the backend is given it can be brought to take, and what it holds,
  to answer.
\<close>

locale backend_turns = fe_queues P pcont Q ocont
  for P :: "('p, ptr) spsc_ops" and pcont :: "'p \<Rightarrow> ptr list" and Q :: "('o, ptr) spsc_ops" and ocont :: "'o \<Rightarrow> ptr list" +
  fixes E :: fe_env and view :: "'x \<Rightarrow> ('p, 'o) fe_sys" and sys_step :: "'x \<Rightarrow> 'x \<Rightarrow> bool" and inv :: "'x \<Rightarrow> bool"
  assumes view_inv: "inv x \<Longrightarrow> finv E (view x)"
    and own: "inv x \<Longrightarrow> fe_step P Q E (view x) t \<Longrightarrow> be_held t = be_held (view x) \<Longrightarrow> given t = given (view x) \<Longrightarrow>
      \<exists>y. sys_step\<^sup>*\<^sup>* x y \<and> inv y \<and> view y = t"
    and takes: "inv x \<Longrightarrow> ocont (wq (be_qp (fe (view x)))) \<noteq> [] \<Longrightarrow>
      \<exists>y. sys_step\<^sup>*\<^sup>* x y \<and> inv y \<and> fe_step P Q E (view x) (view y) \<and> length (be_held (view y)) = Suc (length (be_held (view x)))"
    and answers: "inv x \<Longrightarrow> be_held (view x) \<noteq> [] \<Longrightarrow>
      \<exists>y. sys_step\<^sup>*\<^sup>* x y \<and> inv y \<and> fe_step P Q E (view x) (view y) \<and> Suc (length (be_held (view y))) = length (be_held (view x))"
begin

lemma own_done:
  assumes x: "inv x" and st: "fe_step P Q E (view x) ((view x)\<lparr>fe := f\<rparr>)"
    and ok: "fok E a b d tc rc (be_held (view x)) (created (view x)) f"
    and less: "work_left (length (created (view x))) b d tc rc + 2 * length (ocont (wq (be_qp f)))
      < m + 2 * length (ocont (wq (be_qp (fe (view x)))))"
  shows "\<exists>y b d tc rc. sys_step\<^sup>*\<^sup>* x y \<and> inv y \<and> same_py (view x) (view y)
    \<and> fok E a b d tc rc (be_held (view y)) (created (view y)) (fe (view y))
    \<and> work_left (length (created (view x))) b d tc rc + be_work ocont (view y) < m + be_work ocont (view x)"
proof -
  from own[OF x st] obtain y where y: "sys_step\<^sup>*\<^sup>* x y" "inv y" "view y = (view x)\<lparr>fe := f\<rparr>" by auto
  from ok less show ?thesis
    by (intro exI[of _ y] exI[of _ b] exI[of _ d] exI[of _ tc] exI[of _ rc]) (simp add: y same_py_def be_work_def)
qed

lemma drain_step:
  assumes x: "inv x" and ok: "fok E a b d tc rc (be_held (view x)) (created (view x)) (fe (view x))"
    and lt: "b < length (created (view x))"
  shows "\<exists>y b' d' tc' rc'. sys_step\<^sup>*\<^sup>* x y \<and> inv y \<and> same_py (view x) (view y)
    \<and> fok E a b' d' tc' rc' (be_held (view y)) (created (view y)) (fe (view y))
    \<and> work_left (length (created (view x))) b' d' tc' rc' + be_work ocont (view y)
      < work_left (length (created (view x))) b d tc rc + be_work ocont (view x)"
proof -
  let ?s = "view x" and ?f = "fe (view x)" and ?R = "\<lambda>_. True"
  have q: "b \<le> d" "ocont (cq (be_qp ?f)) @ be_held ?s @ ocont (wq (be_qp ?f)) = map (\<lambda>j. j mod QUEUE_SIZE) [b..<d]"
    using ok by (simp_all add: fe_ok_def fe_queues_ok_def)
  consider (answer) "ocont (cq (be_qp ?f)) \<noteq> []" | (holds) "be_held ?s \<noteq> []"
    | (queued) "ocont (wq (be_qp ?f)) \<noteq> []"
    | (none) "ocont (cq (be_qp ?f)) = []" "be_held ?s = []" "ocont (wq (be_qp ?f)) = []"
    by blast
  then show ?thesis
  proof cases
    case answer
    show ?thesis
    proof (cases rule: complete_ok[OF ok, of ?R, case_names idle copy finish])
      case idle
      with answer show ?thesis by simp
    next
      case (copy f')
      then show ?thesis by (intro own_done[OF x fe_step.complete[OF copy(1)] copy(3)]) (simp add: work_left_def)
    next
      case (finish f')
      with lt show ?thesis by (intro own_done[OF x fe_step.complete[OF finish(1)] finish(4)]) (simp add: work_left_def)
    qed
  next
    case holds
    from answers[OF x this] obtain y where y: "sys_step\<^sup>*\<^sup>* x y" "inv y" "fe_step P Q E ?s (view y)"
      "Suc (length (be_held (view y))) = length (be_held ?s)" by blast
    from only_answer[OF y(3,4)] obtain i hs b' qp where v: "be_held ?s = i # hs" "push_resp Q i (be_qp ?f) = Some (b', qp)"
      "view y = ?s\<lparr>fe := ?f\<lparr>be_qp := qp\<rparr>, be_held := hs\<rparr>" .
    from ok v(1) have "fok E a b d tc rc (i # hs) (created ?s) ?f" by simp
    from be_answer_ok[OF this] v(2) have r: "fok E a b d tc rc hs (created ?s) (?f\<lparr>be_qp := qp\<rparr>)" "wq qp = wq (be_qp ?f)"
      by auto
    show ?thesis
      by (intro exI[of _ y] exI[of _ b] exI[of _ d] exI[of _ tc] exI[of _ rc])
        (use y(1,2) r in \<open>simp add: v same_py_def be_work_def\<close>)
  next
    case queued
    from takes[OF x this] obtain y where y: "sys_step\<^sup>*\<^sup>* x y" "inv y" "fe_step P Q E ?s (view y)"
      "length (be_held (view y)) = Suc (length (be_held ?s))" by blast
    from only_take[OF y(3,4)] obtain i qp where v: "front_req Q (be_qp ?f) = Some i" "pop_req Q (be_qp ?f) = Some qp"
      "view y = ?s\<lparr>fe := ?f\<lparr>be_qp := qp\<rparr>, be_held := be_held ?s @ [i]\<rparr>" .
    from be_take_ok[OF ok v(1)] v(2) have r: "fok E a b d tc rc (be_held ?s @ [i]) (created ?s) (?f\<lparr>be_qp := qp\<rparr>)"
      "ocont (wq (be_qp ?f)) = i # ocont (wq qp)" by auto
    show ?thesis
      by (intro exI[of _ y] exI[of _ b] exI[of _ d] exI[of _ tc] exI[of _ rc])
        (use y(1,2) r in \<open>simp add: v(3) same_py_def be_work_def\<close>)
  next
    case none
    with q have "d = b" by auto
    show ?thesis
    proof (cases rule: submit_ok[OF ok, of ?R, case_names idle copy finish])
      case idle
      with lt \<open>d = b\<close> show ?thesis by simp
    next
      case (copy f')
      then show ?thesis by (intro own_done[OF x fe_step.submit[OF copy(1)] copy(4)]) (simp add: work_left_def)
    next
      case (finish f')
      then show ?thesis by (intro own_done[OF x fe_step.submit[OF finish(1)] finish(4)]) (simp add: work_left_def)
    qed
  qed
qed

lemma drain:
  assumes "inv x" "fok E a b d tc rc (be_held (view x)) (created (view x)) (fe (view x))"
  shows "\<exists>y d' tc' rc'. sys_step\<^sup>*\<^sup>* x y \<and> inv y \<and> same_py (view x) (view y)
    \<and> fok E a (length (created (view y))) d' tc' rc' (be_held (view y)) (created (view y)) (fe (view y))"
  using assms
proof (induction "work_left (length (created (view x))) b d tc rc + be_work ocont (view x)" arbitrary: x b d tc rc rule: less_induct)
  case less
  show ?case
  proof (cases "b < length (created (view x))")
    case True
    from drain_step[OF less.prems True] obtain y b' d' tc' rc' where y: "sys_step\<^sup>*\<^sup>* x y" "inv y" "same_py (view x) (view y)"
      "fok E a b' d' tc' rc' (be_held (view y)) (created (view y)) (fe (view y))"
      "work_left (length (created (view x))) b' d' tc' rc' + be_work ocont (view y)
        < work_left (length (created (view x))) b d tc rc + be_work ocont (view x)" by blast
    have "created (view y) = created (view x)" using y(3) by (simp add: same_py_def)
    from less.hyps[OF _ y(2,4)] y(5) this obtain z d' tc' rc' where "sys_step\<^sup>*\<^sup>* y z" "inv z" "same_py (view y) (view z)"
      "fok E a (length (created (view z))) d' tc' rc' (be_held (view z)) (created (view z)) (fe (view z))" by auto
    moreover from this y(3) have "same_py (view x) (view z)" by (simp add: same_py_def)
    ultimately show ?thesis using y(1) by (blast intro: rtranclp_trans)
  next
    case False
    with less.prems have "b = length (created (view x))" by (auto simp: fe_ok_def fe_queues_ok_def)
    with less.prems show ?thesis by (intro exI[of _ x]) (auto simp: same_py_def)
  qed
qed

text \<open>From every state within the invariant some order of turns ends the collective under way.\<close>

lemma turns_end:
  "inv x \<Longrightarrow> \<exists>y. sys_step\<^sup>*\<^sup>* x y \<and> inv y \<and> \<not> busy (view y) \<and> given (view y) = given (view x)"
proof (induction "length (todo (view x))" arbitrary: x)
  case 0
  show ?case
  proof (cases "busy (view x)")
    case True
    from view_inv[OF 0(2)] obtain a b d tc rc where "fok E a b d tc rc (be_held (view x)) (created (view x)) (fe (view x))"
      by (rule finvE)
    from drain[OF 0(2) this] obtain y d' tc' rc' where y: "sys_step\<^sup>*\<^sup>* x y" "inv y" "same_py (view x) (view y)"
      "fok E a (length (created (view y))) d' tc' rc' (be_held (view y)) (created (view y)) (fe (view y))" by blast
    from wait_ok[OF y(4)] obtain f' where "wait_collective P (fe (view y)) = Some (True, f')" by metis
    then have "fe_step P Q E (view y) ((view y)\<lparr>fe := f', busy := \<not> True\<rparr>)"
      using 0 y(3) True by (intro fe_step.wait) (auto simp: same_py_def)
    from own[OF y(2) this] obtain z where "sys_step\<^sup>*\<^sup>* y z" "inv z" "view z = (view y)\<lparr>fe := f', busy := \<not> True\<rparr>" by auto
    with y(1,3) show ?thesis by (intro exI[of _ z]) (auto simp: same_py_def)
  qed (use 0 in blast)
next
  case (Suc k)
  then obtain r as where td: "todo (view x) = r # as" by (metis Suc_length_conv)
  from view_inv[OF Suc(3)] obtain a b d tc rc where i: "fok E a b d tc rc (be_held (view x)) (created (view x)) (fe (view x))"
    "list_all fits (todo (view x))" "busy (view x)" using td by (auto elim!: finvE)
  from drain[OF Suc(3) i(1)] obtain y d' tc' rc' where y: "sys_step\<^sup>*\<^sup>* x y" "inv y" "same_py (view x) (view y)"
    "fok E a (length (created (view y))) d' tc' rc' (be_held (view y)) (created (view y)) (fe (view y))" by blast
  have "fits r" using i td by simp
  from can_post[OF y(4) this] obtain fut f' where p: "post_sub_collective P E r (fe (view y)) = Some (True, fut, f')" by blast
  have st: "fe_step P Q E (view y) ((view y)\<lparr>fe := f', todo := as, created := created (view y) @ [last_created f']\<rparr>)"
    using fe_step.post[where s = "view y" and as = as, OF _ _ p] y(3) td i(3) by (simp add: same_py_def)
  from own[OF y(2) st] obtain z where z: "sys_step\<^sup>*\<^sup>* y z" "inv z"
    "view z = (view y)\<lparr>fe := f', todo := as, created := created (view y) @ [last_created f']\<rparr>" by auto
  from Suc(1)[OF _ z(2)] Suc(2) td z(3) obtain v where "sys_step\<^sup>*\<^sup>* z v" "inv v" "\<not> busy (view v)" "given (view v) = given (view z)"
    by auto
  with y(1,3) z show ?case by (intro exI[of _ v]) (auto simp: same_py_def)
qed

end

subsection \<open>A backend that answers\<close>

lemma fe_reach_rtranclp: "fe_reach P Q E s t \<longleftrightarrow> (fe_step P Q E)\<^sup>*\<^sup>* s t"
proof
  show "fe_reach P Q E s t \<Longrightarrow> (fe_step P Q E)\<^sup>*\<^sup>* s t"
    by (induction rule: fe_reach.induct) (auto intro: rtranclp.rtrancl_into_rtrancl)
  show "(fe_step P Q E)\<^sup>*\<^sup>* s t \<Longrightarrow> fe_reach P Q E s t"
    by (induction rule: rtranclp_induct) (auto intro: fe_reach.intros)
qed

context fe_queues begin

lemma step_once:
  assumes "finv E s \<and> even_sizes (given s)" "fe_step P Q E s t" "given t = given s"
  shows "(fe_step P Q E)\<^sup>*\<^sup>* s t \<and> (finv E t \<and> even_sizes (given t)) \<and> fe_step P Q E s t"
  using assms fe_step_inv[OF assms(2)] by auto

text \<open>The backend of the frontend's own step relation is one.\<close>

lemma own_backend: "backend_turns P pcont Q ocont E (\<lambda>s. s) (fe_step P Q E) (\<lambda>s. finv E s \<and> even_sizes (given s))"
proof unfold_locales
  fix s assume s: "finv E s \<and> even_sizes (given s)"
  then obtain a b d tc rc where ok: "fok E a b d tc rc (be_held s) (created s) (fe s)" using finvE by metis
  show "finv E s" using s by (rule conjunct1)
  show "\<exists>y. (fe_step P Q E)\<^sup>*\<^sup>* s y \<and> (finv E y \<and> even_sizes (given y)) \<and> y = t"
    if "fe_step P Q E s t" "given t = given s" for t
    using step_once[OF s that] by blast
  show "\<exists>y. (fe_step P Q E)\<^sup>*\<^sup>* s y \<and> (finv E y \<and> even_sizes (given y)) \<and> fe_step P Q E s y \<and> length (be_held y) = Suc (length (be_held s))"
    if w: "ocont (wq (be_qp (fe s))) \<noteq> []"
  proof -
    obtain i where i: "front_req Q (be_qp (fe s)) = Some i" using w by (auto simp: oq.front_req_eq neq_Nil_conv)
    from be_take_ok[OF ok i] obtain qp where "pop_req Q (be_qp (fe s)) = Some qp" by blast
    from step_once[OF s fe_step.be_take[OF i this]] show ?thesis by force
  qed
  show "\<exists>y. (fe_step P Q E)\<^sup>*\<^sup>* s y \<and> (finv E y \<and> even_sizes (given y)) \<and> fe_step P Q E s y \<and> Suc (length (be_held y)) = length (be_held s)"
    if h: "be_held s \<noteq> []"
  proof -
    obtain i hs where i: "be_held s = i # hs" using h by (auto simp: neq_Nil_conv)
    from ok i have "fok E a b d tc rc (i # hs) (created s) (fe s)" by simp
    from be_answer_ok[OF this] obtain qp where "push_resp Q i (be_qp (fe s)) = Some (True, qp)" by blast
    from step_once[OF s fe_step.be_answer[OF i this]] show ?thesis by (force simp: i)
  qed
qed

lemma can_finish:
  "finv E s \<Longrightarrow> even_sizes (given s) \<Longrightarrow> \<exists>t. fe_reach P Q E s t \<and> \<not> busy t \<and> given t = given s"
  using backend_turns.turns_end[OF own_backend, of E s] by (auto simp: fe_reach_rtranclp)

end

end
