(* ===== verification/FrontendProps.thy ===== *)
theory FrontendProps
  imports FrontendLive
begin

text \<open>
  What the frontend promises: the segments of a collective, the absence of failed asserts, disjoint
  memory, copies and futures in order, and the end of every collective. The witnesses run an
  all-reduce of one segment and a half.
\<close>

interpretation fe_fifo: fe_queues "fifo_ops QUEUE_SIZE" "\<lambda>q. q" "fifo_ops QUEUE_SIZE" "\<lambda>q. q"
  by unfold_locales

interpretation fe_fifo_turns: backend_turns "fifo_ops QUEUE_SIZE" "\<lambda>q. q" "fifo_ops QUEUE_SIZE" "\<lambda>q. q" E "\<lambda>s. s"
  "fe_step (fifo_ops QUEUE_SIZE) (fifo_ops QUEUE_SIZE) E" "\<lambda>s. fe_inv (\<lambda>q. q) (\<lambda>q. q) E s \<and> even_sizes (given s)" for E
  by (rule fe_fifo.own_backend)

subsection \<open>A run\<close>

definition fe_demo_env :: fe_env where
  "fe_demo_env = \<lparr>event_create = (\<lambda>l. 100 + length l), copy_base = 65536, h2d_stream = 1, d2h_stream = 2\<rparr>"

definition fe_demo_args :: post_args where
  "fe_demo_args = \<lparr>pa_code = OP_ALL_REDUCE, pa_root = 0, pa_data = 4096, pa_size = 0,
     pa_group = \<lparr>group_id = 1, group_size = 2, group_rank = 0, group_agg_addr = 0, group_agg_len = 8, switch_ip = 0\<rparr>,
     pa_stream = 7, pa_first = False, pa_last = False, pa_future = False\<rparr>"

definition fe_demo0 :: "(ptr list, ptr list) fe_sys" where
  "fe_demo0 = fe_init [] [] (\<lambda>_. \<lparr>op_code = 0, op_root = 0, op_size = 0, shm_buffer = 0,
     op_group = pa_group fe_demo_args, op_with_fut = 0\<rparr>)"

text \<open>An asynchronous all-reduce of one segment and a half, of which both are posted.\<close>

definition fe_demo_seg :: "nat \<Rightarrow> post_args" where
  "fe_demo_seg = segment_at fe_demo_args 3145728 True"

abbreviation "fe_demo_step \<equiv> fe_step (fifo_ops QUEUE_SIZE) (fifo_ops QUEUE_SIZE) fe_demo_env"

abbreviation "fe_demo_reach \<equiv> fe_reach (fifo_ops QUEUE_SIZE) (fifo_ops QUEUE_SIZE) fe_demo_env fe_demo0"

lemma fe_demo_steps: "\<exists>s1 s2 s. fe_demo_step fe_demo0 s1 \<and> fe_demo_step s1 s2 \<and> fe_demo_step s2 s
   \<and> be_held s1 = [] \<and> be_held s2 = [] \<and> be_held s = [] \<and> busy s \<and> todo s = [] \<and> given s = [fe_demo_seg 0, fe_demo_seg 1]
   \<and> length (created s) = 2 \<and> wq (py_qp (fe s)) = [0, 1] \<and> fe_heap (fe s) 0 \<noteq> None \<and> fe_heap (fe s) 1 \<noteq> None"
proof -
  let ?r = fe_demo_args
  have sc: "segment_count 3145728 = 2" by (simp add: segment_count_def segment_const)
  have u: "unat (3145728 :: u64) = 3145728" by simp
  have l: "[0..<2] = [0, 1::nat]" by (simp add: upt_rec)
  have segs: "post_collective_segments ?r 3145728 True = Some [fe_demo_seg 0, fe_demo_seg 1]"
    using segment_loop_eq[of 3145728 0 ?r True] unfolding u sc post_collective_segments_def fe_demo_seg_def l
    by (simp add: segment_const)
  let ?s1 = "fe_demo0\<lparr>todo := [fe_demo_seg 0, fe_demo_seg 1], busy := True, given := [fe_demo_seg 0, fe_demo_seg 1]\<rparr>"
  have r1: "fe_demo_step fe_demo0 ?s1"
    using fe_step.collective[where s = fe_demo0 and sz = 3145728, OF _ segs] by (simp add: fe_demo0_def fe_init_def)
  have sz: "pa_size (fe_demo_seg 0) = 2097152" "pa_size (fe_demo_seg (Suc 0)) = 1048576"
    by (simp_all add: fe_demo_seg_def segment_at_def segment_const sc)
  note post_sub_defs = post_sub_collective_def recv_all_resp.simps front_resp_def fifo_ops_def create_op_def push_req_def
    ob_available_def cb_available_def ob_allocate_def cb_allocate_def new_copy_buffer_def new_op_buffer_def fe_call_def Let_def
    empty_pair_def new_frontend_def size_const
  have "\<exists>f2 fut. post_sub_collective (fifo_ops QUEUE_SIZE) fe_demo_env (fe_demo_seg 0) (fe ?s1) = Some (True, fut, f2)
     \<and> fe_heap f2 0 \<noteq> None \<and> py_qp f2 = \<lparr>wq = [0], cq = [], num_in_queue = 1\<rparr> \<and> fe_next f2 = 1
     \<and> copy_buf f2 = \<lparr>cb_head = 2097152, cb_tail = 0\<rparr> \<and> op_buf f2 = \<lparr>ob_head = 1, ob_cnt = 1\<rparr>"
    by (simp add: post_sub_defs fe_demo0_def fe_init_def sz QUEUE_SIZE_def)
  then obtain f2 fut where f2: "post_sub_collective (fifo_ops QUEUE_SIZE) fe_demo_env (fe_demo_seg 0) (fe ?s1) = Some (True, fut, f2)"
    "fe_heap f2 0 \<noteq> None" "py_qp f2 = \<lparr>wq = [0], cq = [], num_in_queue = 1\<rparr>" "fe_next f2 = 1"
    "copy_buf f2 = \<lparr>cb_head = 2097152, cb_tail = 0\<rparr>" "op_buf f2 = \<lparr>ob_head = 1, ob_cnt = 1\<rparr>" by blast
  let ?s2 = "?s1\<lparr>fe := f2, todo := [fe_demo_seg 1], created := [last_created f2]\<rparr>"
  have r2: "fe_demo_step ?s1 ?s2"
    using fe_step.post[where s = ?s1 and as = "[fe_demo_seg 1]", OF _ _ f2(1)] by (simp add: fe_demo0_def fe_init_def)
  have "\<exists>f3 fut. post_sub_collective (fifo_ops QUEUE_SIZE) fe_demo_env (fe_demo_seg 1) f2 = Some (True, fut, f3)
     \<and> fe_heap f3 0 \<noteq> None \<and> fe_heap f3 1 \<noteq> None \<and> wq (py_qp f3) = [0, 1]"
    using f2(2) by (simp add: post_sub_defs sz QUEUE_SIZE_def f2(3-6))
  then obtain f3 fut' where f3: "post_sub_collective (fifo_ops QUEUE_SIZE) fe_demo_env (fe_demo_seg 1) f2 = Some (True, fut', f3)"
    "fe_heap f3 0 \<noteq> None" "fe_heap f3 1 \<noteq> None" "wq (py_qp f3) = [0, 1]" by blast
  let ?s3 = "?s2\<lparr>fe := f3, todo := [], created := created ?s2 @ [last_created f3]\<rparr>"
  have r3: "fe_demo_step ?s2 ?s3"
    using fe_step.post[where s = ?s2 and as = "[]" and a = "fe_demo_seg 1" and f = f3 and fut = fut' and b = True] f3(1)
    by (simp add: fe_demo0_def fe_init_def)
  have h: "be_held fe_demo0 = []" by (simp add: fe_demo0_def fe_init_def)
  from r1 r2 r3 h f3 show ?thesis
    by (intro exI[of _ ?s1] exI[of _ ?s2] exI[of _ ?s3]) (simp only: fe_sys.simps simp_thms, simp)
qed

lemma fe_demo_posted: "\<exists>s. fe_demo_reach s \<and> busy s \<and> todo s = [] \<and> given s = [fe_demo_seg 0, fe_demo_seg 1]
   \<and> length (created s) = 2 \<and> wq (py_qp (fe s)) = [0, 1] \<and> fe_heap (fe s) 0 \<noteq> None \<and> fe_heap (fe s) 1 \<noteq> None"
  using fe_demo_steps fe_reach.step[OF fe_reach.step[OF fe_reach.step[OF fe_reach.init]]] by metis

text \<open>And from there to the end.\<close>

lemma fe_demo_even: "given s = [fe_demo_seg 0, fe_demo_seg 1] \<Longrightarrow> even_sizes (given s)"
  by (simp add: even_sizes_def fe_demo_seg_def segment_at_def segment_count_def segment_const)

lemma fe_demo_inv: "fe_demo_reach s \<Longrightarrow> given s = [fe_demo_seg 0, fe_demo_seg 1] \<Longrightarrow> fe_fifo.finv fe_demo_env s"
  unfolding fe_demo0_def by (rule fe_fifo.fe_reach_inv[OF _ _ _ fe_demo_even]) simp_all

lemma fe_demo_ends: "\<exists>s. fe_demo_reach s \<and> \<not> busy s \<and> given s = [fe_demo_seg 0, fe_demo_seg 1]"
proof -
  obtain s where s: "fe_demo_reach s" "given s = [fe_demo_seg 0, fe_demo_seg 1]" using fe_demo_posted by blast
  from fe_fifo.can_finish[OF fe_demo_inv[OF s] fe_demo_even[OF s(2)]] s show ?thesis by (auto intro: fe_reach_trans)
qed

text \<open>A state of the run in which the daemon is about to give the backend an operation.\<close>

lemma fe_demo_submit: "\<exists>s f. fe_demo_reach s \<and> given s = [fe_demo_seg 0, fe_demo_seg 1] \<and> length (created s) = 2
   \<and> fe_post_op (fifo_ops QUEUE_SIZE) (fifo_ops QUEUE_SIZE) fe_demo_env (\<lambda>_. True) (fe s) = Some (True, f)
   \<and> wq (be_qp f) \<noteq> wq (be_qp (fe s))"
proof -
  obtain s where s: "fe_demo_reach s" "length (created s) = 2" "wq (py_qp (fe s)) = [0, 1]"
    "given s = [fe_demo_seg 0, fe_demo_seg 1]"
    using fe_demo_posted by blast
  from fe_demo_inv[OF s(1,4)] obtain a b d tc rc where
    ok: "fe_fifo.fok fe_demo_env a b d tc rc (be_held s) (created s) (fe s)" by (rule fe_fifo.finvE)
  then have "[d..<2] = [0, 1]" using s by (simp add: fe_ok_def fe_queues_ok_def)
  then have d: "d < length (created s)" using s(2) by (cases "d < 2") auto
  show ?thesis
  proof (cases rule: fe_fifo.submit_ok[OF ok, of "\<lambda>_. True", case_names idle copy finish])
    case idle
    with d show ?thesis by simp
  next
    case (copy f')
    let ?t = "s\<lparr>fe := f'\<rparr>"
    have t: "fe_demo_reach ?t" by (rule fe_reach.step[OF s(1) fe_step.submit[OF copy(1)]])
    have ok': "fe_fifo.fok fe_demo_env a b d True rc (be_held s) (created s) (fe ?t)" using copy by simp
    show ?thesis
    proof (cases rule: fe_fifo.submit_ok[OF ok', of "\<lambda>_. True", case_names idle copy' finish])
      case (finish g)
      with t s show ?thesis by (intro exI[of _ ?t] exI[of _ g]) simp
    qed (use d in simp_all)
  next
    case (finish f')
    with s show ?thesis by (intro exI[of _ s] exI[of _ f']) simp
  qed
qed

text \<open>The same with nothing taken by the backend: the run a backend starts from.\<close>

abbreviation "fe_demo_own \<equiv> \<lambda>s t. fe_demo_step s t \<and> be_held t = be_held s"

lemma fe_demo_own_reach: "fe_demo_own\<^sup>*\<^sup>* fe_demo0 s \<Longrightarrow> fe_demo_reach s"
  by (induction rule: rtranclp_induct) (auto intro: fe_reach.init fe_reach.step)

lemma fe_demo_submitted: "\<exists>s. fe_demo_own\<^sup>*\<^sup>* fe_demo0 s \<and> given s = [fe_demo_seg 0, fe_demo_seg 1]
   \<and> be_held s = [] \<and> wq (be_qp (fe s)) \<noteq> []"
proof -
  obtain s1 s2 s where st: "fe_demo_step fe_demo0 s1" "fe_demo_step s1 s2" "fe_demo_step s2 s"
    "be_held s1 = []" "be_held s2 = []" "be_held s = []" "given s = [fe_demo_seg 0, fe_demo_seg 1]"
    "length (created s) = 2" "wq (py_qp (fe s)) = [0, 1]" using fe_demo_steps by blast
  have "be_held fe_demo0 = []" by (simp add: fe_demo0_def fe_init_def)
  then have own: "fe_demo_own\<^sup>*\<^sup>* fe_demo0 s"
    using st rtranclp.rtrancl_into_rtrancl[OF rtranclp.rtrancl_into_rtrancl[OF r_into_rtranclp[of fe_demo_own fe_demo0 s1], of s2], of s]
    by simp
  have submit: "fe_demo_own\<^sup>*\<^sup>* fe_demo0 (u\<lparr>fe := g\<rparr>)" if "fe_demo_own\<^sup>*\<^sup>* fe_demo0 u"
    "fe_post_op (fifo_ops QUEUE_SIZE) (fifo_ops QUEUE_SIZE) fe_demo_env (\<lambda>_. True) (fe u) = Some (True, g)" for u g
    using rtranclp.rtrancl_into_rtrancl[OF that(1), of "u\<lparr>fe := g\<rparr>"] fe_step.submit[OF that(2)] by simp
  from fe_demo_inv[OF fe_demo_own_reach[OF own] st(7)] obtain a b d tc rc where
    ok: "fe_fifo.fok fe_demo_env a b d tc rc (be_held s) (created s) (fe s)" by (rule fe_fifo.finvE)
  then have "[d..<2] = [0, 1]" using st by (simp add: fe_ok_def fe_queues_ok_def)
  then have d: "d < length (created s)" using st by (cases "d < 2") auto
  have fin: ?thesis if "fe_demo_own\<^sup>*\<^sup>* fe_demo0 (s\<lparr>fe := g\<rparr>)" "wq (be_qp g) \<noteq> []" for g
    using that st by (intro exI[of _ "s\<lparr>fe := g\<rparr>"]) simp
  show ?thesis
  proof (cases rule: fe_fifo.submit_ok[OF ok, of "\<lambda>_. True", case_names idle copy finish])
    case idle
    with d show ?thesis by simp
  next
    case (copy f')
    note t = submit[OF own copy(1)]
    show ?thesis
    proof (cases rule: fe_fifo.submit_ok[OF copy(4), of "\<lambda>_. True", case_names idle copy' finish])
      case (finish g)
      with submit[OF t, of g] show ?thesis by (intro fin[of g]) auto
    qed (use d in simp_all)
  next
    case (finish f')
    with submit[OF own, of f'] show ?thesis by (intro fin[of f']) auto
  qed
qed

subsection \<open>Properties\<close>

text \<open>
  C22: A collective of any size is cut into consecutive segments that cover its bytes exactly: the
  \<open>i\<close>-th starts at \<open>i\<close> times the segment size, all are full but the last, which takes the rest;
  the first alone is flagged first, the last alone is flagged last and carries the future, if one
  is asked for; an empty collective is one empty segment that is both.
\<close>

theorem segments_tile:
  assumes "unat sz + FRONTEND_SEGMENT_SIZE < 2 ^ 64"
  shows "\<exists>segs. post_collective_segments r sz async = Some segs
    \<and> length segs = max 1 ((unat sz + FRONTEND_SEGMENT_SIZE - 1) div FRONTEND_SEGMENT_SIZE)
    \<and> (\<Sum>s\<leftarrow>segs. unat (pa_size s)) = unat sz
    \<and> (\<forall>i<length segs. pa_data (segs ! i) = pa_data r + of_nat (i * FRONTEND_SEGMENT_SIZE)
        \<and> unat (pa_size (segs ! i)) = min FRONTEND_SEGMENT_SIZE (unat sz - i * FRONTEND_SEGMENT_SIZE)
        \<and> pa_first (segs ! i) = (i = 0) \<and> pa_last (segs ! i) = (Suc i = length segs)
        \<and> pa_future (segs ! i) = (Suc i = length segs \<and> async))"
proof -
  let ?m = "segment_count (unat sz)"
  let ?segs = "map (segment_at r (unat sz) async) [0..<?m]"
  have m: "0 < ?m" by (simp add: segment_count_def)
  have "post_collective_segments r sz async = Some ?segs"
    using segment_loop_eq[OF assms m] by (simp add: post_collective_segments_def)
  moreover have len: "unat (pa_size (segment_at r (unat sz) async i)) = min FRONTEND_SEGMENT_SIZE (unat sz - i * FRONTEND_SEGMENT_SIZE)"
    if "i < ?m" for i
  proof (cases "Suc i = ?m")
    case True
    then have "unat sz \<le> Suc i * FRONTEND_SEGMENT_SIZE" using segment_last_iff[OF that] by blast
    then have "unat sz - i * FRONTEND_SEGMENT_SIZE \<le> FRONTEND_SEGMENT_SIZE" by simp
    with True show ?thesis by (simp add: segment_at_def unat_of_nat_small segment_const)
  next
    case False
    then have "\<not> unat sz \<le> Suc i * FRONTEND_SEGMENT_SIZE" using segment_last_iff[OF that] by blast
    with False show ?thesis by (simp add: segment_at_def segment_const)
  qed
  moreover have "(\<Sum>s\<leftarrow>?segs. unat (pa_size s)) = unat sz"
  proof -
    have "k \<le> ?m \<Longrightarrow> (\<Sum>i\<leftarrow>[0..<k]. unat (pa_size (segment_at r (unat sz) async i))) = min (unat sz) (k * FRONTEND_SEGMENT_SIZE)" for k
    proof (induction k)
      case (Suc k)
      have "min n x + min s (n - x) = min n (s + x)" for n x s :: nat by linarith
      with Suc len[of k] show ?case by simp
    qed simp
    from this[of ?m] segment_last_iff[of "?m - 1" "unat sz"] m show ?thesis by (simp add: comp_def)
  qed
  ultimately show ?thesis
    by (intro exI[of _ ?segs]) (simp add: segment_at_def Let_def, simp add: segment_count_def)
qed

theorem segments_tile_witness:
  "\<exists>segs. post_collective_segments fe_demo_args 3145728 True = Some segs \<and> length segs = 2
     \<and> unat (pa_size (segs ! 1)) = 1048576 \<and> pa_future (segs ! 1)"
proof -
  have u: "unat (3145728 :: u64) = 3145728" by simp
  show ?thesis using segments_tile[of 3145728 fe_demo_args True] unfolding u by (auto simp: segment_const)
qed


text \<open>
  C8: When every collective has an even number of bytes: however the turns of the two threads, the copy completions and the backend interleave, no
  assert of the frontend fails and no call blocks: the Python thread can post or wait, the daemon
  can turn whatever \<open>cudaEventQuery\<close> answers, and the backend can answer.
\<close>

theorem frontend_never_aborts:
  assumes "fe_queues P pcont Q ocont" and "pcont p = []" and "ocont q = []"
    and "fe_reach P Q E (fe_init p q m) s" and "even_sizes (given s)"
  shows "(todo s = [] \<or> post_sub_collective P E (hd (todo s)) (fe s) \<noteq> None)
    \<and> wait_collective P (fe s) \<noteq> None
    \<and> (\<forall>ready. fe_complete_op P Q E ready (fe s) \<noteq> None \<and> fe_post_op P Q E ready (fe s) \<noteq> None)
    \<and> (\<forall>ready ready'. daemon_turn P Q E ready ready' (fe s) \<noteq> None)
    \<and> (be_held s = [] \<or> push_resp Q (hd (be_held s)) (be_qp (fe s)) \<noteq> None)"
proof -
  note L = fe_queues.post_sub_ok[OF assms(1)] fe_queues.wait_ok[OF assms(1)] fe_queues.complete_ok[OF assms(1)]
    fe_queues.submit_ok[OF assms(1)] fe_queues.be_answer_ok[OF assms(1)]
  from fe_queues.fe_reach_inv[OF assms(1,4,2,3,5)] obtain a b d tc rc where ok: "list_all fits (todo s)"
    "fe_ok pcont ocont E a b d tc rc (be_held s) (created s) (fe s)"
    by (rule fe_queues.finvE[OF assms(1)])
  have "post_sub_collective P E (hd (todo s)) (fe s) \<noteq> None" if "todo s \<noteq> []"
  proof -
    have "even (unat (pa_size (hd (todo s))))" using ok(1) that by (cases "todo s") (auto simp: fits_def)
    from L(1)[OF ok(2) this] show ?thesis by (metis option.distinct(1))
  qed
  moreover have "wait_collective P (fe s) \<noteq> None"
    by (rule L(2)[OF ok(2)]) simp
  moreover have c: "\<exists>r f b' rc'. fe_complete_op P Q E ready (fe s) = Some (r, f)
      \<and> fe_ok pcont ocont E a b' d tc rc' (be_held s) (created s) f" for ready
    using L(3)[OF ok(2), of ready] ok(2) by metis
  moreover have t: "fe_post_op P Q E ready f \<noteq> None" if "fe_ok pcont ocont E a b' d tc rc' (be_held s) (created s) f" for ready b' rc' f
    using L(4)[OF that, of ready] by (metis option.distinct(1))
  moreover have "daemon_turn P Q E ready ready' (fe s) \<noteq> None" for ready ready'
  proof -
    from c[of ready] obtain r f b' rc' where "fe_complete_op P Q E ready (fe s) = Some (r, f)"
      "fe_ok pcont ocont E a b' d tc rc' (be_held s) (created s) f" by blast
    with t[of b' rc' f ready'] show ?thesis by (auto simp: daemon_turn_def)
  qed
  moreover have "push_resp Q (hd (be_held s)) (be_qp (fe s)) \<noteq> None" if "be_held s \<noteq> []"
  proof -
    from that ok(2) have "fe_ok pcont ocont E a b d tc rc (hd (be_held s) # tl (be_held s)) (created s) (fe s)" by simp
    from L(5)[OF this] show ?thesis by (metis option.distinct(1))
  qed
  ultimately show ?thesis using ok(2) by (metis option.distinct(1))
qed

theorem frontend_never_aborts_witness:
  "\<exists>s. fe_demo_reach s \<and> wq (py_qp (fe s)) = [0, 1]
     \<and> daemon_turn (fifo_ops QUEUE_SIZE) (fifo_ops QUEUE_SIZE) fe_demo_env (\<lambda>_. True) (\<lambda>_. False) (fe s) \<noteq> None"
proof -
  obtain s where s: "fe_demo_reach s" "wq (py_qp (fe s)) = [0, 1]" "given s = [fe_demo_seg 0, fe_demo_seg 1]" using fe_demo_posted by blast
  from frontend_never_aborts[OF fe_fifo.fe_queues_axioms refl refl s(1)[unfolded fe_demo0_def] fe_demo_even[OF s(3)]] s show ?thesis by blast
qed

text \<open>
  C14: Two operations under way, of collectives of even sizes, never share memory: their entries of \<open>op_buffer\<close> differ and their byte
  ranges, read back from the addresses the operations carry, do not overlap and lie in the
  usable part of the copy buffer.
\<close>

theorem frontend_memory_disjoint:
  assumes "fe_queues P pcont Q ocont" and "pcont p = []" and "ocont q = []"
    and "fe_reach P Q E (fe_init p q m) s" and "even_sizes (given s)"
    and "fe_heap (fe s) i = Some v" and "fe_heap (fe s) j = Some w" and "i \<noteq> j"
  shows "wf_op v \<noteq> wf_op w
    \<and> (let off = (\<lambda>x. unat (shm_buffer (op_mem (fe s) (wf_op x)) - copy_base E));
          len = (\<lambda>x. unat (op_size (op_mem (fe s) (wf_op x))))
       in (off v + len v \<le> off w \<or> off w + len w \<le> off v) \<and> off v + len v \<le> SHM_COPY_BUFFER_SIZE)"
proof -
  from fe_queues.fe_reach_inv[OF assms(1,4,2,3,5)] obtain a b d tc rc where ok:
    "fe_ok pcont ocont E a b d tc rc (be_held s) (created s) (fe s)"
    by (rule fe_queues.finvE[OF assms(1)])
  let ?h = "created s"
  have mem: "fe_mem_ok E ?h a (fe s)" and heap: "fe_heap (fe s) = live_records ?h a b d tc rc" and hist: "fe_hist_ok E ?h"
    using ok by (simp_all add: fe_ok_def)
  have live: "a \<le> k \<and> k < length ?h \<and> wf_op x = k mod QUEUE_SIZE \<and> op_mem (fe s) (wf_op x) = fst (?h ! k)"
    if "fe_heap (fe s) k = Some x" for k x
    using that heap hist mem by (auto simp: live_records_def fe_hist_ok_def fe_mem_ok_def split: if_splits)
  note li = live[OF assms(6)] and lj = live[OF assms(7)]
  have room: "length ?h - a \<le> QUEUE_SIZE" using mem by (simp add: fe_mem_ok_def)
  have "wf_op v \<noteq> wf_op w" using live_mod_inj[of i j a "length ?h"] li lj room assms(8) by auto
  moreover have "apart (range_of E (?h ! i)) (range_of E (?h ! j))"
    using fe_queues.fok_apart[OF assms(1) ok] li lj assms(8) by simp
  moreover note fe_queues.fok_range[OF assms(1) ok, of i]
  ultimately show ?thesis using li lj by (auto simp: range_of_def apart_def Let_def)
qed

theorem frontend_memory_disjoint_witness:
  "\<exists>s v w. fe_demo_reach s \<and> fe_heap (fe s) 0 = Some v \<and> fe_heap (fe s) 1 = Some w \<and> wf_op v \<noteq> wf_op w"
proof -
  obtain s v w where s: "fe_demo_reach s" "fe_heap (fe s) 0 = Some v" "fe_heap (fe s) 1 = Some w"
    "given s = [fe_demo_seg 0, fe_demo_seg 1]" using fe_demo_posted by blast
  from frontend_memory_disjoint[OF fe_fifo.fe_queues_axioms refl refl s(1)[unfolded fe_demo0_def] fe_demo_even[OF s(4)] s(2,3)] s show ?thesis by auto
qed

text \<open>
  C6: When every collective has an even number of bytes, every operation is copied to the host at most once, and to the device at most once, with its own
  addresses and size, in the order the operations were created; those that the backend has
  been given (\<open>d\<close>) have been copied to the host if they send; those that are completed (\<open>b\<close>)
  have been copied to the device if they receive, and their futures alone are marked, once each. The backend's queues hold
  exactly the operations from \<open>b\<close> to \<open>d\<close>, in order.
\<close>

theorem frontend_copies_in_order:
  assumes "fe_queues P pcont Q ocont" and "pcont p = []" and "ocont q = []"
    and "fe_reach P Q E (fe_init p q m) s" and "even_sizes (given s)"
  shows "\<exists>b d tc rc. b \<le> d \<and> d \<le> length (created s)
    \<and> filter is_d2h (fe_log (fe s)) = concat (map (d2h_of E) (take (d + (if tc then 1 else 0)) (created s)))
    \<and> filter is_h2d (fe_log (fe s)) = concat (map (h2d_of E) (take (b + (if rc then 1 else 0)) (created s)))
    \<and> filter is_mark (fe_log (fe s)) = concat (map mark_of (take b (created s)))
    \<and> ocont (cq (be_qp (fe s))) @ be_held s @ ocont (wq (be_qp (fe s))) = map (\<lambda>j. j mod QUEUE_SIZE) [b..<d]
    \<and> (\<exists>prev. given s = prev @ todo s \<and> list_all2 made_for prev (created s))"
proof -
  from fe_queues.fe_reach_inv[OF assms(1,4,2,3,5)] obtain a b d tc rc prev where ok:
    "fe_ok pcont ocont E a b d tc rc (be_held s) (created s) (fe s)" "given s = prev @ todo s" "list_all2 made_for prev (created s)"
    by (rule fe_queues.finvE[OF assms(1)])
  have "b \<le> d" "d \<le> length (created s)"
    "ocont (cq (be_qp (fe s))) @ be_held s @ ocont (wq (be_qp (fe s))) = map (\<lambda>j. j mod QUEUE_SIZE) [b..<d]"
    "fe_log_ok E (created s) b d tc rc (fe_log (fe s))"
    using ok(1) by (simp_all add: fe_ok_def fe_queues_ok_def)
  with ok(2,3) show ?thesis unfolding fe_log_ok_def by blast
qed

theorem frontend_copies_in_order_witness:
  "\<exists>s b. fe_demo_reach s \<and> b \<le> 2 \<and> filter is_mark (fe_log (fe s)) = concat (map mark_of (take b (created s)))
     \<and> list_all2 made_for [fe_demo_seg 0, fe_demo_seg 1] (created s)"
proof -
  obtain s where s: "fe_demo_reach s" "length (created s) = 2" "todo s = []" "given s = [fe_demo_seg 0, fe_demo_seg 1]"
    using fe_demo_posted by blast
  from frontend_copies_in_order[OF fe_fifo.fe_queues_axioms refl refl s(1)[unfolded fe_demo0_def] fe_demo_even[OF s(4)]] s
  obtain b d prev where b: "b \<le> d" "d \<le> length (created s)" "filter is_mark (fe_log (fe s)) = concat (map mark_of (take b (created s)))"
    and "given s = prev @ todo s" "list_all2 made_for prev (created s)" by (elim exE conjE)
  with s have "list_all2 made_for [fe_demo_seg 0, fe_demo_seg 1] (created s)" by simp
  moreover have "b \<le> 2" using b(1,2) s(2) by simp
  ultimately show ?thesis using s(1) b(3) by blast
qed

text \<open>
  C23: When \<open>post_collective_c\<close> returns, and every collective so far had an even number of bytes, the work of all of them has been handed to CUDA in full:
  an operation has been made for every segment, every copy of every one of them has been issued exactly
  once and in order, every future is marked, and all memory has been given back: no record is left on the heap, \<open>op_buffer\<close> has
  all its entries and the copy buffer is empty.
\<close>

theorem collective_returns_done:
  assumes "fe_queues P pcont Q ocont" and "pcont p = []" and "ocont q = []"
    and "fe_reach P Q E (fe_init p q m) s" and "even_sizes (given s)" and "\<not> busy s"
  shows "list_all2 made_for (given s) (created s)
    \<and> filter is_d2h (fe_log (fe s)) = concat (map (d2h_of E) (created s))
    \<and> filter is_h2d (fe_log (fe s)) = concat (map (h2d_of E) (created s))
    \<and> filter is_mark (fe_log (fe s)) = concat (map mark_of (created s))
    \<and> fe_heap (fe s) = Map.empty \<and> unat (ob_available (op_buf (fe s))) = QUEUE_SIZE
    \<and> cb_head (copy_buf (fe s)) = cb_tail (copy_buf (fe s))"
proof -
  from fe_queues.fe_reach_inv[OF assms(1,4,2,3,5)] obtain a b d tc rc prev where ok:
    "fe_ok pcont ocont E a b d tc rc (be_held s) (created s) (fe s)" "\<not> busy s \<longrightarrow> a = length (created s)"
    "\<not> busy s \<longrightarrow> todo s = []" "given s = prev @ todo s" "list_all2 made_for prev (created s)"
    by (rule fe_queues.finvE[OF assms(1)])
  have a: "a = length (created s)" using ok assms by blast
  note i = fe_queues.fok_idle[OF assms(1) ok(1) a]
  have "unat (ob_cnt (op_buf (fe s))) = 0" using ok(1) a by (simp add: fe_ok_def fe_mem_ok_def)
  then have "unat (ob_available (op_buf (fe s))) = QUEUE_SIZE"
    by (simp add: ob_available_def unat_eq_0 QUEUE_SIZE_def)
  moreover have "cb_inv (copy_buf (fe s)) []" using ok(1) a by (simp add: fe_ok_def fe_mem_ok_def)
  then have "cb_head (copy_buf (fe s)) = cb_tail (copy_buf (fe s))" by (auto simp: cb_inv_def word_unat_eq_iff)
  ultimately show ?thesis using ok i a assms(6)
    by (auto simp: fe_ok_def fe_log_ok_def live_records_def fun_eq_iff)
qed

theorem collective_returns_done_witness:
  "\<exists>s. fe_demo_reach s \<and> list_all2 made_for [fe_demo_seg 0, fe_demo_seg 1] (created s) \<and> fe_heap (fe s) = Map.empty
     \<and> cb_head (copy_buf (fe s)) = cb_tail (copy_buf (fe s))"
proof -
  obtain s where s: "fe_demo_reach s" "\<not> busy s" "given s = [fe_demo_seg 0, fe_demo_seg 1]" using fe_demo_ends by blast
  from collective_returns_done[OF fe_fifo.fe_queues_axioms refl refl s(1)[unfolded fe_demo0_def] fe_demo_even[OF s(3)] s(2)] s show ?thesis by auto
qed

text \<open>
  C15: No collective of an even number of bytes gets stuck: from every state reachable with such collectives there is an order of turns, with CUDA
  completing its copies and the backend answering, after which \<open>post_collective_c\<close> has returned
  and all its segments have been posted, although the buffers are far smaller than the tensor.
\<close>

theorem collective_can_finish:
  assumes "fe_queues P pcont Q ocont" and "pcont p = []" and "ocont q = []"
    and "fe_reach P Q E (fe_init p q m) s" and "even_sizes (given s)"
  shows "\<exists>t. fe_reach P Q E s t \<and> \<not> busy t \<and> todo t = [] \<and> given t = given s \<and> length (created t) = length (given s)"
proof -
  from fe_queues.can_finish[OF assms(1) fe_queues.fe_reach_inv[OF assms(1,4,2,3,5)] assms(5)]
  obtain t where t: "fe_reach P Q E s t" "\<not> busy t" "given t = given s" by blast
  from fe_reach_trans[OF t(1) assms(4)] have "fe_inv pcont ocont E t"
    by (rule fe_queues.fe_reach_inv[OF assms(1) _ assms(2,3)]) (use assms(5) t(3) in simp)
  with t show ?thesis unfolding fe_inv_def by (intro exI[of _ t]) (auto dest: list_all2_lengthD)
qed

theorem collective_can_finish_witness:
  "\<exists>s t. fe_demo_reach s \<and> wq (py_qp (fe s)) = [0, 1] \<and> fe_reach (fifo_ops QUEUE_SIZE) (fifo_ops QUEUE_SIZE) fe_demo_env s t
     \<and> \<not> busy t \<and> length (created t) = 2"
proof -
  obtain s where s: "fe_demo_reach s" "wq (py_qp (fe s)) = [0, 1]" "given s = [fe_demo_seg 0, fe_demo_seg 1]"
    using fe_demo_posted by blast
  from collective_can_finish[OF fe_fifo.fe_queues_axioms refl refl s(1)[unfolded fe_demo0_def] fe_demo_even[OF s(3)]] s show ?thesis by fastforce
qed

text \<open>
  C24: With collectives of even sizes, an operation that sends is given to the backend only by a turn in which CUDA reports the event
  of its record complete, after its copy to the host was issued; the turn gives the backend exactly
  the next operation.
\<close>

theorem submit_after_copy:
  assumes "fe_queues P pcont Q ocont" and "pcont p = []" and "ocont q = []"
    and "fe_reach P Q E (fe_init p q m) s" and "even_sizes (given s)"
    and "fe_post_op P Q E ready (fe s) = Some (r, f)" and "ocont (wq (be_qp f)) \<noteq> ocont (wq (be_qp (fe s)))"
  shows "\<exists>d op w. d < length (created s) \<and> created s ! d = (op, w)
    \<and> ocont (wq (be_qp f)) = ocont (wq (be_qp (fe s))) @ [d mod QUEUE_SIZE]
    \<and> (need_tx op \<longrightarrow> ready (wf_event w))
    \<and> filter is_d2h (fe_log (fe s)) = concat (map (d2h_of E) (take (Suc d) (created s)))"
proof -
  from fe_queues.fe_reach_inv[OF assms(1,4,2,3,5)] obtain a b d tc rc where ok:
    "fe_ok pcont ocont E a b d tc rc (be_held s) (created s) (fe s)"
    by (rule fe_queues.finvE[OF assms(1)])
  show ?thesis
  proof (cases rule: fe_queues.submit_ok[OF assms(1) ok, of ready, case_names idle copy finish])
    case idle
    with assms(6,7) show ?thesis by simp
  next
    case (copy f')
    with assms(6,7) show ?thesis by simp
  next
    case (finish f')
    obtain op w where x: "created s ! d = (op, w)" by fastforce
    have l: "filter is_d2h (fe_log (fe s)) = concat (map (d2h_of E) (take (d + (if tc then 1 else 0)) (created s)))"
      using ok by (simp add: fe_ok_def fe_log_ok_def)
    have "filter is_d2h (fe_log (fe s)) = concat (map (d2h_of E) (take (Suc d) (created s)))"
    proof (cases "need_tx op")
      case True
      with finish(3) x l show ?thesis by simp
    next
      case False
      moreover from this ok x have "\<not> tc" by (auto simp: fe_ok_def)
      moreover have "d2h_of E (op, w) = []" using False by (simp add: d2h_of_def)
      ultimately show ?thesis using l x finish(2) by (simp add: take_Suc_conv_app_nth)
    qed
    with finish x assms(6) show ?thesis by (intro exI[of _ d] exI[of _ op] exI[of _ w]) auto
  qed
qed

theorem submit_after_copy_witness:
  "\<exists>s d. fe_demo_reach s \<and> d < (2::nat)
     \<and> filter is_d2h (fe_log (fe s)) = concat (map (d2h_of fe_demo_env) (take (Suc d) (created s)))"
proof -
  obtain s f where s: "fe_demo_reach s" "length (created s) = 2"
    "fe_post_op (fifo_ops QUEUE_SIZE) (fifo_ops QUEUE_SIZE) fe_demo_env (\<lambda>_. True) (fe s) = Some (True, f)"
    "wq (be_qp f) \<noteq> wq (be_qp (fe s))" "given s = [fe_demo_seg 0, fe_demo_seg 1]" using fe_demo_submit by blast
  from submit_after_copy[OF fe_fifo.fe_queues_axioms refl refl s(1)[unfolded fe_demo0_def] fe_demo_even[OF s(5)] s(3,4)] s show ?thesis by auto
qed
end
