(* ===== verification/NodeSystem.thy ===== *)
theory NodeSystem
  imports LbSystem FrontendProps
begin

text \<open>
  One node: the frontend and the load balancer on the two sides of the queue pair in the shared
  memory, and the workers behind the load balancer. \<open>FrontendSystem\<close> leaves the backend open: it may take
  operations and answer them in order. \<open>LbSystem\<close> leaves the frontend open: operations come, and the memory
  behind their addresses does not change. Here each is put in the other's place. The load balancer
  reads the entries of \<open>op_buffer\<close> as they are at that moment, although the frontend uses an entry again for
  a later operation.

  The queue pair is the frontend's \<open>be_qp\<close>; \<open>be_held\<close> is what the load balancer has taken and not answered.
\<close>

subsection \<open>Steps\<close>

record ('p, 'o, 's) node =
  front :: "('p, 'o) fe_sys"
  n_qps :: "'s queue_pair list"
  n_heap :: "ptr \<rightharpoonup> sub_op_t"
  n_next :: ptr
  n_held :: "ptr list list"

definition node_qp :: "('p, 'o, 's) node \<Rightarrow> 'o queue_pair" where
  "node_qp s = be_qp (fe (front s))"

definition node_ops :: "('p, 'o, 's) node \<Rightarrow> ptr \<Rightarrow> op_t" where
  "node_ops s = op_mem (fe (front s))"

definition node_lb :: "('p, 'o, 's) node \<Rightarrow> ('o, 's) lb_state" where
  "node_lb s = \<lparr>shm_qp = node_qp s, worker_qp = n_qps s, sub_heap = n_heap s, next_sub = n_next s\<rparr>"

definition node_put :: "('o, 's) lb_state \<Rightarrow> ptr list \<Rightarrow> ('p, 'o, 's) node \<Rightarrow> ('p, 'o, 's) node" where
  "node_put l hs s = s\<lparr>front := (front s)\<lparr>fe := (fe (front s))\<lparr>be_qp := shm_qp l\<rparr>, be_held := hs\<rparr>,
     n_qps := worker_qp l, n_heap := sub_heap l, n_next := next_sub l\<rparr>"

definition node_init :: "'p \<Rightarrow> 'o \<Rightarrow> 's \<Rightarrow> nat \<Rightarrow> (nat \<Rightarrow> op_t) \<Rightarrow> ('p, 'o, 's) node" where
  "node_init p q w n m = \<lparr>front = fe_init p q m, n_qps = replicate n (empty_pair w), n_heap = Map.empty,
     n_next = 0, n_held = replicate n []\<rparr>"

text \<open>The moves of the frontend itself leave alone what the load balancer holds.\<close>

inductive node_step :: "('p, ptr) spsc_ops \<Rightarrow> ('o, ptr) spsc_ops \<Rightarrow> ('s, ptr) spsc_ops \<Rightarrow> fe_env
    \<Rightarrow> ('p, 'o, 's) node \<Rightarrow> ('p, 'o, 's) node \<Rightarrow> bool"
  for P :: "('p, ptr) spsc_ops" and Q :: "('o, ptr) spsc_ops" and S :: "('s, ptr) spsc_ops" and E :: fe_env where
  frontend: "fe_step P Q E (front s) t \<Longrightarrow> be_held t = be_held (front s) \<Longrightarrow> node_step P Q S E s (s\<lparr>front := t\<rparr>)"
| complete: "lb_try_complete_op Q S (node_lb s) = Some (b, l) \<Longrightarrow>
    node_step P Q S E s (node_put l (if b then tl (be_held (front s)) else be_held (front s)) s)"
| post: "lb_try_post_op Q S (node_ops s) (node_lb s) = Some (b, l) \<Longrightarrow>
    node_step P Q S E s (node_put l
      (if b then be_held (front s) @ [the (front_req Q (node_qp s))] else be_held (front s)) s)"
| worker_take: "k < length (n_qps s) \<Longrightarrow> front_req S (n_qps s ! k) = Some a \<Longrightarrow> pop_req S (n_qps s ! k) = Some qp \<Longrightarrow>
    node_step P Q S E s (s\<lparr>n_qps := (n_qps s)[k := qp], n_held := (n_held s)[k := n_held s ! k @ [a]]\<rparr>)"
| worker_answer: "k < length (n_qps s) \<Longrightarrow> n_held s ! k = a # as \<Longrightarrow> push_resp S a (n_qps s ! k) = Some (b, qp) \<Longrightarrow>
    node_step P Q S E s (s\<lparr>n_qps := (n_qps s)[k := qp], n_held := (n_held s)[k := as]\<rparr>)"

inductive node_reach :: "('p, ptr) spsc_ops \<Rightarrow> ('o, ptr) spsc_ops \<Rightarrow> ('s, ptr) spsc_ops \<Rightarrow> fe_env
    \<Rightarrow> ('p, 'o, 's) node \<Rightarrow> ('p, 'o, 's) node \<Rightarrow> bool"
  for P :: "('p, ptr) spsc_ops" and Q :: "('o, ptr) spsc_ops" and S :: "('s, ptr) spsc_ops" and E :: fe_env
    and s0 :: "('p, 'o, 's) node" where
  init: "node_reach P Q S E s0 s0"
| step: "node_reach P Q S E s0 s \<Longrightarrow> node_step P Q S E s t \<Longrightarrow> node_reach P Q S E s0 t"

subsection \<open>The two parts of a node\<close>

text \<open>The load balancer's system, seen in a node.\<close>

definition node_view :: "('o \<Rightarrow> ptr list) \<Rightarrow> ('p, 'o, 's) node \<Rightarrow> ('o, 's) lb_sys" where
  "node_view ocont s = \<lparr>lb = node_lb s, w_held = n_held s, pending = be_held (front s),
     submitted = ocont (cq (node_qp s)) @ be_held (front s) @ ocont (wq (node_qp s)), answered = []\<rparr>"

definition owed :: "('s \<Rightarrow> ptr list) \<Rightarrow> ('p, 'o, 's) node \<Rightarrow> nat \<Rightarrow> ptr list" where
  "owed scont s k = scont (cq (n_qps s ! k)) @ n_held s ! k @ scont (wq (n_qps s ! k))"

lemma node_view_simps [simp]:
  "lb (node_view ocont s) = node_lb s" "w_held (node_view ocont s) = n_held s" "pending (node_view ocont s) = be_held (front s)"
  "answered (node_view ocont s) = []"
  "submitted (node_view ocont s) = ocont (cq (node_qp s)) @ be_held (front s) @ ocont (wq (node_qp s))"
  "shm_qp (node_lb s) = node_qp s" "worker_qp (node_lb s) = n_qps s" "sub_heap (node_lb s) = n_heap s" "next_sub (node_lb s) = n_next s"
  by (simp_all add: node_view_def node_lb_def)

lemma node_put_simps [simp]:
  "front (node_put l hs s) = (front s)\<lparr>fe := (fe (front s))\<lparr>be_qp := shm_qp l\<rparr>, be_held := hs\<rparr>"
  "n_qps (node_put l hs s) = worker_qp l" "n_heap (node_put l hs s) = sub_heap l" "n_next (node_put l hs s) = next_sub l"
  "n_held (node_put l hs s) = n_held s" "node_lb (node_put l hs s) = l" "node_ops (node_put l hs s) = node_ops s"
  "node_qp (node_put l hs s) = shm_qp l"
  by (simp_all add: node_put_def node_lb_def node_ops_def node_qp_def)

lemma owed_outstanding: "outstanding scont (node_view ocont s) k = owed scont s k"
  by (simp add: outstanding_def owed_def)

lemma node_put_view:
  assumes "submitted (node_view ocont s) = ocont (cq (shm_qp l)) @ hs @ ocont (wq (shm_qp l))"
  shows "node_view ocont (node_put l hs s) = (node_view ocont s)\<lparr>lb := l, pending := hs\<rparr>"
  using assms by (simp add: node_view_def)

locale node_queues = fq: fe_queues P pcont Q ocont + bq: lb_queues Q ocont S scont
  for P :: "('p, ptr) spsc_ops" and pcont :: "'p \<Rightarrow> ptr list" and Q :: "('o, ptr) spsc_ops" and ocont :: "'o \<Rightarrow> ptr list"
    and S :: "('s, ptr) spsc_ops" and scont :: "'s \<Rightarrow> ptr list"
begin

definition node_ok :: "fe_env \<Rightarrow> nat \<Rightarrow> ('p, 'o, 's) node \<Rightarrow> bool" where
  "node_ok E n s \<longleftrightarrow> fq.finv E (front s) \<and> (\<exists>c d. bq.sys_ok (node_ops s) n c d (node_view ocont s))"

text \<open>What the load balancer holds is a run of the operations made, and their entries are still theirs.\<close>

lemma held_run:
  assumes "fq.fok E a b d tc rc hs h f"
  obtains j where "b \<le> j" "j + length hs \<le> d" "hs = map (\<lambda>i. i mod QUEUE_SIZE) [j..<j + length hs]"
proof -
  let ?j = "b + length (ocont (cq (be_qp f)))"
  have q: "ocont (cq (be_qp f)) @ hs @ ocont (wq (be_qp f)) = map (\<lambda>i. i mod QUEUE_SIZE) [b..<d]"
    using assms by (simp add: fe_ok_def fe_queues_ok_def)
  have "b \<le> d" using assms by (simp add: fe_ok_def fe_queues_ok_def)
  with arg_cong[OF q, of length] have len: "?j + length hs + length (ocont (wq (be_qp f))) = d" by simp
  have "hs = take (length hs) (drop (length (ocont (cq (be_qp f)))) (map (\<lambda>i. i mod QUEUE_SIZE) [b..<d]))"
    unfolding q[symmetric] by simp
  also have "\<dots> = map (\<lambda>i. i mod QUEUE_SIZE) [?j..<?j + length hs]"
    using len by (simp add: drop_map take_map take_upt)
  finally show ?thesis using len by (intro that[of ?j]) auto
qed

lemma held_ops:
  assumes ok: "fq.fok E a b d tc rc hs h f"
  obtains j where "b \<le> j" "j + length hs \<le> d" "\<And>i. i < length hs \<Longrightarrow> hs ! i = wf_op (snd (h ! (j + i)))"
    "\<And>i. i < length hs \<Longrightarrow> op_mem f (hs ! i) = fst (h ! (j + i))"
proof -
  from ok obtain j where j: "b \<le> j" "j + length hs \<le> d" "hs = map (\<lambda>i. i mod QUEUE_SIZE) [j..<j + length hs]"
    by (rule held_run)
  have le: "a \<le> b" "d \<le> length h" using ok by (simp_all add: fe_ok_def fe_queues_ok_def)
  have at: "hs ! i = (j + i) mod QUEUE_SIZE" if "i < length hs" for i
  proof -
    have "hs ! i = map (\<lambda>i. i mod QUEUE_SIZE) [j..<j + length hs] ! i" using j(3) by simp
    with that show ?thesis by simp
  qed
  have w: "wf_op (snd (h ! i)) = i mod QUEUE_SIZE" if "i < length h" for i
    using ok that by (simp add: fe_ok_def fe_hist_ok_def)
  have m: "op_mem f (i mod QUEUE_SIZE) = fst (h ! i)" if "a \<le> i" "i < length h" for i
    using ok that by (simp add: fe_ok_def fe_mem_ok_def)
  show ?thesis
    using j(1,2) le at w m by (intro that[of j]) simp_all
qed

end

context node_queues begin

lemma held_ops_same:
  assumes ok: "fq.fok E a b d tc rc hs h f" and ok': "fq.fok E a' b' d' tc' rc' hs h' f'"
    and le: "a' \<le> b" and ext: "\<exists>ys. h' = h @ ys" and p: "p \<in> set hs"
  shows "op_mem f' p = op_mem f p"
proof -
  from ok obtain j where j: "b \<le> j" "j + length hs \<le> d" "hs = map (\<lambda>i. i mod QUEUE_SIZE) [j..<j + length hs]"
    by (rule held_run)
  from p obtain i where i: "j \<le> i" "i < j + length hs" "p = i mod QUEUE_SIZE" by (subst (asm) j(3)) auto
  have b: "a \<le> b" "d \<le> length h" using ok by (simp_all add: fe_ok_def fe_queues_ok_def)
  have "op_mem f p = fst (h ! i)" using ok i b j by (simp add: fe_ok_def fe_mem_ok_def)
  moreover have "op_mem f' p = fst (h' ! i)"
  proof -
    have "i < length h'" "a' \<le> i" using ext i b j le by auto
    with ok' i(3) show ?thesis by (simp add: fe_ok_def fe_mem_ok_def)
  qed
  ultimately show ?thesis using ext i b j by (auto simp: nth_append)
qed

text \<open>The frontend's own moves change no entry the load balancer holds.\<close>

lemma fe_step_held_ops:
  assumes step: "fe_step P Q E s t" and inv: "fq.finv E s" and same: "be_held t = be_held s" and p: "p \<in> set (be_held s)"
  shows "op_mem (fe t) p = op_mem (fe s) p"
  using inv
proof (rule fq.finvE)
  fix a b d tc rc prev
  assume td: "list_all fits (todo s)" and ok: "fq.fok E a b d tc rc (be_held s) (created s) (fe s)"
  have le: "a \<le> b" using ok by (simp add: fe_ok_def fe_queues_ok_def)
  have keep: ?thesis if "fq.fok E a' b' d' tc' rc' (be_held s) h' (fe t)" "a' \<le> b" "h' = created s @ ys" for a' b' d' tc' rc' h' ys
    using held_ops_same[OF ok that(1,2) _ p] that(3) by blast
  show ?thesis using step
  proof (cases rule: fe_step.cases)
    case (collective sz r async segs)
    then show ?thesis by simp
  next
    case (post r as ret fut f)
    with td have ev: "even (unat (pa_size r))" by (simp add: fits_def)
    show ?thesis
    proof (cases rule: fq.post_sub_ok[OF ok ev, case_names later now])
      case (later f')
      with post keep[of b b d tc rc "created s" "[]"] show ?thesis by simp
    next
      case (now f' x)
      with post keep[of b b d tc rc "created s @ [x]" "[x]"] show ?thesis by simp
    qed
  next
    case (wait w f)
    from fq.wait_ok[OF ok] obtain w' f' where "wait_collective P (fe s) = Some (w', f')"
      "fq.fok E b b d tc rc (be_held s) (created s) f'" .
    with wait keep[of b b d tc rc "created s" "[]"] show ?thesis by simp
  next
    case (complete ready r f)
    have "\<exists>b' rc'. fq.fok E a b' d tc rc' (be_held s) (created s) f"
      using fq.complete_ok[OF ok, of ready] complete(2) ok by (metis option.inject prod.inject)
    with complete keep[of a _ d tc _ "created s" "[]"] le show ?thesis by auto
  next
    case (submit ready r f)
    have "\<exists>d' tc'. fq.fok E a b d' tc' rc (be_held s) (created s) f"
      using fq.submit_ok[OF ok, of ready] submit(2) ok by (metis option.inject prod.inject)
    with submit keep[of a b _ _ rc "created s" "[]"] le show ?thesis by auto
  next
    case (be_take i qp)
    then show ?thesis by simp
  next
    case (be_answer i "is" ret qp)
    then show ?thesis by simp
  qed
qed

text \<open>The load balancer's invariant survives what the frontend does.\<close>

lemma frontend_keeps_lb:
  assumes s: "bq.sys_ok ops n c d (node_view ocont s)" and t: "fq.fok E a b d' tc rc (be_held (front s)) h (fe t)"
    and same: "be_held t = be_held (front s)" and ops: "\<forall>p\<in>set (be_held (front s)). ops' p = ops p" and n: "0 < n"
  shows "bq.sys_ok ops' n c d (node_view ocont (s\<lparr>front := t\<rparr>))"
proof -
  have "fq.oq.ok (length (be_held (front s))) (be_qp (fe t))"
    using t by (simp add: fe_ok_def fe_queues_ok_def)
  moreover have "live_heap ops n c d (be_held (front s)) = live_heap ops' n c d (be_held (front s))"
    using ops bq.sys_okD(3)[OF s] n by (intro live_heap_cong) simp_all
  ultimately show ?thesis
    using bq.sys_okD(1-4,7-9)[OF s] same
    by (simp add: lb_ok_def outstanding_def node_view_def node_lb_def node_qp_def)
qed

end

lemma front_put_same [simp]:
  "(front s)\<lparr>fe := (fe (front s))\<lparr>be_qp := node_qp s\<rparr>, be_held := be_held (front s)\<rparr> = front s"
  by (simp add: node_qp_def)

lemma node_put_same: "node_put (node_lb s) (be_held (front s)) s = s"
  by (simp add: node_put_def node_qp_def)

context node_queues begin

lemma node_okI:
  assumes "fq.finv E (front s)" "bq.sys_ok (node_ops s) n c d (node_view ocont s)"
  shows "node_ok E n s"
  using assms unfolding node_ok_def by blast

text \<open>What the load balancer does to the shared pair is what the frontend expects of its backend.\<close>

lemma lb_complete_ok:
  assumes s: "bq.sys_ok (node_ops s) n c d (node_view ocont s)" and n: "0 < n"
    and r: "lb_try_complete_op Q S (node_lb s) = Some (b, l)"
  obtains c' t where "t = node_put l (if b then tl (be_held (front s)) else be_held (front s)) s"
    "bq.sys_ok (node_ops t) n c' d (node_view ocont t)" "front t = front s \<or> fe_step P Q E (front s) (front t)"
    "t = s \<or> (\<exists>p. be_held (front s) = p # be_held (front t)) \<and> (\<forall>k<n. wq (n_qps t ! k) = wq (n_qps s ! k)
       \<and> bq.sq.answers (n_qps s ! k) \<noteq> [] \<and> bq.sq.answers (n_qps t ! k) = tl (bq.sq.answers (n_qps s ! k)))"
proof -
  have r': "lb_try_complete_op Q S (lb (node_view ocont s)) = Some (b, l)" using r by simp
  from bq.complete_keeps_work[OF s n r'] obtain c' ps where
    k: "bq.sys_ok (node_ops s) n c' d ((node_view ocont s)\<lparr>lb := l, pending := ps\<rparr>)"
    "fq.oq.work (shm_qp l) = fq.oq.work (node_qp s)"
    "ps = (if b then tl (be_held (front s)) else be_held (front s))"
    "b \<longrightarrow> (\<exists>p b'. be_held (front s) = p # ps \<and> push_resp Q p (node_qp s) = Some (b', shm_qp l))"
    "b \<longrightarrow> (\<forall>k<n. wq (worker_qp l ! k) = wq (n_qps s ! k) \<and> bq.sq.answers (n_qps s ! k) \<noteq> []
       \<and> bq.sq.answers (worker_qp l ! k) = tl (bq.sq.answers (n_qps s ! k)))"
    "\<not> b \<longrightarrow> l = node_lb s" unfolding node_view_simps .
  let ?t = "node_put l ps s"
  have "submitted (node_view ocont s) = ocont (cq (shm_qp l)) @ ps @ ocont (wq (shm_qp l))"
    using bq.sys_okD(6)[OF k(1)] by simp
  from node_put_view[OF this] k(1) have v: "bq.sys_ok (node_ops ?t) n c' d (node_view ocont ?t)" by simp
  show ?thesis
  proof (cases b)
    case True
    from k(4) this obtain p b' where p: "be_held (front s) = p # ps"
      "push_resp Q p (be_qp (fe (front s))) = Some (b', shm_qp l)" unfolding node_qp_def by blast
    from fe_step.be_answer[OF p] have "fe_step P Q E (front s) (front ?t)" by simp
    moreover have "?t = node_put l (if b then tl (be_held (front s)) else be_held (front s)) s"
      using True k(3) by (simp only: if_True)
    moreover have "(\<exists>p. be_held (front s) = p # be_held (front ?t)) \<and> (\<forall>k<n. wq (n_qps ?t ! k) = wq (n_qps s ! k)
       \<and> bq.sq.answers (n_qps s ! k) \<noteq> [] \<and> bq.sq.answers (n_qps ?t ! k) = tl (bq.sq.answers (n_qps s ! k)))"
      using k(5) True p(1) by simp
    ultimately show ?thesis using v by (intro that[of ?t c']) blast+
  next
    case False
    with k(3,6) v show ?thesis by (intro that[of ?t c']) (simp_all add: node_put_same)
  qed
qed

lemma lb_post_ok:
  assumes s: "bq.sys_ok (node_ops s) n c d (node_view ocont s)" and n: "0 < n"
    and r: "lb_try_post_op Q S (node_ops s) (node_lb s) = Some (b, l)"
  obtains d' t where
    "t = node_put l (if b then be_held (front s) @ [the (front_req Q (node_qp s))] else be_held (front s)) s"
    "bq.sys_ok (node_ops t) n c d' (node_view ocont t)" "front t = front s \<or> fe_step P Q E (front s) (front t)"
    "t = s \<or> (\<exists>p. be_held (front t) = be_held (front s) @ [p]) \<and> (\<forall>k<n. cq (n_qps t ! k) = cq (n_qps s ! k)
       \<and> bq.sq.work (n_qps t ! k) = bq.sq.work (n_qps s ! k) @ [n_next s + k])"
  using r
proof (cases rule: lb_try_post_op_cases)
  case (1 p)
  have fr: "front_req Q (node_qp s) = Some p" using 1(2) by simp
  then obtain es where es: "fq.oq.work (node_qp s) = p # es" by (auto simp: fq.oq.front_req_eq split: list.splits)
  have "fq.oq.work (shm_qp (lb (node_view ocont s))) = p # es" using es by simp
  from bq.post_keeps[OF s n this 1(4)] obtain l' where l': "lb_try_post_op Q S (node_ops s) (node_lb s) = Some (True, l')"
    "bq.sys_ok (node_ops s) n c (Suc d) ((node_view ocont s)\<lparr>lb := l', pending := be_held (front s) @ [p]\<rparr>)"
    "\<forall>k<n. cq (worker_qp l' ! k) = cq (n_qps s ! k)
       \<and> bq.sq.work (worker_qp l' ! k) = bq.sq.work (n_qps s ! k) @ [n_next s + k]" unfolding node_view_simps .
  have "l' = l" using l'(1) r by simp
  note k = l'(2,3)[unfolded this]
  let ?t = "node_put l (be_held (front s) @ [p]) s"
  have "submitted (node_view ocont s) = ocont (cq (shm_qp l)) @ (be_held (front s) @ [p]) @ ocont (wq (shm_qp l))"
    using bq.sys_okD(6)[OF k(1)] by simp
  from node_put_view[OF this] k(1) have "bq.sys_ok (node_ops ?t) n c (Suc d) (node_view ocont ?t)" by simp
  moreover have "front_req Q (be_qp (fe (front s))) = Some p" "pop_req Q (be_qp (fe (front s))) = Some (shm_qp l)"
    using 1 by (simp_all add: node_qp_def)
  from fe_step.be_take[OF this] have "fe_step P Q E (front s) (front ?t)" by simp
  ultimately show ?thesis using 1(1) fr k(2) by (intro that[of ?t "Suc d"]) simp_all
next
  case 2
  with s show ?thesis by (intro that[of s d]) (simp_all add: node_put_same)
qed

lemma worker_keeps:
  assumes s: "bq.sys_ok (node_ops s) n c d (node_view ocont s)" and k: "k < n"
    and q: "bq.sq.ok (length hs) qp" "bq.sq.answers qp @ hs @ bq.sq.work qp = owed scont s k"
  shows "bq.sys_ok (node_ops s) n c d (node_view ocont (s\<lparr>n_qps := (n_qps s)[k := qp], n_held := (n_held s)[k := hs]\<rparr>))"
  using bq.worker_step_keeps[OF s k q(1)] q(2)
  by (simp add: owed_def) (simp add: node_view_def node_lb_def node_qp_def)

lemma node_step_ok:
  assumes step: "node_step P Q S E s t" and inv: "node_ok E n s" and n: "0 < n" and ev: "even_sizes (given (front t))"
  shows "node_ok E n t \<and> (front t = front s \<or> fe_step P Q E (front s) (front t))"
proof -
  obtain c d where s: "bq.sys_ok (node_ops s) n c d (node_view ocont s)" and f: "fq.finv E (front s)"
    using inv by (auto simp: node_ok_def)
  note D = bq.sys_okD[OF s, simplified]
  have go: ?thesis if "bq.sys_ok (node_ops t) n c' d' (node_view ocont t)"
    "front t = front s \<or> fe_step P Q E (front s) (front t)" for c' d'
  proof -
    have "fq.finv E (front t)" using that(2) f fq.fe_step_inv ev by metis
    with that show ?thesis by (blast intro: node_okI)
  qed
  from step show ?thesis
  proof (cases rule: node_step.cases)
    case (frontend u)
    then have u: "fq.finv E u" using fq.fe_step_inv[OF frontend(2) f] ev frontend(1) by simp
    then obtain a b d' tc rc where ok: "fq.fok E a b d' tc rc (be_held (front s)) (created u) (fe u)"
      using frontend(3) by (metis fq.finvE)
    have "\<forall>p\<in>set (be_held (front s)). node_ops t p = node_ops s p"
      using fe_step_held_ops[OF frontend(2) f frontend(3)] frontend(1) by (simp add: node_ops_def)
    from frontend_keeps_lb[OF s ok frontend(3) this n] frontend show ?thesis by (intro go) simp_all
  next
    case (complete b l)
    from lb_complete_ok[OF s n complete(2)] complete(1) show ?thesis by (metis go)
  next
    case (post b l)
    from lb_post_ok[OF s n post(2)] post(1) show ?thesis by (metis go)
  next
    case (worker_take k a qp)
    then have k: "k < n" using D(1) by simp
    obtain es where es: "bq.sq.work (n_qps s ! k) = a # es"
      using worker_take by (auto simp: bq.sq.front_req_eq split: list.splits)
    from D(8)[OF k] es obtain qp' where "pop_req S (n_qps s ! k) = Some qp'"
      "bq.sq.ok (Suc (length (n_held s ! k))) qp'" "bq.sq.work qp' = es" "cq qp' = cq (n_qps s ! k)"
      by (rule bq.sq.pop_req_cons)
    with worker_take es have "bq.sys_ok (node_ops s) n c d (node_view ocont t)"
      using worker_keeps[OF s k, of "n_held s ! k @ [a]" qp] by (simp add: owed_def)
    with worker_take show ?thesis by (intro go) (simp_all add: node_ops_def)
  next
    case (worker_answer k a as b qp)
    then have k: "k < n" using D(1) by simp
    from D(8)[OF k] worker_answer have "bq.sq.ok (Suc (length as)) (n_qps s ! k)" by simp
    then obtain qp' where "push_resp S a (n_qps s ! k) = Some (True, qp')"
      "bq.sq.ok (length as) qp'" "bq.sq.answers qp' = bq.sq.answers (n_qps s ! k) @ [a]"
      "wq qp' = wq (n_qps s ! k)"
      by (rule bq.sq.push_resp_held[of _ _ a])
    with worker_answer have "bq.sys_ok (node_ops s) n c d (node_view ocont t)"
      using worker_keeps[OF s k, of as qp] by (simp add: owed_def)
    with worker_answer show ?thesis by (intro go) (simp_all add: node_ops_def)
  qed
qed

lemma node_reach_ok:
  assumes r: "node_reach P Q S E (node_init p q w n m) s" and e: "pcont p = []" "ocont q = []" "scont w = []" and n: "0 < n"
    and ev: "even_sizes (given (front s))"
  shows "node_ok E n s \<and> fe_reach P Q E (fe_init p q m) (front s)"
  using r ev
proof (induction rule: node_reach.induct)
  case init
  have "fq.finv E (fe_init p q m)" using fq.fe_reach_inv[OF fe_reach.init e(1,2)] by (simp add: fe_init_def even_sizes_def)
  moreover have "bq.sys_ok ops n 0 0 (node_view ocont (node_init p q w n m))" for ops
    using bq.init_ok[OF e(2,3)] e(2)
    by (simp add: node_init_def fe_init_def new_frontend_def empty_pair_def lb_init_def node_view_def node_lb_def node_qp_def)
  ultimately show ?case by (auto intro!: node_okI simp: node_init_def intro: fe_reach.init)
next
  case (step s t)
  have "set (given (front s)) \<subseteq> set (given (front t))"
    using step.hyps(2) by (cases rule: node_step.cases) (auto dest: fe_step_given[THEN subsetD])
  from step.IH[OF even_sizes_mono[OF step.prems this]] node_step_ok[OF step.hyps(2) _ n step.prems] show ?case
    by (metis fe_reach.step)
qed

end

subsection \<open>The slices of the frontend's operations\<close>

text \<open>Worker \<open>k\<close>'s part of an operation of the frontend.\<close>

definition slice_for :: "nat \<Rightarrow> nat \<Rightarrow> op_t \<times> op_with_fut_t \<Rightarrow> sub_op_t" where
  "slice_for n k x = mk_sub_op n (wf_op (snd x)) (fst x) k (slice_off n (op_size (fst x)) k)"

lemma slice_for_range:
  assumes "0 < n" "n < 2 ^ 31" "k < n"
    and "unat (shm_buffer (fst x) - base) + unat (op_size (fst x)) \<le> SHM_COPY_BUFFER_SIZE"
  shows "unat (sub_data (slice_for n k x) - base) = unat (shm_buffer (fst x) - base) + unat (slice_off n (op_size (fst x)) k)"
    "unat (sub_size (slice_for n k x)) = unat (slice_size n (op_size (fst x)) k)"
proof -
  let ?o = "slice_off n (op_size (fst x)) k"
  have "unat (shm_buffer (fst x) - base) + unat ?o < 2 ^ LENGTH(64)"
    using slice_end_op[OF assms(1-3), of "op_size (fst x)"] assms(4) by (simp add: SHM_COPY_BUFFER_SIZE_def FRONTEND_SEGMENT_SIZE_def)
  then have "unat ((shm_buffer (fst x) - base) + ucast ?o) = unat (shm_buffer (fst x) - base) + unat ?o"
    by (subst unat_add_small) (simp_all add: unat_ucast_u64)
  then show "unat (sub_data (slice_for n k x) - base) = unat (shm_buffer (fst x) - base) + unat ?o"
    by (simp add: slice_for_def mk_sub_op_def algebra_simps)
qed (simp add: slice_for_def mk_sub_op_def)

context node_queues begin

lemma node_okE:
  assumes "node_ok E n s"
  obtains a b d tc rc c' d' j prev where "fq.fok E a b d tc rc (be_held (front s)) (created (front s)) (fe (front s))"
    "bq.sys_ok (node_ops s) n c' d' (node_view ocont s)"
    "b \<le> j" "j + length (be_held (front s)) \<le> d"
    "\<And>i. i < length (be_held (front s)) \<Longrightarrow> be_held (front s) ! i = wf_op (snd (created (front s) ! (j + i)))"
    "\<And>i. i < length (be_held (front s)) \<Longrightarrow> node_ops s (be_held (front s) ! i) = fst (created (front s) ! (j + i))"
    "given (front s) = prev @ todo (front s)" "list_all2 made_for prev (created (front s))"
proof -
  obtain c' d' where s: "bq.sys_ok (node_ops s) n c' d' (node_view ocont s)" and f: "fq.finv E (front s)"
    using assms by (auto simp: node_ok_def)
  let ?h = "created (front s)" and ?hs = "be_held (front s)"
  from f obtain a b d tc rc prev where ok: "fq.fok E a b d tc rc ?hs ?h (fe (front s))"
    and g: "given (front s) = prev @ todo (front s)" "list_all2 made_for prev ?h" by (rule fq.finvE)
  from ok obtain j where j: "b \<le> j" "j + length ?hs \<le> d" "\<And>i. i < length ?hs \<Longrightarrow> ?hs ! i = wf_op (snd (?h ! (j + i)))"
    "\<And>i. i < length ?hs \<Longrightarrow> op_mem (fe (front s)) (?hs ! i) = fst (?h ! (j + i))" by (rule held_ops) blast
  then show ?thesis using ok s g by (intro that[of a b d tc rc c' d' j prev]) (simp_all add: node_ops_def)
qed

lemma node_slices:
  assumes "node_ok E n s"
  shows "\<exists>j. j + length (be_held (front s)) \<le> length (created (front s))
    \<and> (\<forall>k<n. map (n_heap s) (owed scont s k)
        = map (\<lambda>x. Some (slice_for n k x)) (take (length (be_held (front s))) (drop j (created (front s)))))"
  using assms
proof (rule node_okE)
  fix a b d tc rc c' d' j prev
  let ?h = "created (front s)" and ?hs = "be_held (front s)"
  assume ok: "fq.fok E a b d tc rc ?hs ?h (fe (front s))" and s: "bq.sys_ok (node_ops s) n c' d' (node_view ocont s)"
    and j: "j + length ?hs \<le> d"
    and at: "\<And>i. i < length ?hs \<Longrightarrow> ?hs ! i = wf_op (snd (?h ! (j + i)))"
      "\<And>i. i < length ?hs \<Longrightarrow> node_ops s (?hs ! i) = fst (?h ! (j + i))"
  have le: "j + length ?hs \<le> length ?h" using ok j by (simp add: fe_ok_def fe_queues_ok_def)
  have "map (n_heap s) (owed scont s k) = map (\<lambda>x. Some (slice_for n k x)) (take (length ?hs) (drop j ?h))" if "k < n" for k
  proof -
    have "map (n_heap s) (owed scont s k) = map (\<lambda>p. Some (slice_of (node_ops s) n p k)) ?hs"
      using bq.sys_ok_live[OF s that] by (simp add: owed_outstanding)
    also have "\<dots> = map (\<lambda>x. Some (slice_for n k x)) (take (length ?hs) (drop j ?h))"
      using at le by (intro nth_equalityI) (simp_all add: slice_of_def slice_for_def)
    finally show ?thesis .
  qed
  with le show ?thesis by blast
qed

lemma node_apart:
  assumes "node_ok E n s" and n: "0 < n" "n < 2 ^ 31" and x: "n_heap s p = Some x" and y: "n_heap s q = Some y" and ne: "p \<noteq> q"
  defines "off \<equiv> \<lambda>v. unat (sub_data v - copy_base E)" and "len \<equiv> \<lambda>v. unat (sub_size v)"
  shows "(off x + len x \<le> off y \<or> off y + len y \<le> off x) \<and> off x + len x \<le> SHM_COPY_BUFFER_SIZE"
  using assms(1)
proof (rule node_okE)
  fix a b d tc rc c' d' j prev
  let ?h = "created (front s)" and ?hs = "be_held (front s)"
  assume ok: "fq.fok E a b d tc rc ?hs ?h (fe (front s))" and s: "bq.sys_ok (node_ops s) n c' d' (node_view ocont s)"
    and j: "b \<le> j" "j + length ?hs \<le> d"
    and at: "\<And>i. i < length ?hs \<Longrightarrow> ?hs ! i = wf_op (snd (?h ! (j + i)))"
      "\<And>i. i < length ?hs \<Longrightarrow> node_ops s (?hs ! i) = fst (?h ! (j + i))"
  note D = bq.sys_okD(3,7)[OF s, simplified]
  have le: "a \<le> b" "d \<le> length ?h" using ok by (simp_all add: fe_ok_def fe_queues_ok_def)
  have live: "\<exists>i k. c' * n \<le> r \<and> r div n = c' + i \<and> k = r mod n \<and> k < n \<and> a \<le> j + i \<and> j + i < length ?h \<and> v = slice_for n k (?h ! (j + i))"
    if "n_heap s r = Some v" for r v
  proof -
    have r: "c' * n \<le> r" "r < d' * n" "v = slice_of (node_ops s) n (?hs ! (r div n - c')) (r mod n)"
      using that D(2) by (simp_all add: live_heap_def split: if_splits)
    then have i: "c' \<le> r div n" "r div n < d'"
      using n by (simp_all add: less_eq_div_iff_mult_less_eq div_less_iff_less_mult)
    then obtain i where i': "r div n = c' + i" "i < length ?hs" using D(1) by (intro that[of "r div n - c'"]) simp_all
    have "v = slice_for n (r mod n) (?h ! (j + i))"
      using r(3) i' at(1)[OF i'(2)] at(2)[OF i'(2)] by (simp add: slice_of_def slice_for_def)
    with i' r n j le show ?thesis by (intro exI[of _ i] exI[of _ "r mod n"]) simp
  qed
  from live[OF x] obtain i k where i: "c' * n \<le> p" "p div n = c' + i" "k = p mod n" "k < n" "a \<le> j + i" "j + i < length ?h"
    "x = slice_for n k (?h ! (j + i))" by blast
  from live[OF y] obtain i' k' where i': "c' * n \<le> q" "q div n = c' + i'" "k' = q mod n" "k' < n" "a \<le> j + i'" "j + i' < length ?h"
    "y = slice_for n k' (?h ! (j + i'))" by blast
  have dif: "i \<noteq> i' \<or> k \<noteq> k'" using ne i i' by (metis div_mult_mod_eq)
  let ?r = "\<lambda>i. unat (shm_buffer (fst (?h ! (j + i))) - copy_base E)" and ?z = "\<lambda>i. op_size (fst (?h ! (j + i)))"
  note ri = fq.fok_range[OF ok i(5,6)] and ri' = fq.fok_range[OF ok i'(5,6)]
  note si = slice_for_range[OF n i(4) ri] and si' = slice_for_range[OF n i'(4) ri']
  note ei = slice_end_op[OF n i(4), of "?z i"] and ei' = slice_end_op[OF n i'(4), of "?z i'"]
  have "off x + len x \<le> off y \<or> off y + len y \<le> off x"
  proof (cases "i = i'")
    case True
    with dif consider "k < k'" | "k' < k" by (meson nat_neq_iff)
    then show ?thesis
      using slice_end[OF n, of k k' "?z i"] slice_end[OF n, of k' k "?z i"] i i' si si' True
      by cases (simp_all add: off_def len_def)
  next
    case False
    then have "apart (range_of E (?h ! (j + i))) (range_of E (?h ! (j + i')))"
      using fq.fok_apart[OF ok i(5,6) i'(5,6)] by simp
    then show ?thesis using si si' ei ei' i i' by (auto simp: apart_def range_of_def off_def len_def)
  qed
  moreover have "off x + len x \<le> SHM_COPY_BUFFER_SIZE" using si ei ri i by (simp add: off_def len_def)
  ultimately show ?thesis by blast
qed

end

context node_queues begin

text \<open>What waits for the load balancer is the frontend's, so it is of whole words when the collectives were.\<close>

lemma waiting_wf:
  assumes "node_ok E n s"
    and whole: "\<forall>a\<in>set (given (front s)). pa_code a \<in> {OP_ALL_REDUCE, OP_REDUCE} \<longrightarrow> 4 dvd unat (pa_size a)"
  shows "\<forall>p\<in>set (fq.oq.work (node_qp s)). op_wf (node_ops s p)"
  using assms(1)
proof (rule node_okE)
  fix a b d tc rc c' d' j prev
  let ?h = "created (front s)" and ?hs = "be_held (front s)"
  assume ok: "fq.fok E a b d tc rc ?hs ?h (fe (front s))"
    and g: "given (front s) = prev @ todo (front s)" "list_all2 made_for prev ?h"
  have le: "a \<le> b" "d \<le> length ?h" using ok by (simp_all add: fe_ok_def fe_queues_ok_def)
  have "set (fq.oq.work (node_qp s)) \<subseteq> set (fq.oq.answers (be_qp (fe (front s))) @ ?hs @ fq.oq.work (be_qp (fe (front s))))"
    by (auto simp: node_qp_def)
  also have "\<dots> = (\<lambda>i. i mod QUEUE_SIZE) ` {b..<d}"
    using ok by (simp add: fe_ok_def fe_queues_ok_def)
  finally have w: "set (fq.oq.work (node_qp s)) \<subseteq> (\<lambda>i. i mod QUEUE_SIZE) ` {b..<d}" .
  have "op_wf (node_ops s (i mod QUEUE_SIZE))" if "b \<le> i" "i < d" for i
  proof -
    have i: "a \<le> i" "i < length ?h" using that le by simp_all
    then have op: "node_ops s (i mod QUEUE_SIZE) = fst (?h ! i)"
      using ok by (simp add: fe_ok_def fe_mem_ok_def node_ops_def)
    have "prev ! i \<in> set (given (front s))" and "made_for (prev ! i) (?h ! i)"
      using g i by (simp_all add: list_all2_conv_all_nth)
    then have "pa_code (prev ! i) = op_code (fst (?h ! i))" "pa_size (prev ! i) = op_size (fst (?h ! i))"
      by (simp_all add: made_for_def)
    with bspec[OF whole \<open>prev ! i \<in> _\<close>]
    have "op_code (fst (?h ! i)) \<in> {OP_ALL_REDUCE, OP_REDUCE} \<longrightarrow> unat (op_size (fst (?h ! i))) mod 4 = 0" by simp
    then show ?thesis unfolding op op_wf_def using whole_word[of "op_size (fst (?h ! i))"] by (intro impI) (drule (1) mp, simp only:)
  qed
  moreover have "\<exists>i. b \<le> i \<and> i < d \<and> p = i mod QUEUE_SIZE" if "p \<in> set (fq.oq.work (node_qp s))" for p
    using subsetD[OF w that] by auto
  ultimately show ?thesis by metis
qed

lemma node_iteration:
  assumes ok: "node_ok E n s" and n: "0 < n"
    and "\<forall>a\<in>set (given (front s)). pa_code a \<in> {OP_ALL_REDUCE, OP_REDUCE} \<longrightarrow> 4 dvd unat (pa_size a)"
  shows "lb_iteration Q S (node_ops s) (node_lb s) \<noteq> None"
proof -
  have "lb_inv ocont scont (node_ops s) n (node_view ocont s)" using ok by (auto simp: node_ok_def lb_inv_def)
  from bq.iteration_returns[OF this n] waiting_wf[OF ok assms(3)] show ?thesis by simp
qed

lemma node_frontend:
  "node_reach P Q S E s0 s \<Longrightarrow> fe_step P Q E (front s) t \<Longrightarrow> be_held t = be_held (front s) \<Longrightarrow>
    node_reach P Q S E s0 (s\<lparr>front := t\<rparr>)"
  by (blast intro: node_reach.step node_step.frontend)

text \<open>A turn of the load balancer takes over what waits for it.\<close>

lemma node_take:
  assumes r: "node_reach P Q S E s0 s" and ok: "node_ok E n s" and n: "0 < n"
    and wf: "\<forall>p\<in>set (fq.oq.work (node_qp s)). op_wf (node_ops s p)" and w: "fq.oq.work (node_qp s) = p # es"
  shows "\<exists>t. node_reach P Q S E s0 t \<and> given (front t) = given (front s) \<and> be_held (front t) = be_held (front s) @ [p] \<and> (\<forall>k<n. n_heap t (n_next s + k) \<noteq> None)"
proof -
  obtain c d where s: "bq.sys_ok (node_ops s) n c d (node_view ocont s)" using ok by (auto simp: node_ok_def)
  have w': "fq.oq.work (shm_qp (lb (node_view ocont s))) = p # es" using w by simp
  have "op_wf (node_ops s p)" using wf w by simp
  from bq.post_keeps[OF s n w' this] obtain l where l: "lb_try_post_op Q S (node_ops s) (node_lb s) = Some (True, l)"
    by (metis node_view_simps(1))
  have f: "front_req Q (node_qp s) = Some p" using w by (simp add: fq.oq.front_req_eq)
  have "n_heap (node_put l hs s) (n_next s + k) \<noteq> None" if "k < n" for k hs
    using bq.post_subs(1)[OF s n _ _ that, of p l] f l by simp
  with node_reach.step[OF r node_step.post[OF l]] f show ?thesis by (intro exI[of _ "node_put l (be_held (front s) @ [p]) s"] conjI) auto
qed

end

interpretation node_fifo: node_queues "fifo_ops QUEUE_SIZE" "\<lambda>q. q" "fifo_ops QUEUE_SIZE" "\<lambda>q. q" "fifo_ops QUEUE_SIZE" "\<lambda>q. q"
  by unfold_locales

subsection \<open>A run\<close>

text \<open>The frontend's run of two segments, with two workers behind the load balancer.\<close>

definition node_demo0 :: "(ptr list, ptr list, ptr list) node" where
  "node_demo0 = node_init [] [] [] 2 (\<lambda>_. \<lparr>op_code = 0, op_root = 0, op_size = 0, shm_buffer = 0,
     op_group = pa_group fe_demo_args, op_with_fut = 0\<rparr>)"

abbreviation "node_demo_reach \<equiv> node_reach (fifo_ops QUEUE_SIZE) (fifo_ops QUEUE_SIZE) (fifo_ops QUEUE_SIZE) fe_demo_env node_demo0"

lemma node_demo_ok: "node_demo_reach s \<Longrightarrow> given (front s) = [fe_demo_seg 0, fe_demo_seg 1] \<Longrightarrow> node_fifo.node_ok fe_demo_env 2 s"
  unfolding node_demo0_def by (rule conjunct1[OF node_fifo.node_reach_ok[OF _ refl refl refl _ fe_demo_even]]) simp_all

lemma node_demo_front: "fe_demo_own\<^sup>*\<^sup>* fe_demo0 t \<Longrightarrow> node_demo_reach (node_demo0\<lparr>front := t\<rparr>)"
proof (induction rule: rtranclp_induct)
  case base
  have "node_demo0\<lparr>front := fe_demo0\<rparr> = node_demo0" by (simp add: node_demo0_def node_init_def fe_demo0_def)
  then show ?case by (simp add: node_reach.init)
next
  case (step t u)
  then show ?case using node_fifo.node_frontend[OF step.IH, of u] by simp
qed

lemma node_demo_submitted: "\<exists>s. node_demo_reach s \<and> given (front s) = [fe_demo_seg 0, fe_demo_seg 1]
   \<and> be_held (front s) = [] \<and> wq (node_qp s) \<noteq> []"
proof -
  obtain t where t: "fe_demo_own\<^sup>*\<^sup>* fe_demo0 t" "given t = [fe_demo_seg 0, fe_demo_seg 1]" "be_held t = []" "wq (be_qp (fe t)) \<noteq> []"
    using fe_demo_submitted by blast
  with node_demo_front[OF t(1)] show ?thesis by (intro exI[of _ "node_demo0\<lparr>front := t\<rparr>"]) (simp add: node_qp_def)
qed

lemma node_demo_whole: "given f = [fe_demo_seg 0, fe_demo_seg 1] \<Longrightarrow>
    \<forall>a\<in>set (given f). pa_code a \<in> {OP_ALL_REDUCE, OP_REDUCE} \<longrightarrow> 4 dvd unat (pa_size a)"
  by (simp add: fe_demo_seg_def segment_at_def segment_count_def segment_const)

lemma node_demo_taken: "\<exists>s p x y. node_demo_reach s \<and> given (front s) = [fe_demo_seg 0, fe_demo_seg 1] \<and> length (be_held (front s)) = 1
   \<and> n_heap s p = Some x \<and> n_heap s (p + 1) = Some y"
proof -
  obtain s where s: "node_demo_reach s" "given (front s) = [fe_demo_seg 0, fe_demo_seg 1]"
    "be_held (front s) = []" "wq (node_qp s) \<noteq> []" using node_demo_submitted by blast
  note ok = node_demo_ok[OF s(1,2)]
  obtain p es where w: "wq (node_qp s) = p # es" using s(4) by (cases "wq (node_qp s)") auto
  from node_fifo.node_take[OF s(1) ok _ node_fifo.waiting_wf[OF ok node_demo_whole[OF s(2)]] w] obtain t where
    t: "node_demo_reach t" "be_held (front t) = be_held (front s) @ [p]" "\<forall>k<2. n_heap t (n_next s + k) \<noteq> None"
      "given (front t) = given (front s)" by auto
  from t(3)[rule_format, of 0] t(3)[rule_format, of 1] t(1,2,4) s(2,3) show ?thesis by (intro exI[of _ t] exI[of _ "n_next s"]) auto
qed

subsection \<open>Properties\<close>

text \<open>
  The load balancer with its workers is a backend the frontend can rely on: with collectives of even sizes, a run of the whole node is, seen
  from the frontend, a run against the abstract backend that takes operations and answers them in
  order, so that everything shown of the frontend holds in the node. And each worker owes exactly its slices of
  a run of consecutive operations of the frontend, in their order, although the frontend uses the
  entries of \<open>op_buffer\<close> again.
\<close>

theorem node_refines_frontend:
  assumes "fe_queues P pcont Q ocont" and "lb_queues Q ocont S scont"
    and "pcont p = []" and "ocont q = []" and "scont w = []" and "0 < n"
    and "node_reach P Q S E (node_init p q w n m) s" and "even_sizes (given (front s))"
  shows "fe_reach P Q E (fe_init p q m) (front s)
    \<and> (\<exists>j. j + length (be_held (front s)) \<le> length (created (front s))
        \<and> (\<forall>k<n. map (n_heap s) (owed scont s k)
            = map (\<lambda>x. Some (slice_for n k x)) (take (length (be_held (front s))) (drop j (created (front s))))))"
proof -
  have q: "node_queues P pcont Q ocont S scont" using assms(1,2) by (rule node_queues.intro)
  from node_queues.node_reach_ok[OF q assms(7,3-6,8)] node_queues.node_slices[OF q] show ?thesis by blast
qed

theorem node_refines_frontend_witness:
  "\<exists>s x. fe_demo_reach (front s) \<and> length (be_held (front s)) = 1
     \<and> map (n_heap s) (owed (\<lambda>q. q) s 0) = [Some (slice_for 2 0 x)] \<and> map (n_heap s) (owed (\<lambda>q. q) s 1) = [Some (slice_for 2 1 x)]"
proof -
  obtain s where s: "node_demo_reach s" "length (be_held (front s)) = 1" "given (front s) = [fe_demo_seg 0, fe_demo_seg 1]"
    using node_demo_taken by blast
  from node_refines_frontend[OF fe_fifo.fe_queues_axioms lb_fifo.lb_queues_axioms refl refl refl _ s(1)[unfolded node_demo0_def] fe_demo_even[OF s(3)]]
  obtain j where j: "fe_reach (fifo_ops QUEUE_SIZE) (fifo_ops QUEUE_SIZE) fe_demo_env (front node_demo0) (front s)"
    "j + 1 \<le> length (created (front s))"
    "\<And>k. k < 2 \<Longrightarrow> map (n_heap s) (owed (\<lambda>q. q) s k) = map (\<lambda>x. Some (slice_for 2 k x)) (take 1 (drop j (created (front s))))"
    using s(2) by (auto simp: node_demo0_def node_init_def)
  have "take 1 (drop j (created (front s))) = [created (front s) ! j]" using j(2) by (simp add: take_Suc hd_drop_conv_nth)
  with j s(2) show ?thesis
    by (intro exI[of _ s] exI[of _ "created (front s) ! j"]) (simp add: node_demo0_def node_init_def fe_demo0_def)
qed

text \<open>
  With collectives of even sizes, no two workers of a node ever write the same byte: the ranges of any two sub-operations that are live, of
  one operation or of two, do not overlap, and lie in the usable part of the copy buffer.
\<close>

theorem node_memory_disjoint:
  assumes "fe_queues P pcont Q ocont" and "lb_queues Q ocont S scont"
    and "pcont p = []" and "ocont q = []" and "scont w = []" and "0 < n" and "n < 2 ^ 31"
    and "node_reach P Q S E (node_init p q w n m) s" and "even_sizes (given (front s))"
    and "n_heap s i = Some x" and "n_heap s j = Some y" and "i \<noteq> j"
  shows "let off = (\<lambda>v. unat (sub_data v - copy_base E)); len = (\<lambda>v. unat (sub_size v))
     in (off x + len x \<le> off y \<or> off y + len y \<le> off x) \<and> off x + len x \<le> SHM_COPY_BUFFER_SIZE"
proof -
  have q: "node_queues P pcont Q ocont S scont" using assms(1,2) by (rule node_queues.intro)
  have "node_queues.node_ok pcont ocont scont E n s" using node_queues.node_reach_ok[OF q assms(8,3-6,9)] by blast
  from node_queues.node_apart[OF q this assms(6,7,10-12)] show ?thesis by (simp add: Let_def)
qed

theorem node_memory_disjoint_witness:
  "\<exists>s p x y. node_demo_reach s \<and> n_heap s p = Some x \<and> n_heap s (p + 1) = Some y
     \<and> unat (sub_data x - 65536) + unat (sub_size x) \<le> SHM_COPY_BUFFER_SIZE"
proof -
  obtain s p x y where s: "node_demo_reach s" "n_heap s p = Some x" "n_heap s (p + 1) = Some y"
    "given (front s) = [fe_demo_seg 0, fe_demo_seg 1]" using node_demo_taken by blast
  from node_memory_disjoint[OF fe_fifo.fe_queues_axioms lb_fifo.lb_queues_axioms refl refl refl _ _ s(1)[unfolded node_demo0_def] fe_demo_even[OF s(4)] s(2,3)]
  have "unat (sub_data x - 65536) + unat (sub_size x) \<le> SHM_COPY_BUFFER_SIZE" by (simp add: fe_demo_env_def Let_def)
  with s show ?thesis by blast
qed

text \<open>
  C21: In a node whose collectives have even sizes and whose all-reduces and reduces are of whole words, as tensors of 32 bit numbers are, a turn
  of the load balancer always returns: its assert holds for every operation the frontend hands
  it, and it never follows a freed pointer.
\<close>

theorem node_lb_never_aborts:
  assumes "fe_queues P pcont Q ocont" and "lb_queues Q ocont S scont"
    and "pcont p = []" and "ocont q = []" and "scont w = []" and "0 < n"
    and "node_reach P Q S E (node_init p q w n m) s" and "even_sizes (given (front s))"
    and "\<forall>a\<in>set (given (front s)). pa_code a \<in> {OP_ALL_REDUCE, OP_REDUCE} \<longrightarrow> 4 dvd unat (pa_size a)"
  shows "lb_iteration Q S (node_ops s) (node_lb s) \<noteq> None"
proof -
  have q: "node_queues P pcont Q ocont S scont" using assms(1,2) by (rule node_queues.intro)
  have "node_queues.node_ok pcont ocont scont E n s" using node_queues.node_reach_ok[OF q assms(7,3-6,8)] by blast
  from node_queues.node_iteration[OF q this assms(6,9)] show ?thesis .
qed

theorem node_lb_never_aborts_witness:
  "\<exists>s. node_demo_reach s \<and> wq (node_qp s) \<noteq> []
     \<and> lb_iteration (fifo_ops QUEUE_SIZE) (fifo_ops QUEUE_SIZE) (node_ops s) (node_lb s) \<noteq> None"
proof -
  obtain s where s: "node_demo_reach s" "given (front s) = [fe_demo_seg 0, fe_demo_seg 1]" "wq (node_qp s) \<noteq> []"
    using node_demo_submitted by blast
  from node_lb_never_aborts[OF fe_fifo.fe_queues_axioms lb_fifo.lb_queues_axioms refl refl refl _
    s(1)[unfolded node_demo0_def] fe_demo_even[OF s(2)] node_demo_whole[OF s(2)]] s show ?thesis by auto
qed

end
