(* ===== verification/ProcessBuffer.thy ===== *)
theory ProcessBuffer
  imports Prelude
begin

text \<open>
  The per-worker packet buffer of \<open>server/backend/process_buffer.hpp\<close>: packets to send are
  collected in \<open>tx_bufs\<close> and handed to the network card in bursts, received packets are taken from
  the card in bursts and handed out one by one from \<open>rx_bufs\<close>.

  The network card is DPDK's, which the repository only calls. It is a parameter: the record
  \<open>nic_ops\<close> over a card state, and the locale \<open>nic\<close> of what DPDK documents for the two burst calls. A
  packet pointer is \<open>None\<close> when it is null.
\<close>

subsection \<open>The network card\<close>

record ('n, 'm) nic_ops =
  rte_eth_tx_burst :: "'m option list \<Rightarrow> 'n \<Rightarrow> nat \<times> 'n"
  rte_eth_rx_burst :: "nat \<Rightarrow> 'n \<Rightarrow> 'm option list \<times> 'n"
  rte_eth_rx_queue_count :: "'n \<Rightarrow> nat"

text \<open>
  \<open>sent\<close> and \<open>delivered\<close> are what the card has accepted for sending and handed to the program. A
  transmit burst accepts a prefix of what it is offered; a receive burst returns at most what it is
  asked for, all of them real packets.
\<close>

locale nic =
  fixes N :: "('n, 'm) nic_ops"
    and sent :: "'n \<Rightarrow> 'm option list"
    and delivered :: "'n \<Rightarrow> 'm option list"
  assumes tx_le: "fst (rte_eth_tx_burst N bufs n) \<le> length bufs"
    and tx_sent: "sent (snd (rte_eth_tx_burst N bufs n)) = sent n @ take (fst (rte_eth_tx_burst N bufs n)) bufs"
    and tx_delivered: "delivered (snd (rte_eth_tx_burst N bufs n)) = delivered n"
    and rx_le: "length (fst (rte_eth_rx_burst N k n)) \<le> k"
    and rx_nonnull: "None \<notin> set (fst (rte_eth_rx_burst N k n))"
    and rx_sent: "sent (snd (rte_eth_rx_burst N k n)) = sent n"
    and rx_delivered: "delivered (snd (rte_eth_rx_burst N k n)) = delivered n @ fst (rte_eth_rx_burst N k n)"

text \<open>A card that does not refuse packets forever: \<open>patience\<close> bounds the refusals in a row.\<close>

locale live_nic = nic N sent delivered
  for N :: "('n, 'm) nic_ops" and sent delivered +
  fixes patience :: "'n \<Rightarrow> nat"
  assumes refuse: "bufs \<noteq> [] \<Longrightarrow> fst (rte_eth_tx_burst N bufs n) = 0
      \<Longrightarrow> patience (snd (rte_eth_tx_burst N bufs n)) < patience n"

subsection \<open>State\<close>

record 'm process_buffer =
  rx_size :: u16
  tx_size :: u16
  rx_nb :: u16
  tx_nb :: u16
  rx_iter :: u16
  flush_timer :: u16
  receive_timer :: u16
  rx_bufs :: "'m option list"
  tx_bufs :: "'m option list"
  total_rx_nb :: u32
  total_tx_nb :: u32
  total_drop_nb :: u32
  total_alloc_nb :: u32

text \<open>The constructor.\<close>

definition queue_process_buffer :: "u16 \<Rightarrow> u16 \<Rightarrow> 'm process_buffer option" where
  "queue_process_buffer rxs txs = do {
     c_assert (rxs mod 8 = 0);
     Some \<lparr>rx_size = rxs, tx_size = txs, rx_nb = 0, tx_nb = 0, rx_iter = 0, flush_timer = 0,
       receive_timer = 0, rx_bufs = replicate (unat rxs) None, tx_bufs = replicate (unat txs) None,
       total_rx_nb = 0, total_tx_nb = 0, total_drop_nb = 0, total_alloc_nb = 0\<rparr>
   }"

subsection \<open>Sending\<close>

text \<open>The loop \<open>for(i = 0; i < k; i++) tx_bufs[i] = tx_bufs[i + c]\<close>.\<close>

definition shift_bufs :: "nat \<Rightarrow> nat \<Rightarrow> 'a list \<Rightarrow> 'a list" where
  "shift_bufs c k bufs = fold (\<lambda>i b. b[i := b ! (i + c)]) [0..<k] bufs"

definition flush_once :: "('n, 'm) nic_ops \<Rightarrow> 'm process_buffer \<times> 'n \<Rightarrow> 'm process_buffer \<times> 'n" where
  "flush_once N = (\<lambda>(pb, n).
     let (complete_nb, n') = rte_eth_tx_burst N (take (unat (tx_nb pb)) (tx_bufs pb)) n;
         left = tx_nb pb - of_nat complete_nb;
         bufs = (if left \<noteq> 0 \<and> complete_nb \<noteq> 0 then shift_bufs complete_nb (unat left) (tx_bufs pb)
                 else tx_bufs pb)
     in (pb\<lparr>tx_nb := left, tx_bufs := bufs, flush_timer := 0\<rparr>, n'))"

text \<open>\<open>flush\<close>: burst until everything is sent. \<open>None\<close> is a loop that never exits.\<close>

partial_function (option) flush_rest :: "('n, 'm) nic_ops \<Rightarrow> 'm option list \<Rightarrow> 'n \<Rightarrow> 'n option" where
  "flush_rest N bufs n = (case rte_eth_tx_burst N bufs n of (k, n') \<Rightarrow>
     if k < length bufs then flush_rest N (drop k bufs) n' else Some n')"

definition flush :: "('n, 'm) nic_ops \<Rightarrow> 'm process_buffer \<times> 'n \<Rightarrow> ('m process_buffer \<times> 'n) option" where
  "flush N = (\<lambda>(pb, n). do {
     n' \<leftarrow> flush_rest N (take (unat (tx_nb pb)) (tx_bufs pb)) n;
     Some (pb\<lparr>tx_nb := 0, flush_timer := 0\<rparr>, n')
   })"

definition check_flush_timer :: "('n, 'm) nic_ops \<Rightarrow> 'm process_buffer \<times> 'n \<Rightarrow> 'm process_buffer \<times> 'n" where
  "check_flush_timer N = (\<lambda>(pb, n).
     if unat (flush_timer pb) < unat (tx_size pb) * 2
     then (pb\<lparr>flush_timer := flush_timer pb + 1\<rparr>, n)
     else flush_once N (pb, n))"

text \<open>The loop at the start of \<open>send\<close>: make room.\<close>

partial_function (option) send_wait :: "('n, 'm) nic_ops \<Rightarrow> 'm process_buffer \<times> 'n
    \<Rightarrow> ('m process_buffer \<times> 'n) option" where
  "send_wait N s = (if tx_nb (fst s) = tx_size (fst s) then send_wait N (flush_once N s) else Some s)"

definition send :: "('n, 'm) nic_ops \<Rightarrow> 'm option \<Rightarrow> 'm process_buffer \<times> 'n
    \<Rightarrow> ('m process_buffer \<times> 'n) option" where
  "send N buf s = do {
     (pb, n) \<leftarrow> send_wait N s;
     let pb = pb\<lparr>total_tx_nb := total_tx_nb pb + 1,
                 tx_bufs := (tx_bufs pb)[unat (tx_nb pb) := buf], tx_nb := tx_nb pb + 1\<rparr>;
     Some (if tx_nb pb = tx_size pb then flush_once N (pb, n) else (pb, n))
   }"

subsection \<open>Receiving\<close>

definition receive :: "('n, 'm) nic_ops \<Rightarrow> 'm process_buffer \<times> 'n
    \<Rightarrow> 'm option \<times> 'm process_buffer \<times> 'n" where
  "receive N s =
     (let (pb, n) = check_flush_timer N s in
      if rx_iter pb = rx_nb pb then
        (let (pkts, n') = rte_eth_rx_burst N (unat (rx_size pb)) n;
             pb' = pb\<lparr>rx_iter := 0, rx_nb := of_nat (length pkts),
                      rx_bufs := pkts @ drop (length pkts) (rx_bufs pb)\<rparr>
         in if rx_nb pb' = 0 then (None, pb', n')
            else (rx_bufs pb' ! 0, pb'\<lparr>total_rx_nb := total_rx_nb pb' + 1, rx_iter := 1\<rparr>, n'))
      else (rx_bufs pb ! unat (rx_iter pb),
            pb\<lparr>total_rx_nb := total_rx_nb pb + 1, rx_iter := rx_iter pb + 1\<rparr>, n))"

text \<open>\<open>drop\<close>: the packet goes back to DPDK's pool (\<open>rte_pktmbuf_free\<close>).\<close>

definition drop_pkt :: "'m process_buffer \<Rightarrow> 'm process_buffer" where
  "drop_pkt pb = pb\<lparr>total_drop_nb := total_drop_nb pb + 1\<rparr>"

definition rx_sw_buffered_pkt_cnt :: "'m process_buffer \<Rightarrow> u64" where
  "rx_sw_buffered_pkt_cnt pb = ucast (rx_nb pb) - ucast (rx_iter pb)"

definition rx_hw_buffered_pkt_cnt :: "('n, 'm) nic_ops \<Rightarrow> 'n \<Rightarrow> u64" where
  "rx_hw_buffered_pkt_cnt N n = of_nat (rte_eth_rx_queue_count N n)"

definition rx_buffered_pkt_cnt :: "('n, 'm) nic_ops \<Rightarrow> 'm process_buffer \<times> 'n \<Rightarrow> u64" where
  "rx_buffered_pkt_cnt N = (\<lambda>(pb, n). rx_sw_buffered_pkt_cnt pb + rx_hw_buffered_pkt_cnt N n)"

definition tx_sw_buffered_pkt_cnt :: "'m process_buffer \<Rightarrow> u64" where
  "tx_sw_buffered_pkt_cnt pb = ucast (tx_nb pb)"


subsection \<open>What the buffer holds\<close>

definition queued :: "'m process_buffer \<Rightarrow> 'm option list" where
  "queued pb = take (unat (tx_nb pb)) (tx_bufs pb)"

definition unread :: "'m process_buffer \<Rightarrow> 'm option list" where
  "unread pb = drop (unat (rx_iter pb)) (take (unat (rx_nb pb)) (rx_bufs pb))"

text \<open>
  The sizes the backend constructs it with (\<open>MAX_PKT_BURST\<close> both) satisfy the two size conditions;
  with \<open>tx_size\<close> above \<open>32767\<close> the 16-bit timer could not count to \<open>2 * tx_size\<close>.
\<close>

definition pb_ok :: "'m process_buffer \<Rightarrow> bool" where
  "pb_ok pb \<longleftrightarrow> 0 < unat (tx_size pb) \<and> unat (tx_size pb) < 2 ^ 15 \<and> 0 < unat (rx_size pb)
     \<and> length (tx_bufs pb) = unat (tx_size pb) \<and> length (rx_bufs pb) = unat (rx_size pb)
     \<and> unat (tx_nb pb) \<le> unat (tx_size pb)
     \<and> unat (rx_iter pb) \<le> unat (rx_nb pb) \<and> unat (rx_nb pb) \<le> unat (rx_size pb)
     \<and> unat (flush_timer pb) \<le> 2 * unat (tx_size pb)"

lemma pb_ok_init:
  assumes "0 < unat txs" "unat txs < 2 ^ 15" "0 < unat rxs" "rxs mod 8 = 0"
  obtains pb where "queue_process_buffer rxs txs = Some pb" "pb_ok pb" "queued pb = []" "unread pb = []"
  using assms by (simp add: queue_process_buffer_def pb_ok_def queued_def unread_def)

lemma shift_bufs_nth:
  assumes "k + c \<le> length bufs"
  shows "length (shift_bufs c k bufs) = length bufs \<and>
    (\<forall>i<length bufs. shift_bufs c k bufs ! i = (if i < k then bufs ! (i + c) else bufs ! i))"
  using assms
proof (induction k)
  case 0
  show ?case by (simp add: shift_bufs_def)
next
  case (Suc k)
  have "shift_bufs c (Suc k) bufs = (shift_bufs c k bufs)[k := shift_bufs c k bufs ! (k + c)]"
    by (simp add: shift_bufs_def)
  with Suc show ?case
    by (auto simp: nth_list_update less_Suc_eq)
qed

lemma shift_bufs_take:
  assumes "k + c \<le> length bufs"
  shows "take k (shift_bufs c k bufs) = take k (drop c bufs)"
  using assms shift_bufs_nth[OF assms]
  by (intro nth_equalityI) (auto simp: add.commute)

context nic begin

lemma flush_once_effect:
  assumes ok: "pb_ok pb" and f: "flush_once N (pb, n) = (pb', n')"
  shows "pb_ok pb'" "sent n' @ queued pb' = sent n @ queued pb" "delivered n' = delivered n"
    "unread pb' = unread pb" "flush_timer pb' = 0" "tx_size pb' = tx_size pb" "rx_size pb' = rx_size pb"
    "unat (tx_nb pb') = unat (tx_nb pb) - fst (rte_eth_tx_burst N (queued pb) n)"
    "n' = snd (rte_eth_tx_burst N (queued pb) n)"
proof -
  obtain k m where b: "rte_eth_tx_burst N (queued pb) n = (k, m)"
    by fastforce
  have len: "length (queued pb) = unat (tx_nb pb)"
    using ok by (simp add: queued_def pb_ok_def)
  have k: "k \<le> unat (tx_nb pb)"
    using tx_le[of "queued pb" n] b len by simp
  have "of_nat k \<le> tx_nb pb"
    using k u16_bound[of "tx_nb pb"] by (simp add: word_le_nat_alt unat_of_nat_small)
  then have left: "unat (tx_nb pb - of_nat k) = unat (tx_nb pb) - k"
    using k u16_bound[of "tx_nb pb"] by (simp add: unat_sub unat_of_nat_small)
  have zero: "tx_nb pb = of_nat k \<longleftrightarrow> \<not> k < unat (tx_nb pb)"
    using k u16_bound[of "tx_nb pb"] by (subst word_eq_of_nat_iff) auto
  let ?bufs = "if k < unat (tx_nb pb) \<and> k \<noteq> 0 then shift_bufs k (unat (tx_nb pb) - k) (tx_bufs pb) else tx_bufs pb"
  have f': "pb' = pb\<lparr>tx_nb := tx_nb pb - of_nat k, tx_bufs := ?bufs, flush_timer := 0\<rparr>" "n' = m"
    using f b by (auto simp: flush_once_def queued_def Let_def left zero)
  have room: "unat (tx_nb pb) - k + k \<le> length (tx_bufs pb)"
    using ok k by (simp add: pb_ok_def)
  have len': "length ?bufs = length (tx_bufs pb)"
    using shift_bufs_nth[OF room] by simp
  have q': "queued pb' = drop k (queued pb)"
    using shift_bufs_take[OF room] k by (auto simp: f' queued_def left drop_take)
  show "n' = snd (rte_eth_tx_burst N (queued pb) n)" using f' b by simp
  show "sent n' @ queued pb' = sent n @ queued pb"
    using tx_sent[of "queued pb" n] b f' q' by simp
  show "delivered n' = delivered n"
    using tx_delivered[of "queued pb" n] b f' by simp
  show "unat (tx_nb pb') = unat (tx_nb pb) - fst (rte_eth_tx_burst N (queued pb) n)"
    using f' b left by simp
  show "pb_ok pb'"
    using ok len' left by (auto simp: pb_ok_def f')
  show "unread pb' = unread pb" "flush_timer pb' = 0" "tx_size pb' = tx_size pb" "rx_size pb' = rx_size pb"
    by (simp_all add: unread_def f')
qed

lemma check_flush_timer_effect:
  assumes ok: "pb_ok pb" and f: "check_flush_timer N (pb, n) = (pb', n')"
  shows "pb_ok pb'" "sent n' @ queued pb' = sent n @ queued pb" "delivered n' = delivered n"
    "unread pb' = unread pb" "rx_size pb' = rx_size pb" "tx_size pb' = tx_size pb"
proof -
  have "pb_ok pb' \<and> sent n' @ queued pb' = sent n @ queued pb \<and> delivered n' = delivered n
    \<and> unread pb' = unread pb \<and> rx_size pb' = rx_size pb \<and> tx_size pb' = tx_size pb"
  proof (cases "unat (flush_timer pb) < unat (tx_size pb) * 2")
    case True
    then have "unat (flush_timer pb + 1) = Suc (unat (flush_timer pb))"
      using ok by (intro unat_inc) (simp add: pb_ok_def)
    with True f ok show ?thesis
      by (auto simp: check_flush_timer_def pb_ok_def queued_def unread_def)
  next
    case False
    with f have "flush_once N (pb, n) = (pb', n')" by (simp add: check_flush_timer_def)
    from flush_once_effect[OF ok this] show ?thesis by simp
  qed
  then show "pb_ok pb'" "sent n' @ queued pb' = sent n @ queued pb" "delivered n' = delivered n"
    "unread pb' = unread pb" "rx_size pb' = rx_size pb" "tx_size pb' = tx_size pb" by blast+
qed

lemma send_wait_effect:
  assumes ret: "send_wait N s = Some s'" and ok: "pb_ok (fst s)"
  shows "pb_ok (fst s') \<and> sent (snd s') @ queued (fst s') = sent (snd s) @ queued (fst s)
    \<and> delivered (snd s') = delivered (snd s) \<and> unread (fst s') = unread (fst s)
    \<and> unat (tx_nb (fst s')) < unat (tx_size (fst s')) \<and> tx_size (fst s') = tx_size (fst s)"
    (is "?P s s'")
proof -
  have "N = N \<longrightarrow> pb_ok (fst s) \<longrightarrow> ?P s s'"
  proof (rule send_wait.raw_induct[where P = "\<lambda>N' s s'. N' = N \<longrightarrow> pb_ok (fst s) \<longrightarrow> ?P s s'", OF _ ret],
      intro impI)
    fix sw :: "('n, 'm) nic_ops \<Rightarrow> 'm process_buffer \<times> 'n \<Rightarrow> ('m process_buffer \<times> 'n) option"
      and N' :: "('n, 'm) nic_ops" and s s' :: "'m process_buffer \<times> 'n"
    assume IH: "\<And>N' s s'. sw N' s = Some s' \<Longrightarrow> N' = N \<longrightarrow> pb_ok (fst s) \<longrightarrow> ?P s s'"
      and eq: "(if tx_nb (fst s) = tx_size (fst s) then sw N' (flush_once N' s) else Some s) = Some s'"
      and N': "N' = N" and ok: "pb_ok (fst s)"
    show "?P s s'"
    proof (cases "tx_nb (fst s) = tx_size (fst s)")
      case True
      obtain pb n where s: "s = (pb, n)" by fastforce
      obtain pb1 n1 where f: "flush_once N (pb, n) = (pb1, n1)" by fastforce
      note E = flush_once_effect[OF ok[unfolded s fst_conv] f]
      have "sw N (pb1, n1) = Some s'" using eq True N' f s by simp
      from IH[OF this] E(1-4,6) show ?thesis by (auto simp: s)
    next
      case False
      then have "unat (tx_nb (fst s)) \<noteq> unat (tx_size (fst s))" by (simp add: word_unat_eq_iff)
      with ok have "unat (tx_nb (fst s)) < unat (tx_size (fst s))" by (simp add: pb_ok_def)
      with False eq ok show ?thesis by simp
    qed
  qed
  with ok show ?thesis by blast
qed

lemma send_effect:
  assumes ret: "send N buf (pb, n) = Some (pb', n')" and ok: "pb_ok pb"
  shows "pb_ok pb'" "sent n' @ queued pb' = sent n @ queued pb @ [buf]" "delivered n' = delivered n"
    "unread pb' = unread pb" "tx_size pb' = tx_size pb"
proof -
  from ret obtain pb1 n1 where w: "send_wait N (pb, n) = Some (pb1, n1)"
    by (auto simp: send_def split: bind_splits)
  note W = send_wait_effect[OF w, simplified, OF ok]
  let ?pb = "pb1\<lparr>total_tx_nb := total_tx_nb pb1 + 1,
      tx_bufs := (tx_bufs pb1)[unat (tx_nb pb1) := buf], tx_nb := tx_nb pb1 + 1\<rparr>"
  have lt: "unat (tx_nb pb1) < unat (tx_size pb1)" using W by blast
  have len: "length (tx_bufs pb1) = unat (tx_size pb1)" using W by (auto simp: pb_ok_def)
  have inc: "unat (tx_nb pb1 + 1) = Suc (unat (tx_nb pb1))"
    using lt u16_bound[of "tx_size pb1"] by (intro unat_inc) simp
  have q: "queued ?pb = queued pb1 @ [buf]"
    using lt len by (simp add: queued_def inc take_Suc_conv_app_nth)
  have "pb_ok pb1" "unat (tx_nb pb1) < unat (tx_size pb1)" using W by blast+
  then have ok1: "pb_ok ?pb" by (simp add: pb_ok_def inc)
  have u: "unread ?pb = unread pb1" "tx_size ?pb = tx_size pb1" by (simp_all add: unread_def)
  have "pb_ok pb' \<and> sent n' @ queued pb' = sent n @ queued pb @ [buf] \<and> delivered n' = delivered n
    \<and> unread pb' = unread pb \<and> tx_size pb' = tx_size pb"
  proof (cases "tx_nb ?pb = tx_size ?pb")
    case True
    then have "flush_once N (?pb, n1) = (pb', n')"
      using ret w by (simp add: send_def Let_def)
    from flush_once_effect[OF ok1 this] W q u show ?thesis by simp
  next
    case False
    then have "pb' = ?pb" "n' = n1" using ret w by (auto simp: send_def Let_def)
    with W q u ok1 show ?thesis by simp
  qed
  then show "pb_ok pb'" "sent n' @ queued pb' = sent n @ queued pb @ [buf]" "delivered n' = delivered n"
    "unread pb' = unread pb" "tx_size pb' = tx_size pb" by blast+
qed

text \<open>
  A call of \<open>receive\<close> hands out the oldest unread packet, bursting the card for more (\<open>new\<close>) only
  when there is none.
\<close>

lemma receive_effect:
  assumes r: "receive N (pb, n) = (r, pb', n')" and ok: "pb_ok pb"
  obtains new where "pb_ok pb'" "tx_size pb' = tx_size pb" "sent n' @ queued pb' = sent n @ queued pb"
    "delivered n' = delivered n @ new" "None \<notin> set new" "unread pb \<noteq> [] \<Longrightarrow> new = []"
    "unread pb @ new = [] \<and> r = None \<and> unread pb' = [] \<or> unread pb @ new = r # unread pb'"
proof -
  obtain pb1 n1 where c: "check_flush_timer N (pb, n) = (pb1, n1)" by fastforce
  note C = check_flush_timer_effect[OF ok c]
  have bounds: "unat (rx_iter pb1) \<le> unat (rx_nb pb1)" "unat (rx_nb pb1) \<le> length (rx_bufs pb1)"
    "length (rx_bufs pb1) = unat (rx_size pb1)"
    using C(1) by (simp_all add: pb_ok_def)
  show ?thesis
  proof (cases "rx_iter pb1 = rx_nb pb1")
    case True
    then have u: "unread pb = []" using C(4) by (simp add: unread_def flip: C(4))
    obtain pkts n2 where b: "rte_eth_rx_burst N (unat (rx_size pb1)) n1 = (pkts, n2)" by fastforce
    have len: "length pkts \<le> unat (rx_size pb1)"
      using rx_le[of "unat (rx_size pb1)" n1] b by simp
    then have nb: "unat (of_nat (length pkts) :: u16) = length pkts"
      using u16_bound[of "rx_size pb1"] by (simp add: unat_of_nat_small)
    have z: "(of_nat (length pkts) :: u16) = 0 \<longleftrightarrow> pkts = []"
      using nb by (metis length_0_conv unat_eq_zero)
    let ?pb = "pb1\<lparr>rx_iter := 0, rx_nb := of_nat (length pkts), rx_bufs := pkts @ drop (length pkts) (rx_bufs pb1)\<rparr>"
    have ok2: "pb_ok ?pb" "unread ?pb = pkts" "queued ?pb = queued pb1"
      using C(1) len nb by (simp_all add: pb_ok_def unread_def queued_def)
    have d: "delivered n2 = delivered n @ pkts" "sent n2 = sent n1" "None \<notin> set pkts"
      using rx_delivered[of "unat (rx_size pb1)" n1] rx_sent[of "unat (rx_size pb1)" n1]
        rx_nonnull[of "unat (rx_size pb1)" n1] b C(3) by simp_all
    show ?thesis
    proof (cases pkts)
      case Nil
      have "pb1\<lparr>rx_iter := 0, rx_nb := 0\<rparr> = pb1\<lparr>rx_iter := 0, rx_nb := 0, rx_bufs := rx_bufs pb1\<rparr>"
        by (cases pb1) simp
      with Nil have "r = None" "pb' = ?pb" "n' = n2"
        using r c True b by (auto simp: receive_def Let_def)
      with Nil ok2 d u C(2,6) show ?thesis by (intro that[of "[]"]) auto
    next
      case (Cons p ps)
      then have nz: "(of_nat (length pkts) :: u16) \<noteq> 0" using z by simp
      have e: "r = p" "pb' = ?pb\<lparr>total_rx_nb := total_rx_nb pb1 + 1, rx_iter := 1\<rparr>" "n' = n2"
        using r c True b nz Cons by (auto simp: receive_def Let_def)
      have "pb_ok pb'" "unread pb' = ps" "queued pb' = queued pb1"
        using ok2 nb Cons by (auto simp: e pb_ok_def unread_def queued_def)
      with Cons d u C(2,6) e show ?thesis by (intro that[of pkts]) auto
    qed
  next
    case False
    then have lt: "unat (rx_iter pb1) < unat (rx_nb pb1)"
      using bounds(1) by (simp add: word_unat_eq_iff)
    then have inc: "unat (rx_iter pb1 + 1) = Suc (unat (rx_iter pb1))"
      using u16_bound[of "rx_nb pb1"] by (intro unat_inc) simp
    have e: "r = rx_bufs pb1 ! unat (rx_iter pb1)" "n' = n1"
      "pb' = pb1\<lparr>total_rx_nb := total_rx_nb pb1 + 1, rx_iter := rx_iter pb1 + 1\<rparr>"
      using r c False by (simp_all add: receive_def Let_def)
    have "unread pb1 = r # unread pb'"
      using lt bounds by (simp add: unread_def e inc Cons_nth_drop_Suc[symmetric])
    moreover have "pb_ok pb'" "queued pb' = queued pb1"
      using C(1) lt inc by (simp_all add: e pb_ok_def queued_def)
    ultimately show ?thesis
      using C e by (intro that[of "[]"]) auto
  qed
qed

end

subsection \<open>Sending ends on a card that does not refuse forever\<close>

context live_nic begin

lemma send_wait_ends:
  "pb_ok (fst s) \<Longrightarrow> send_wait N s \<noteq> None"
proof (induction "patience (snd s)" arbitrary: s rule: less_induct)
  case less
  obtain pb n where s: "s = (pb, n)" by fastforce
  with less.prems have ok: "pb_ok pb" by simp
  show ?case
  proof (cases "tx_nb pb = tx_size pb")
    case True
    obtain pb1 n1 where f: "flush_once N (pb, n) = (pb1, n1)" by fastforce
    note E = flush_once_effect[OF ok f]
    have ne: "queued pb \<noteq> []"
      using ok True by (auto simp: queued_def pb_ok_def)
    have step: "send_wait N s = send_wait N (pb1, n1)"
      by (subst send_wait.simps) (simp add: True f s)
    show ?thesis
    proof (cases "fst (rte_eth_tx_burst N (queued pb) n) = 0")
      case refused: True
      with ne refuse[of "queued pb" n] E(9) have "patience (snd (pb1, n1)) < patience (snd s)"
        by (simp add: s)
      from less.hyps[OF this] E(1) step show ?thesis by simp
    next
      case False
      have "unat (tx_nb pb1) < unat (tx_nb pb)"
        using E(8) False ok True by (simp add: pb_ok_def)
      then have "tx_nb pb1 \<noteq> tx_size pb1" using True E(6) by auto
      then show ?thesis using step by (simp add: send_wait.simps)
    qed
  next
    case False
    then show ?thesis by (simp add: s send_wait.simps)
  qed
qed

lemma send_ends:
  assumes "pb_ok pb"
  shows "send N buf (pb, n) \<noteq> None"
  using send_wait_ends[of "(pb, n)"] assms by (auto simp: send_def Let_def)

lemma flush_rest_ends:
  "\<exists>n'. flush_rest N bufs n = Some n' \<and> sent n' = sent n @ bufs \<and> delivered n' = delivered n"
proof (induction "(length bufs, patience n)" arbitrary: bufs n
    rule: wf_induct_rule[OF wf_lex_prod[OF wf_less_than wf_less_than]])
  case less: 1
  obtain k m where b: "rte_eth_tx_burst N bufs n = (k, m)" by fastforce
  have m: "sent m = sent n @ take k bufs" "delivered m = delivered n" "k \<le> length bufs"
    using tx_sent[of bufs n] tx_delivered[of bufs n] tx_le[of bufs n] b by simp_all
  show ?case
  proof (cases "k < length bufs")
    case True
    have "bufs \<noteq> []" using True by auto
    then have "((length (drop k bufs), patience m), (length bufs, patience n)) \<in> less_than <*lex*> less_than"
      using True refuse[of bufs n] b by (cases "k = 0") auto
    from less[OF this] obtain n' where "flush_rest N (drop k bufs) m = Some n'"
      "sent n' = sent m @ drop k bufs" "delivered n' = delivered m"
      by blast
    with True b m show ?thesis by (simp add: flush_rest.simps[of N bufs n])
  next
    case False
    with b m show ?thesis by (simp add: flush_rest.simps[of N bufs n])
  qed
qed

end

subsection \<open>Runs of calls\<close>

text \<open>
  The public calls of the class that move packets, a run of them, and what the calls of \<open>receive\<close> returned.
\<close>

datatype 'm pb_call = Send "'m option" | Receive | Flush | FlushOnce | Drop

fun pb_exec :: "('n, 'm) nic_ops \<Rightarrow> 'm pb_call \<Rightarrow> 'm process_buffer \<times> 'n
    \<Rightarrow> ('m option list \<times> 'm process_buffer \<times> 'n) option" where
  "pb_exec N (Send b) s = map_option (Pair []) (send N b s)"
| "pb_exec N Receive s = (let (r, s') = receive N s in Some ([r], s'))"
| "pb_exec N Flush s = map_option (Pair []) (flush N s)"
| "pb_exec N FlushOnce s = Some ([], flush_once N s)"
| "pb_exec N Drop s = Some ([], drop_pkt (fst s), snd s)"

fun pb_run :: "('n, 'm) nic_ops \<Rightarrow> 'm pb_call list \<Rightarrow> 'm process_buffer \<times> 'n
    \<Rightarrow> ('m option list \<times> 'm process_buffer \<times> 'n) option" where
  "pb_run N [] s = Some ([], s)"
| "pb_run N (c # cs) s = do {
     (out, s1) \<leftarrow> pb_exec N c s;
     (outs, s2) \<leftarrow> pb_run N cs s1;
     Some (out @ outs, s2)
   }"

fun offered :: "'m pb_call list \<Rightarrow> 'm option list" where
  "offered [] = []"
| "offered (Send b # cs) = b # offered cs"
| "offered (_ # cs) = offered cs"

context nic begin

lemma flush_rest_effect:
  assumes "flush_rest N bufs n = Some n'"
  shows "sent n' = sent n @ bufs \<and> delivered n' = delivered n"
proof -
  have "N = N \<longrightarrow> sent n' = sent n @ bufs \<and> delivered n' = delivered n"
  proof (rule flush_rest.raw_induct[where P = "\<lambda>N' bufs n n'. N' = N \<longrightarrow>
      sent n' = sent n @ bufs \<and> delivered n' = delivered n", OF _ assms], intro impI)
    fix fr :: "('n, 'm) nic_ops \<Rightarrow> 'm option list \<Rightarrow> 'n \<Rightarrow> 'n option" and N' bufs n n'
    assume IH: "\<And>N' bufs n n'. fr N' bufs n = Some n' \<Longrightarrow> N' = N \<longrightarrow>
        sent n' = sent n @ bufs \<and> delivered n' = delivered n"
      and eq: "(case rte_eth_tx_burst N' bufs n of (k, n') \<Rightarrow>
        if k < length bufs then fr N' (drop k bufs) n' else Some n') = Some n'"
      and N': "N' = N"
    obtain k m where b: "rte_eth_tx_burst N bufs n = (k, m)" by fastforce
    have m: "sent m = sent n @ take k bufs" "delivered m = delivered n"
      using tx_sent[of bufs n] tx_delivered[of bufs n] b by simp_all
    show "sent n' = sent n @ bufs \<and> delivered n' = delivered n"
    proof (cases "k < length bufs")
      case True
      with eq b N' have "fr N (drop k bufs) m = Some n'" by simp
      from IH[OF this] m show ?thesis by simp
    next
      case False
      with eq b N' m show ?thesis by simp
    qed
  qed
  then show ?thesis by simp
qed

lemma flush_effect:
  assumes "flush N (pb, n) = Some (pb', n')" and "pb_ok pb"
  shows "pb_ok pb' \<and> sent n' = sent n @ queued pb \<and> queued pb' = [] \<and> delivered n' = delivered n
    \<and> unread pb' = unread pb \<and> tx_size pb' = tx_size pb"
  using assms by (auto simp: flush_def queued_def unread_def pb_ok_def dest!: flush_rest_effect split: bind_splits)

lemma exec_effect:
  assumes x: "pb_exec N c (pb, n) = Some (out, pb', n')" and ok: "pb_ok pb" and nn: "None \<notin> set (unread pb)"
  shows "pb_ok pb' \<and> tx_size pb' = tx_size pb \<and> None \<notin> set (unread pb') \<and> sent n' @ queued pb' = sent n @ queued pb @ offered [c]
    \<and> (\<exists>new. delivered n' = delivered n @ new \<and> unread pb @ new = filter (\<lambda>r. r \<noteq> None) out @ unread pb')"
proof (cases c)
  case (Send b)
  with x have "send N b (pb, n) = Some (pb', n')" "out = []" by auto
  with send_effect[OF this(1) ok] nn Send show ?thesis by simp
next
  case Receive
  with x obtain r where r: "receive N (pb, n) = (r, pb', n')" "out = [r]"
    by (auto split: prod.splits)
  from r(1) ok obtain new where new: "pb_ok pb'" "tx_size pb' = tx_size pb" "sent n' @ queued pb' = sent n @ queued pb"
    "delivered n' = delivered n @ new" "None \<notin> set new"
    "unread pb @ new = [] \<and> r = None \<and> unread pb' = [] \<or> unread pb @ new = r # unread pb'"
    by (rule receive_effect)
  have nn': "None \<notin> set (unread pb @ new)" using new(5) nn by simp
  have "unread pb @ new = filter (\<lambda>r. r \<noteq> None) out @ unread pb' \<and> None \<notin> set (unread pb')"
    using new(6)
  proof
    assume u: "unread pb @ new = r # unread pb'"
    with nn' have "None \<notin> set (r # unread pb')" by metis
    with u r(2) show ?thesis by (cases r) auto
  qed (use r(2) in auto)
  with new Receive show ?thesis by auto
next
  case Flush
  with x have "flush N (pb, n) = Some (pb', n')" "out = []" by auto
  with flush_effect[OF this(1) ok] nn Flush show ?thesis by simp
next
  case FlushOnce
  with x have "flush_once N (pb, n) = (pb', n')" "out = []" by auto
  with flush_once_effect[OF ok this(1)] nn FlushOnce show ?thesis by simp
next
  case Drop
  with x ok nn show ?thesis by (auto simp: drop_pkt_def pb_ok_def queued_def unread_def)
qed

lemma offered_Cons: "offered (c # cs) = offered [c] @ offered cs"
  by (cases c) simp_all

lemma run_effect:
  assumes "pb_run N cs (pb, n) = Some (outs, pb', n')" and "pb_ok pb" and "None \<notin> set (unread pb)"
  shows "pb_ok pb' \<and> tx_size pb' = tx_size pb \<and> None \<notin> set (unread pb')
    \<and> sent n' @ queued pb' = sent n @ queued pb @ offered cs
    \<and> (\<exists>new. delivered n' = delivered n @ new \<and> unread pb @ new = filter (\<lambda>r. r \<noteq> None) outs @ unread pb')"
  using assms
proof (induction cs arbitrary: pb n outs)
  case Nil
  then show ?case by simp
next
  case (Cons c cs)
  from Cons.prems(1) obtain out pb1 n1 outs' where 1: "pb_exec N c (pb, n) = Some (out, pb1, n1)"
    "pb_run N cs (pb1, n1) = Some (outs', pb', n')" "outs = out @ outs'"
    by (auto split: bind_splits)
  note E = exec_effect[OF 1(1) Cons.prems(2,3)]
  from Cons.IH[OF 1(2)] E obtain new1 new2 where
    "delivered n1 = delivered n @ new1" "unread pb @ new1 = filter (\<lambda>r. r \<noteq> None) out @ unread pb1"
    "delivered n' = delivered n1 @ new2" "unread pb1 @ new2 = filter (\<lambda>r. r \<noteq> None) outs' @ unread pb'"
    by blast
  then have "delivered n' = delivered n @ new1 @ new2 \<and>
      unread pb @ new1 @ new2 = filter (\<lambda>r. r \<noteq> None) outs @ unread pb'"
    using 1(3) by (metis append.assoc filter_append)
  moreover have "sent n' @ queued pb' = sent n @ queued pb @ offered (c # cs)"
    using Cons.IH[OF 1(2)] E by (subst offered_Cons) (metis append.assoc)
  moreover have "pb_ok pb'" "tx_size pb' = tx_size pb" "None \<notin> set (unread pb')"
    using Cons.IH[OF 1(2)] E by simp_all
  ultimately show ?case by blast
qed

end

context live_nic begin

lemma run_ends:
  assumes "pb_ok pb" and "None \<notin> set (unread pb)"
  shows "pb_run N cs (pb, n) \<noteq> None"
  using assms
proof (induction cs arbitrary: pb n)
  case Nil
  show ?case by simp
next
  case (Cons c cs)
  have "flush N (pb, n) \<noteq> None"
    using flush_rest_ends[of "take (unat (tx_nb pb)) (tx_bufs pb)" n] by (auto simp: flush_def)
  then have "pb_exec N c (pb, n) \<noteq> None"
    using send_ends[OF Cons.prems(1)] by (cases c) (auto split: prod.splits)
  then obtain out pb1 n1 where 1: "pb_exec N c (pb, n) = Some (out, pb1, n1)" by auto
  with exec_effect[OF 1 Cons.prems] Cons.IH[of pb1 n1] show ?case by auto
qed

end


subsection \<open>Packets do not linger\<close>

context nic begin

lemma receive_timer:
  assumes all: "\<And>bufs n. fst (rte_eth_tx_burst N bufs n) = length bufs"
    and r: "receive N (pb, n) = (r, pb', n')" and ok: "pb_ok pb"
  shows "tx_size pb' = tx_size pb"
    and "queued pb' = [] \<or> unat (flush_timer pb') = Suc (unat (flush_timer pb))
          \<and> unat (flush_timer pb) < 2 * unat (tx_size pb)"
    and "queued pb = [] \<Longrightarrow> queued pb' = []"
proof -
  obtain pb1 n1 where c: "check_flush_timer N (pb, n) = (pb1, n1)" by fastforce
  have pb': "tx_size pb' = tx_size pb1" "queued pb' = queued pb1" "flush_timer pb' = flush_timer pb1"
    using r c by (auto simp: receive_def queued_def Let_def split: prod.splits if_splits)
  have "tx_size pb1 = tx_size pb \<and> (queued pb1 = [] \<or> unat (flush_timer pb1) = Suc (unat (flush_timer pb))
          \<and> unat (flush_timer pb) < 2 * unat (tx_size pb)) \<and> (queued pb = [] \<longrightarrow> queued pb1 = [])"
  proof (cases "unat (flush_timer pb) < unat (tx_size pb) * 2")
    case True
    then have "unat (flush_timer pb + 1) = Suc (unat (flush_timer pb))"
      using ok by (intro unat_inc) (simp add: pb_ok_def)
    with True c show ?thesis by (auto simp: check_flush_timer_def queued_def)
  next
    case False
    with c have f: "flush_once N (pb, n) = (pb1, n1)" by (simp add: check_flush_timer_def)
    have "length (queued pb) = unat (tx_nb pb)" using ok by (simp add: queued_def pb_ok_def)
    with flush_once_effect(6,8)[OF ok f] all show ?thesis by (simp add: queued_def)
  qed
  with pb' show "tx_size pb' = tx_size pb"
    "queued pb' = [] \<or> unat (flush_timer pb') = Suc (unat (flush_timer pb))
          \<and> unat (flush_timer pb) < 2 * unat (tx_size pb)"
    "queued pb = [] \<Longrightarrow> queued pb' = []" by auto
qed

lemma receives_flush:
  assumes all: "\<And>bufs n. fst (rte_eth_tx_burst N bufs n) = length bufs"
    and "pb_run N (replicate k Receive) (pb, n) = Some (outs, pb', n')"
    and "pb_ok pb" and "None \<notin> set (unread pb)"
    and "2 * unat (tx_size pb) < unat (flush_timer pb) + k \<or> queued pb = []"
  shows "queued pb' = []"
  using assms(2-)
proof (induction k arbitrary: pb n outs)
  case 0
  then show ?case by (auto simp: pb_ok_def)
next
  case (Suc k)
  obtain r pb1 n1 where r: "receive N (pb, n) = (r, pb1, n1)" by (metis prod_cases3)
  with Suc.prems(1) obtain outs' where run: "pb_run N (replicate k Receive) (pb1, n1) = Some (outs', pb', n')"
    by (auto split: bind_splits)
  have x: "pb_exec N Receive (pb, n) = Some ([r], pb1, n1)" using r by simp
  from exec_effect[OF x Suc.prems(2,3)] have ok: "pb_ok pb1" "None \<notin> set (unread pb1)" by auto
  have "2 * unat (tx_size pb1) < unat (flush_timer pb1) + k \<or> queued pb1 = []"
    using receive_timer[OF all r Suc.prems(2)] Suc.prems(4) by auto
  with Suc.IH[OF run ok] show ?case by blast
qed

end

subsection \<open>A card to run on\<close>

text \<open>
  A card that is busy for some bursts, accepting nothing, and otherwise accepts everything it is
  offered; packets arrive from its inbox.
\<close>

record 'm card =
  on_wire :: "'m option list"
  handed :: "'m option list"
  inbox :: "'m list"
  busy :: nat

definition card_ops :: "('m card, 'm) nic_ops" where
  "card_ops = \<lparr>
     rte_eth_tx_burst = (\<lambda>bufs c. if 0 < busy c then (0, c\<lparr>busy := busy c - 1\<rparr>)
        else (length bufs, c\<lparr>on_wire := on_wire c @ bufs\<rparr>)),
     rte_eth_rx_burst = (\<lambda>k c. (map Some (take k (inbox c)),
        c\<lparr>inbox := drop k (inbox c), handed := handed c @ map Some (take k (inbox c))\<rparr>)),
     rte_eth_rx_queue_count = (\<lambda>c. length (inbox c))\<rparr>"

interpretation sim_card: live_nic card_ops on_wire handed busy
  by unfold_locales (auto simp: card_ops_def split: if_splits)


lemma small_replicate: "replicate 2 x = [x, x]" "replicate 5 x = [x, x, x, x, x]"
  by (simp_all add: eval_nat_numeral)

definition demo_card :: "nat card" where
  "demo_card = \<lparr>on_wire = [], handed = [], inbox = [50, 60], busy = 1\<rparr>"

definition demo_pb :: "nat process_buffer" where
  "demo_pb = the (queue_process_buffer 8 2)"

lemma demo_pb: "queue_process_buffer 8 2 = Some demo_pb"
  by (simp add: demo_pb_def queue_process_buffer_def)

text \<open>The second \<open>send\<close> fills the buffer and finds the card busy; the third has to wait for it.\<close>

lemma demo_pb_run:
  "\<exists>pb n. pb_run card_ops [Send (Some 1), Send (Some 2), Receive, Send (Some 3)] (demo_pb, demo_card)
     = Some ([Some 50], pb, n) \<and> on_wire n = [Some 1, Some 2] \<and> queued pb = [Some 3] \<and> unread pb = [Some 60]"
  by (simp add: demo_pb_def demo_card_def queue_process_buffer_def send_def send_wait.simps
      flush_once_def card_ops_def receive_def check_flush_timer_def queued_def unread_def
      Let_def small_replicate)

subsection \<open>Properties\<close>

lemma pb_init_facts:
  assumes "queue_process_buffer rxs txs = Some pb" "0 < unat txs" "unat txs < 2 ^ 15" "0 < unat rxs"
  shows "pb_ok pb" "queued pb = []" "unread pb = []"
  using assms by (auto simp: queue_process_buffer_def pb_ok_def queued_def unread_def split: if_splits)

text \<open>
  C13: Whatever a worker calls on its packet buffer, no packet is lost, repeated or reordered: the
  card has accepted, and the buffer still holds, exactly the packets given to \<open>send\<close>, in order; and
  the packets the card delivered are those \<open>receive\<close> has returned, then those it has yet to return.
\<close>

theorem pb_run_is_fifo:
  assumes "nic N sent delivered" and "queue_process_buffer rxs txs = Some pb0"
    and "0 < unat txs" and "unat txs < 2 ^ 15" and "0 < unat rxs"
    and "pb_run N calls (pb0, n0) = Some (outs, pb, n)"
  shows "sent n @ queued pb = sent n0 @ offered calls
    \<and> delivered n = delivered n0 @ filter (\<lambda>r. r \<noteq> None) outs @ unread pb
    \<and> length (queued pb) \<le> unat txs"
proof -
  note I = pb_init_facts[OF assms(2-5)]
  have size: "tx_size pb0 = txs"
    using assms(2) by (auto simp: queue_process_buffer_def split: if_splits)
  from nic.run_effect[OF assms(1,6)] I size show ?thesis
    by (auto simp: pb_ok_def queued_def)
qed

theorem pb_run_is_fifo_witness:
  "\<exists>pb n. pb_run card_ops [Send (Some 1), Send (Some 2), Receive, Send (Some 3)] (demo_pb, demo_card)
      = Some ([Some 50], pb, n)
    \<and> on_wire n @ queued pb = [Some 1, Some 2, Some 3] \<and> handed n = Some 50 # unread pb \<and> length (queued pb) \<le> 2"
proof -
  from demo_pb_run obtain pb n where
    "pb_run card_ops [Send (Some 1), Send (Some 2), Receive, Send (Some 3)] (demo_pb, demo_card)
      = Some ([Some 50], pb, n)" by blast
  with pb_run_is_fifo[OF sim_card.nic_axioms demo_pb _ _ _ this] show ?thesis
    by (simp add: demo_card_def)
qed

text \<open>
  C33: On a card that does not refuse packets forever every run of calls returns: the loops of
  \<open>send\<close> and \<open>flush\<close> end.
\<close>

theorem pb_run_returns:
  assumes "live_nic N sent delivered patience" and "queue_process_buffer rxs txs = Some pb0"
    and "0 < unat txs" and "unat txs < 2 ^ 15" and "0 < unat rxs"
  shows "\<exists>outs pb n. pb_run N calls (pb0, n0) = Some (outs, pb, n)"
  using live_nic.run_ends[OF assms(1), of pb0 calls n0] pb_init_facts[OF assms(2-5)] by auto

theorem pb_run_returns_witness:
  "\<exists>outs pb n. pb_run card_ops [Send (Some 1), Flush] (demo_pb, demo_card) = Some (outs, pb, n)"
  by (rule pb_run_returns[OF sim_card.live_nic_axioms demo_pb]) simp_all

text \<open>
  A packet does not linger in the buffer: on a card with room, \<open>2 * tx_size + 1\<close> polls of
  \<open>receive\<close> flush whatever was waiting, from any state a run of calls can leave behind.
\<close>

theorem pb_polls_flush:
  assumes "nic N sent delivered" and "\<And>bufs n. fst (rte_eth_tx_burst N bufs n) = length bufs"
    and "queue_process_buffer rxs txs = Some pb0"
    and "0 < unat txs" and "unat txs < 2 ^ 15" and "0 < unat rxs"
    and "pb_run N calls (pb0, n0) = Some (outs, pb, n)"
    and "pb_run N (replicate (2 * unat txs + 1) Receive) (pb, n) = Some (outs', pb', n')"
  shows "queued pb' = []"
proof -
  note I = pb_init_facts[OF assms(3-6)]
  have size: "tx_size pb0 = txs"
    using assms(3) by (auto simp: queue_process_buffer_def split: if_splits)
  have "None \<notin> set (unread pb0)" using I by simp
  from nic.run_effect[OF assms(1,7) I(1) this] size
  have "pb_ok pb" "None \<notin> set (unread pb)" "tx_size pb = txs" by simp_all
  then show ?thesis by (intro nic.receives_flush[OF assms(1,2,8)]) simp_all
qed

text \<open>A card that always has room.\<close>

definition roomy_ops :: "(nat card, nat) nic_ops" where
  "roomy_ops = card_ops\<lparr>rte_eth_tx_burst := \<lambda>bufs c. (length bufs, c\<lparr>on_wire := on_wire c @ bufs\<rparr>)\<rparr>"

interpretation roomy_card: nic roomy_ops on_wire handed
  by unfold_locales (auto simp: roomy_ops_def card_ops_def)

theorem pb_polls_flush_witness:
  "\<exists>pb n outs pb' n'. pb_run roomy_ops [Send (Some 1)] (demo_pb, demo_card) = Some ([], pb, n)
    \<and> queued pb = [Some 1] \<and> pb_run roomy_ops (replicate 5 Receive) (pb, n) = Some (outs, pb', n') \<and> queued pb' = []"
proof -
  have "\<exists>pb n outs pb' n'. pb_run roomy_ops [Send (Some 1)] (demo_pb, demo_card) = Some ([], pb, n)
    \<and> queued pb = [Some 1] \<and> pb_run roomy_ops (replicate 5 Receive) (pb, n) = Some (outs, pb', n')"
    by (simp add: demo_pb_def demo_card_def queue_process_buffer_def send_def send_wait.simps
      flush_once_def roomy_ops_def card_ops_def receive_def check_flush_timer_def queued_def
      Let_def small_replicate)
  then obtain pb n outs pb' n' where
    1: "pb_run roomy_ops [Send (Some 1)] (demo_pb, demo_card) = Some ([], pb, n)" "queued pb = [Some 1]"
      "pb_run roomy_ops (replicate 5 Receive) (pb, n) = Some (outs, pb', n')" by blast
  have "queued pb' = []"
    by (rule pb_polls_flush[OF roomy_card.nic_axioms _ demo_pb _ _ _ 1(1)])
      (use 1(3) in \<open>simp_all add: roomy_ops_def\<close>)
  with 1 show ?thesis by blast
qed

end
