(* ===== verification/NetUtils.thy ===== *)
theory NetUtils
  imports Prelude
begin

text \<open>
  \<open>server/backend/net_utils.hpp\<close>: byte order conversion, the address helpers and the tables of
  processors by socket. The host is little endian (\<open>header.hpp\<close> asserts it), so an object of \<open>n\<close>
  bytes is the list of its bytes from the least significant one.

  The helpers that ask the system are in \<open>SysInfo\<close>; the searches for an \<open>ibv\<close> device, which the
  build leaves out (\<open>ENABLE_IB_UTILS\<close>), are not modelled.
\<close>

subsection \<open>Bytes of a word\<close>

definition le_bytes :: "nat \<Rightarrow> 'a::len word \<Rightarrow> u8 list" where
  "le_bytes n x = map (\<lambda>i. ucast (drop_bit (8 * i) x)) [0..<n]"

fun of_le_bytes :: "u8 list \<Rightarrow> 'a::len word" where
  "of_le_bytes [] = 0"
| "of_le_bytes (b # bs) = ucast b OR push_bit 8 (of_le_bytes bs)"

lemma length_le_bytes [simp]: "length (le_bytes n x) = n"
  by (simp add: le_bytes_def)

lemma bit_le_bytes:
  "i < n \<Longrightarrow> bit (le_bytes n x ! i) k \<longleftrightarrow> k < 8 \<and> bit x (8 * i + k)" for x :: "'a::len word"
  by (auto simp: le_bytes_def bit_ucast_iff bit_drop_bit_eq)

lemma bit_of_le_bytes:
  "bit (of_le_bytes bs :: 'a::len word) k \<longleftrightarrow> k < LENGTH('a) \<and> k < 8 * length bs \<and> bit (bs ! (k div 8)) (k mod 8)"
proof (induction bs arbitrary: k)
  case Nil
  show ?case by simp
next
  case (Cons b bs)
  show ?case
  proof (cases "k < 8")
    case True
    then show ?thesis
      by (auto simp: bit_or_iff bit_ucast_iff bit_push_bit_iff)
  next
    case False
    then have k: "(k - 8) div 8 = k div 8 - 1" "(k - 8) mod 8 = k mod 8" "k div 8 \<noteq> 0"
      by (auto simp: le_div_geq le_mod_geq not_less)
    have len: "k - 8 < 8 * length bs \<longleftrightarrow> k < 8 * length (b # bs)" using False by auto
    have "\<not> bit b k" using False by (auto dest: bit_imp_le_length)
    with False k len show ?thesis
      by (simp add: bit_or_iff bit_ucast_iff bit_push_bit_iff Cons.IH nth_Cons' del: length_Cons) (auto simp: less_imp_diff_less)
  qed
qed

lemma of_le_bytes_le_bytes:
  assumes "LENGTH('a::len) \<le> 8 * n"
  shows "of_le_bytes (le_bytes n x) = (x :: 'a word)"
proof (rule bit_word_eqI)
  fix k assume "k < LENGTH('a)"
  with assms show "bit (of_le_bytes (le_bytes n x) :: 'a word) k \<longleftrightarrow> bit x k"
    by (simp add: bit_of_le_bytes bit_le_bytes div_less_iff_less_mult mult.commute)
qed

lemma le_bytes_of_le_bytes:
  assumes "8 * length bs \<le> LENGTH('a::len)"
  shows "le_bytes (length bs) (of_le_bytes bs :: 'a word) = bs"
proof (rule nth_equalityI)
  fix i assume i: "i < length (le_bytes (length bs) (of_le_bytes bs :: 'a word))"
  show "le_bytes (length bs) (of_le_bytes bs :: 'a word) ! i = bs ! i"
  proof (rule bit_word_eqI)
    fix k :: nat assume "k < LENGTH(8)"
    then have "k < 8" by simp
    then have "8 * i + k < 8 * length bs" using i by simp
    with assms i \<open>k < 8\<close> show "bit (le_bytes (length bs) (of_le_bytes bs :: 'a word) ! i) k \<longleftrightarrow> bit (bs ! i) k"
      by (simp add: bit_le_bytes bit_of_le_bytes)
  qed
qed simp

subsection \<open>Byte order\<close>

text \<open>\<open>htobe\<close> at any of the widths of the code: the bytes of the object, reversed. \<open>betoh\<close> is the same.\<close>

definition htobe :: "'a::len word \<Rightarrow> 'a word" where
  "htobe x = of_le_bytes (rev (le_bytes (LENGTH('a) div 8) x))"

definition betoh :: "'a::len word \<Rightarrow> 'a word" where
  "betoh x = htobe x"

lemma le_bytes_htobe:
  "8 dvd LENGTH('a::len) \<Longrightarrow> le_bytes (LENGTH('a) div 8) (htobe (x :: 'a word)) = rev (le_bytes (LENGTH('a) div 8) x)"
  using le_bytes_of_le_bytes[of "rev (le_bytes (LENGTH('a) div 8) x)", where 'a = 'a]
  by (simp add: htobe_def)

lemma betoh_htobe:
  assumes "8 dvd LENGTH('a::len)"
  shows "betoh (htobe x) = (x :: 'a word)" "htobe (betoh x) = x"
proof -
  have "LENGTH('a) \<le> 8 * (LENGTH('a) div 8)" using assms by simp
  then show "betoh (htobe x) = x" "htobe (betoh x) = x"
    using le_bytes_htobe[OF assms, of x] of_le_bytes_le_bytes[of "LENGTH('a) div 8" x]
    by (simp_all add: betoh_def htobe_def[of "htobe x"])
qed

lemma betoh_htobe_widths [simp]:
  "betoh (htobe (a :: u8)) = a" "betoh (htobe (b :: u16)) = b" "betoh (htobe (c :: u32)) = c"
  "betoh (htobe (d :: u64)) = d"
  by (simp_all add: betoh_htobe)

lemma htobe8 [simp]: "htobe (x :: u8) = x" "betoh (x :: u8) = x"
  by (simp_all add: betoh_def htobe_def le_bytes_def)

text \<open>The stores \<open>htobe(x, y)\<close>: assign, converting to the target's type, then swap.\<close>

definition htobe_store :: "'b::len word \<Rightarrow> 'a::len word" where
  "htobe_store y = htobe (ucast y)"

lemma swap4: "le_bytes 4 (htobe (of_le_bytes bs :: u32)) = rev bs" if "length bs = 4"
  using that le_bytes_htobe[of "of_le_bytes bs :: u32"] le_bytes_of_le_bytes[of bs, where 'a = 32] by simp

subsection \<open>Addresses\<close>

text \<open>A \<open>union ibv_gid\<close> seen through its two 64 bit members.\<close>

record ibv_gid =
  subnet_prefix :: u64
  interface_id :: u64

definition ipv4_to_gid :: "u32 \<Rightarrow> ibv_gid" where
  "ipv4_to_gid ip = \<lparr>subnet_prefix = 0, interface_id = htobe (0x0000ffff00000000 OR ucast ip)\<rparr>"

definition gid_to_ipv4 :: "ibv_gid \<Rightarrow> u32" where
  "gid_to_ipv4 gid = ucast (betoh (interface_id gid))"

lemma gid_to_ipv4_ipv4_to_gid: "gid_to_ipv4 (ipv4_to_gid ip) = ip"
proof -
  have "ucast (0x0000ffff00000000 OR ucast ip :: u64) = ip"
  proof (rule bit_word_eqI)
    fix k assume k: "k < LENGTH(32)"
    have "(0x0000ffff00000000 :: u64) = push_bit 32 0xffff" by (simp add: push_bit_eq_mult)
    then have "\<not> bit (0x0000ffff00000000 :: u64) k"
      using k by (simp only: bit_push_bit_iff) simp
    then show "bit (ucast (0x0000ffff00000000 OR ucast ip :: u64) :: u32) k \<longleftrightarrow> bit ip k"
      using k by (simp add: bit_ucast_iff bit_or_iff)
  qed
  then show ?thesis by (simp add: gid_to_ipv4_def ipv4_to_gid_def)
qed

text \<open>\<open>sprintf("%04x", v)\<close> of a 16 bit value.\<close>

definition hex_digit :: "nat \<Rightarrow> char" where
  "hex_digit d = ''0123456789abcdef'' ! d"

definition hex04 :: "u16 \<Rightarrow> string" where
  "hex04 v = map (\<lambda>i. hex_digit (unat v div 16 ^ i mod 16)) [3, 2, 1, 0]"

definition gid_to_str :: "ibv_gid \<Rightarrow> string" where
  "gid_to_str gid =
     (let bytes = le_bytes 8 (subnet_prefix gid) @ le_bytes 8 (interface_id gid);
          len = length bytes div 2
      in concat (map (\<lambda>i. hex04 (betoh (of_le_bytes (take 2 (drop (2 * i) bytes)) :: u16))
           @ (if i < len - 1 then '':'' else [])) [0..<len]))"

subsection \<open>Processors by socket\<close>

text \<open>
  \<open>socket_list\<close> is what \<open>get_socket_list_with_cpu_index\<close> scans from \<open>/proc/cpuinfo\<close>: the socket of
  each processor. \<open>None\<close> where the code dereferences the end of an empty list.
\<close>

definition get_cpu_list_with_socket_index :: "nat list \<Rightarrow> nat list list option" where
  "get_cpu_list_with_socket_index socket_list =
     (if socket_list = [] then None
      else Some (fold (\<lambda>cpu cl. cl[socket_list ! cpu := cl ! (socket_list ! cpu) @ [cpu]])
        [0..<length socket_list] (replicate (1 + Max (set socket_list)) [])))"

definition get_cpu_list_by_socket :: "nat list \<Rightarrow> int \<Rightarrow> nat list option" where
  "get_cpu_list_by_socket socket_list socket = do {
     cpu_list \<leftarrow> get_cpu_list_with_socket_index socket_list;
     Some (if socket < 0 \<or> socket \<ge> int (length cpu_list) then [] else cpu_list ! nat socket)
   }"

lemma cpu_list_fold:
  assumes "\<forall>i<k. sl ! i < n"
  shows "length (fold (\<lambda>cpu cl. cl[sl ! cpu := cl ! (sl ! cpu) @ [cpu]]) [0..<k] (replicate n [])) = n
    \<and> (\<forall>s<n. fold (\<lambda>cpu cl. cl[sl ! cpu := cl ! (sl ! cpu) @ [cpu]]) [0..<k] (replicate n []) ! s
        = filter (\<lambda>c. sl ! c = s) [0..<k])"
  using assms by (induction k) (auto simp: nth_list_update)

lemma get_cpu_list_with_socket_index_eq:
  assumes "sl \<noteq> []"
  shows "get_cpu_list_with_socket_index sl =
    Some (map (\<lambda>s. filter (\<lambda>c. sl ! c = s) [0..<length sl]) [0..<1 + Max (set sl)])"
proof -
  have "\<forall>i<length sl. sl ! i < 1 + Max (set sl)"
    by (auto simp: less_Suc_eq_le)
  note F = cpu_list_fold[OF this]
  then have "fold (\<lambda>cpu cl. cl[sl ! cpu := cl ! (sl ! cpu) @ [cpu]]) [0..<length sl] (replicate (1 + Max (set sl)) [])
      = map (\<lambda>s. filter (\<lambda>c. sl ! c = s) [0..<length sl]) [0..<1 + Max (set sl)]"
    by (intro nth_equalityI) (simp_all del: upt_Suc)
  then show ?thesis
    using assms by (simp add: get_cpu_list_with_socket_index_def del: upt_Suc)
qed

lemma get_cpu_list_by_socket_eq:
  assumes "sl \<noteq> []"
  shows "get_cpu_list_by_socket sl (int s) = Some (filter (\<lambda>c. sl ! c = s) [0..<length sl])"
proof (cases "s < 1 + Max (set sl)")
  case True
  then show ?thesis using assms
    by (simp add: get_cpu_list_by_socket_def get_cpu_list_with_socket_index_eq del: upt_Suc)
next
  case False
  have "sl ! c \<noteq> s" if "c < length sl" for c
    using Max_ge[OF _ nth_mem[OF that]] False by auto
  then have "filter (\<lambda>c. sl ! c = s) [0..<length sl] = []" by (auto simp: filter_empty_conv)
  with False assms show ?thesis
    by (simp add: get_cpu_list_by_socket_def get_cpu_list_with_socket_index_eq del: upt_Suc)
qed

subsection \<open>Properties\<close>

text \<open>
  Byte order conversion is its own inverse at every width, so \<open>betoh\<close>, which the code defines as
  \<open>htobe\<close>, reads what \<open>htobe\<close> wrote; and in memory the converted value is the big-endian image of
  the original.
\<close>

theorem byte_order_roundtrip:
  "betoh (htobe (a :: u8)) = a \<and> betoh (htobe (b :: u16)) = b \<and> betoh (htobe (c :: u32)) = c \<and> betoh (htobe (d :: u64)) = d
    \<and> le_bytes 2 (htobe b) = rev (le_bytes 2 b) \<and> le_bytes 4 (htobe c) = rev (le_bytes 4 c)
    \<and> le_bytes 8 (htobe d) = rev (le_bytes 8 d)"
  using le_bytes_htobe[of b] le_bytes_htobe[of c] le_bytes_htobe[of d] by simp

text \<open>
  An IPv4 address survives the GID conversions, and its GID is the IPv4-mapped one: ten zero bytes,
  two bytes \<open>0xff\<close>, then the address in network order.
\<close>

theorem gid_roundtrip:
  "gid_to_ipv4 (ipv4_to_gid addr) = addr
    \<and> le_bytes 8 (subnet_prefix (ipv4_to_gid addr)) @ le_bytes 8 (interface_id (ipv4_to_gid addr))
      = replicate 10 0 @ [0xff, 0xff] @ rev (le_bytes 4 addr)"
proof
  show "gid_to_ipv4 (ipv4_to_gid addr) = addr" by (rule gid_to_ipv4_ipv4_to_gid)
  let ?v = "0x0000ffff00000000 OR ucast addr :: u64"
  have n: "le_bytes 8 ?v ! i = (le_bytes 4 addr @ [0xff, 0xff, 0, 0]) ! i" if "i < 8" for i
  proof (rule bit_word_eqI)
    fix k assume k: "k < LENGTH(8)"
    have c: "(0x0000ffff00000000 :: u64) = push_bit 32 (mask 16)" by (simp add: push_bit_eq_mult mask_eq_exp_minus_1)
    have b: "bit (le_bytes 8 ?v ! i) k \<longleftrightarrow> (32 \<le> 8 * i + k \<and> 8 * i + k < 48) \<or> bit addr (8 * i + k)"
      using that k by (auto simp: bit_le_bytes bit_or_iff c bit_push_bit_iff bit_mask_iff bit_ucast_iff dest: bit_imp_le_length)
    have o: "(0xff :: u8) = mask 8" by (simp add: mask_eq_exp_minus_1)
    have "i < 4 \<or> i = 4 \<or> i = 5 \<or> i = 6 \<or> i = 7" using that by linarith
    then consider "i < 4" | "i = 4" | "i = 5" | "i = 6" | "i = 7" by blast
    then show "bit (le_bytes 8 ?v ! i) k \<longleftrightarrow> bit ((le_bytes 4 addr @ [0xff, 0xff, 0, 0]) ! i) k"
    proof cases
      case 1
      then show ?thesis using k b by (simp add: nth_append bit_le_bytes)
    qed (unfold b, use k in \<open>auto simp: nth_append o bit_mask_iff dest: bit_imp_le_length\<close>)
  qed
  have "le_bytes 8 ?v = le_bytes 4 addr @ [0xff, 0xff, 0, 0]"
    by (rule nth_equalityI) (use n in simp_all)
  moreover have "le_bytes 8 (htobe ?v) = rev (le_bytes 8 ?v)" using le_bytes_htobe[of ?v] by simp
  moreover have "le_bytes 8 (0 :: u64) = replicate 8 0"
    by (rule nth_equalityI) (simp_all add: le_bytes_def)
  moreover have "replicate 10 (0 :: u8) = replicate 8 0 @ [0, 0]" by (simp add: eval_nat_numeral)
  ultimately show "le_bytes 8 (subnet_prefix (ipv4_to_gid addr)) @ le_bytes 8 (interface_id (ipv4_to_gid addr))
      = replicate 10 0 @ [0xff, 0xff] @ rev (le_bytes 4 addr)"
    by (simp add: ipv4_to_gid_def)
qed

end
