(* ===== verification/Header.thy ===== *)
theory Header
  imports CommonTypes NetUtils
begin

text \<open>
  The packets of the backend (\<open>server/backend/header.hpp\<close>) and the byte swapping copies of
  \<open>server/backend/worker.cpp\<close>. A record field holds the value the host reads from that struct member; what
  is on the wire are the bytes of the members in the order of the struct (\<open>inc_bytes\<close>).
\<close>

subsection \<open>Sizes\<close>

definition PAYLOAD_LEN :: nat where [const_defs]: "PAYLOAD_LEN = 64"
definition PAYLOAD_SIZE :: nat where [const_defs]: "PAYLOAD_SIZE = PAYLOAD_LEN * 4"
definition sizeof_rte_ether_hdr :: nat where [const_defs]: "sizeof_rte_ether_hdr = 6 + 6 + 2"
definition sizeof_rte_ipv4_hdr :: nat where [const_defs]: "sizeof_rte_ipv4_hdr = 20"
definition sizeof_netccl_inc_hdr :: nat where [const_defs]: "sizeof_netccl_inc_hdr = 1 + 1 + 1 + 1 + 2 + 4"

text \<open>No member needs padding: the Ethernet header is 2-aligned, the others are packed.\<close>

definition sizeof_netccl_pkt :: nat where [const_defs]:
  "sizeof_netccl_pkt = sizeof_rte_ether_hdr + sizeof_rte_ipv4_hdr + sizeof_netccl_inc_hdr + PAYLOAD_SIZE"

definition IPPROTO_NETCCL :: u8 where "IPPROTO_NETCCL = 0xfe"

subsection \<open>Headers and packet buffers\<close>

record eth_hdr =
  eth_dst :: "u8 list"
  eth_src :: "u8 list"
  ether_type :: u16

record ip_hdr =
  version_ihl :: u8
  type_of_service :: u8
  total_length :: u16
  packet_id :: u16
  fragment_offset :: u16
  time_to_live :: u8
  next_proto_id :: u8
  hdr_checksum :: u16
  ip_src_addr :: u32
  ip_dst_addr :: u32

record inc_hdr =
  coll_type :: u8
  inc_group_id :: u8
  inc_rank :: u8
  inc_root :: u8
  inc_agg_addr :: u16
  inc_psn :: u32

text \<open>A packet buffer: its two lengths and its bytes, read as a \<open>netccl_pkt\<close>.\<close>

record mbuf =
  data_len :: u16
  pkt_len :: u32
  eth :: eth_hdr
  ip :: ip_hdr
  inc :: inc_hdr
  payload :: "u8 list"

definition get_psn :: "mbuf \<Rightarrow> u32" where
  "get_psn pkt = betoh (inc_psn (inc pkt))"

definition get_group_id :: "mbuf \<Rightarrow> u8" where
  "get_group_id pkt = betoh (inc_group_id (inc pkt))"

subsection \<open>The INC header on the wire\<close>

definition inc_bytes :: "inc_hdr \<Rightarrow> u8 list" where
  "inc_bytes h = [coll_type h, inc_group_id h, inc_rank h, inc_root h]
     @ le_bytes 2 (inc_agg_addr h) @ le_bytes 4 (inc_psn h)"

definition be_bytes :: "nat \<Rightarrow> 'a::len word \<Rightarrow> u8 list" where
  "be_bytes n x = rev (le_bytes n x)"

text \<open>The header as \<open>fill_pkt\<close> stores it, and as the switch reads it.\<close>

definition mk_inc :: "u8 \<Rightarrow> u8 \<Rightarrow> u8 \<Rightarrow> u8 \<Rightarrow> u16 \<Rightarrow> u32 \<Rightarrow> inc_hdr" where
  "mk_inc c g r ro a p = \<lparr>coll_type = htobe c, inc_group_id = htobe g, inc_rank = htobe r,
     inc_root = htobe ro, inc_agg_addr = htobe a, inc_psn = htobe p\<rparr>"

lemma mk_inc_bytes:
  "inc_bytes (mk_inc c g r ro a p) = [c, g, r, ro] @ be_bytes 2 a @ be_bytes 4 p"
  using le_bytes_htobe[of a] le_bytes_htobe[of p]
  by (simp add: inc_bytes_def mk_inc_def be_bytes_def)

lemma length_inc_bytes: "length (inc_bytes h) = sizeof_netccl_inc_hdr"
  by (simp add: inc_bytes_def const_defs)

subsection \<open>Byte swapping copies\<close>

text \<open>
  \<open>memcpy_htobe32_inline\<close>: \<open>size / 4\<close> words are swapped from the source to the start of the
  destination; the rest of the destination stays. The fixed size variant and the one \<open>memcpy_htobe32_select\<close>
  picks otherwise are the same function of their arguments.
\<close>

fun swap_words :: "nat \<Rightarrow> u8 list \<Rightarrow> u8 list" where
  "swap_words 0 src = []"
| "swap_words (Suc n) src = le_bytes 4 (htobe (of_le_bytes (take 4 src) :: u32)) @ swap_words n (drop 4 src)"

definition memcpy_htobe32 :: "u8 list \<Rightarrow> u8 list \<Rightarrow> nat \<Rightarrow> u8 list" where
  "memcpy_htobe32 dst src sz = swap_words (sz div 4) src @ drop (4 * (sz div 4)) dst"

definition memcpy_htobe32_select :: "u8 list \<Rightarrow> u8 list \<Rightarrow> nat \<Rightarrow> u8 list" where
  "memcpy_htobe32_select dst src sz =
     (if sz = PAYLOAD_SIZE then memcpy_htobe32 dst src PAYLOAD_SIZE else memcpy_htobe32 dst src sz)"

lemma memcpy_htobe32_select_eq [simp]: "memcpy_htobe32_select dst src sz = memcpy_htobe32 dst src sz"
  by (simp add: memcpy_htobe32_select_def)

lemma length_swap_words [simp]: "length (swap_words n src) = 4 * n"
  by (induction n arbitrary: src) simp_all

lemma swap_words_swap:
  "4 * n \<le> length src \<Longrightarrow> swap_words n (swap_words n src @ rest) = take (4 * n) src"
proof (induction n arbitrary: src)
  case 0
  show ?case by simp
next
  case (Suc n)
  have len: "length (take 4 src) = 4" using Suc.prems by simp
  have "take (4 * Suc n) src = take 4 src @ take (4 * n) (drop 4 src)"
    using Suc.prems by (metis mult_Suc_right take_add)
  with Suc len show ?case by (simp add: swap4)
qed

lemma swap_words_take: "4 * n \<le> k \<Longrightarrow> swap_words n (take k src) = swap_words n src"
proof (induction n arbitrary: src k)
  case (Suc n)
  then have "4 \<le> k" "4 * n \<le> k - 4" by simp_all
  with Suc.IH[of "k - 4" "drop 4 src"] show ?case
    by (simp add: min_def drop_take)
qed simp

text \<open>Each word comes out in big endian order: its four bytes reversed.\<close>

lemma swap_words_nth:
  assumes "i < 4 * n" "4 * n \<le> length src"
  shows "swap_words n src ! i = src ! (4 * (i div 4) + (3 - i mod 4))"
  using assms
proof (induction n arbitrary: src i)
  case (Suc n)
  have len: "length (take 4 src) = 4" using Suc.prems by simp
  show ?case
  proof (cases "i < 4")
    case True
    then have "swap_words (Suc n) src ! i = rev (take 4 src) ! i"
      using len by (simp add: swap4 nth_append)
    also have "\<dots> = src ! (3 - i)"
      using True len by (simp add: rev_nth)
    finally show ?thesis using True by simp
  next
    case False
    then have i: "(i - 4) div 4 = i div 4 - 1" "(i - 4) mod 4 = i mod 4" "1 \<le> i div 4"
      by (auto simp: le_div_geq le_mod_geq not_less)
    have "swap_words (Suc n) src ! i = swap_words n (drop 4 src) ! (i - 4)"
      using False by (simp add: nth_append)
    also have "\<dots> = drop 4 src ! (4 * ((i - 4) div 4) + (3 - (i - 4) mod 4))"
      using False Suc.prems by (intro Suc.IH) auto
    also have "\<dots> = src ! (4 + (4 * (i div 4 - 1) + (3 - i mod 4)))"
      using Suc.prems by (subst nth_drop) (simp_all add: i)
    also have "4 + (4 * (i div 4 - 1) + (3 - i mod 4)) = 4 * (i div 4) + (3 - i mod 4)"
      using i(3) by simp
    finally show ?thesis .
  qed
qed simp

subsection \<open>Properties\<close>

text \<open>
  The INC header is ten bytes on the wire: operation, group, rank and root, then the aggregator
  address and the packet number in network order; and the worker reads group and number back.
\<close>

theorem inc_header_on_wire:
  "inc_bytes (mk_inc c g r ro a p) = [c, g, r, ro] @ rev (le_bytes 2 a) @ rev (le_bytes 4 p)
    \<and> length (inc_bytes (mk_inc c g r ro a p)) = sizeof_netccl_inc_hdr
    \<and> get_psn (pkt\<lparr>inc := mk_inc c g r ro a p\<rparr>) = p \<and> get_group_id (pkt\<lparr>inc := mk_inc c g r ro a p\<rparr>) = g"
proof -
  show ?thesis
    using mk_inc_bytes[of c g r ro a p] length_inc_bytes[of "mk_inc c g r ro a p"]
    by (simp add: be_bytes_def get_psn_def get_group_id_def mk_inc_def)
qed

end
