(* ===== verification/Binary64.thy ===== *)
theory Binary64
  imports Complex_Main Prelude
begin

text \<open>
  The \<open>double\<close> arithmetic of the congestion control: IEEE 754 binary64 on rationals. An operation
  gives the exact result rounded to the nearest number with a 53 bit significand, ties to the even
  significand. Numbers below \<open>2 ^ -1022\<close> lose precision as subnormals do; infinities and NaN are not
  represented, which is sound for the code as its numbers stay below 4096 (the congestion control invariant).
\<close>

subsection \<open>Rounding to an integer, ties to even\<close>

definition rhe :: "rat \<Rightarrow> int" where
  "rhe y = (let n = \<lfloor>y\<rfloor>; r = y - of_int n in
     if r < 1 / 2 then n else if 1 / 2 < r then n + 1 else if even n then n else n + 1)"

lemma rhe_of_int [simp]: "rhe (of_int n) = n"
  by (simp add: rhe_def)

lemma rhe_mono:
  assumes "x \<le> y"
  shows "rhe x \<le> rhe y"
proof (cases "\<lfloor>x\<rfloor> = \<lfloor>y\<rfloor>")
  case True
  then have "x - of_int \<lfloor>x\<rfloor> \<le> y - of_int \<lfloor>y\<rfloor>" using assms by simp
  with True show ?thesis by (auto simp: rhe_def Let_def)
next
  case False
  with floor_mono[OF assms] have "\<lfloor>x\<rfloor> + 1 \<le> \<lfloor>y\<rfloor>" by simp
  moreover have "rhe x \<le> \<lfloor>x\<rfloor> + 1" "\<lfloor>y\<rfloor> \<le> rhe y" by (auto simp: rhe_def Let_def)
  ultimately show ?thesis by simp
qed

subsection \<open>Rounding to 53 significant bits\<close>

fun ilog2 :: "nat \<Rightarrow> nat" where
  "ilog2 n = (if n < 2 then 0 else Suc (ilog2 (n div 2)))"

declare ilog2.simps [simp del]

lemma ilog2_bounds: "0 < n \<Longrightarrow> 2 ^ ilog2 n \<le> n \<and> n < 2 ^ Suc (ilog2 n)"
proof (induction n rule: ilog2.induct)
  case (1 n)
  show ?case
  proof (cases "n < 2")
    case True
    with 1 show ?thesis by (simp add: ilog2.simps)
  next
    case False
    with 1 have "2 ^ ilog2 (n div 2) \<le> n div 2" "n div 2 < 2 ^ Suc (ilog2 (n div 2))" by simp_all
    then have "2 * 2 ^ ilog2 (n div 2) \<le> n" "n < 2 * 2 ^ Suc (ilog2 (n div 2))" by linarith+
    with False show ?thesis by (subst (1 2) ilog2.simps) simp
  qed
qed

text \<open>The binary exponent of a positive number.\<close>

definition fp_exp :: "rat \<Rightarrow> int" where
  "fp_exp x = (if 1 \<le> x then int (ilog2 (nat \<lfloor>x\<rfloor>)) else - int (ilog2 (nat (\<lceil>1 / x\<rceil> - 1))) - 1)"

lemma fp_exp_bounds:
  assumes "0 < x"
  shows "2 powi fp_exp x \<le> x \<and> x < 2 powi (fp_exp x + 1)"
proof (cases "1 \<le> x")
  case True
  let ?n = "nat \<lfloor>x\<rfloor>"
  have n: "of_nat ?n \<le> x" "x < of_nat ?n + 1" "0 < ?n"
    using True floor_correct[of x] by simp_all
  from ilog2_bounds[OF n(3)] have "2 ^ ilog2 ?n \<le> ?n" "?n + 1 \<le> 2 ^ Suc (ilog2 ?n)" by simp_all
  then have "(of_nat (2 ^ ilog2 ?n) :: rat) \<le> of_nat ?n" "(of_nat (?n + 1) :: rat) \<le> of_nat (2 ^ Suc (ilog2 ?n))"
    by (simp_all only: of_nat_le_iff)
  then have "(2::rat) ^ ilog2 ?n \<le> x" "x < 2 ^ Suc (ilog2 ?n)"
    using n(1,2) by (simp_all only: of_nat_power of_nat_numeral of_nat_add of_nat_1)
  then show ?thesis
    using True by (simp add: fp_exp_def power_int_add)
next
  case False
  let ?m = "nat (\<lceil>1 / x\<rceil> - 1)"
  have "1 < 1 / x" using False assms by simp
  then have c: "1 < \<lceil>1 / x\<rceil>" by (simp add: less_ceiling_iff)
  then have m0: "0 < ?m" by simp
  have "of_int \<lceil>1 / x\<rceil> - 1 < 1 / x" "1 / x \<le> of_int \<lceil>1 / x\<rceil>" by linarith+
  moreover have "int ?m = \<lceil>1 / x\<rceil> - 1" using c by (intro nat_0_le) linarith
  then have "(of_nat ?m :: rat) = of_int \<lceil>1 / x\<rceil> - 1" by (metis of_int_1 of_int_diff of_int_of_nat_eq)
  ultimately have m: "of_nat ?m < 1 / x" "1 / x \<le> of_nat ?m + 1" by simp_all
  from ilog2_bounds[OF m0] have "2 ^ ilog2 ?m \<le> ?m" "?m + 1 \<le> 2 ^ Suc (ilog2 ?m)" by simp_all
  then have "(of_nat (2 ^ ilog2 ?m) :: rat) \<le> of_nat ?m" "(of_nat (?m + 1) :: rat) \<le> of_nat (2 ^ Suc (ilog2 ?m))"
    by (simp_all only: of_nat_le_iff)
  then have "(2::rat) ^ ilog2 ?m < 1 / x" "1 / x \<le> 2 ^ Suc (ilog2 ?m)"
    using m unfolding of_nat_power of_nat_numeral of_nat_add of_nat_1 by linarith+
  then have "x < 1 / 2 ^ ilog2 ?m" "1 / 2 ^ Suc (ilog2 ?m) \<le> x"
    using assms by (simp_all add: field_simps)
  moreover have "(2::rat) powi (- int j - 1) = 1 / 2 ^ Suc j" "(2::rat) powi (- int j) = 1 / 2 ^ j" for j
    by (simp_all add: power_int_minus power_int_diff field_simps)
  ultimately show ?thesis
    using False by (simp add: fp_exp_def)
qed

definition fp_round_pos :: "rat \<Rightarrow> rat" where
  "fp_round_pos x = (if x = 0 then 0 else
     let s = max (fp_exp x) (-1022) - 52 in of_int (rhe (x * 2 powi (- s))) * 2 powi s)"

definition fp_round :: "rat \<Rightarrow> rat" where
  "fp_round x = (if x < 0 then - fp_round_pos (- x) else fp_round_pos x)"

definition fp_add :: "rat \<Rightarrow> rat \<Rightarrow> rat" where "fp_add x y = fp_round (x + y)"
definition fp_sub :: "rat \<Rightarrow> rat \<Rightarrow> rat" where "fp_sub x y = fp_round (x - y)"
definition fp_mul :: "rat \<Rightarrow> rat \<Rightarrow> rat" where "fp_mul x y = fp_round (x * y)"
definition fp_div :: "rat \<Rightarrow> rat \<Rightarrow> rat" where "fp_div x y = fp_round (x / y)"

subsection \<open>Rounding is monotone and exact on integers\<close>

lemma powi_le_of_exp:
  assumes "0 < y" "(2::rat) powi e \<le> y"
  shows "e \<le> fp_exp y"
proof (rule ccontr)
  assume "\<not> e \<le> fp_exp y"
  then have "(2::rat) powi (fp_exp y + 1) \<le> 2 powi e"
    by (intro power_int_increasing) simp_all
  with assms fp_exp_bounds[OF assms(1)] show False by simp
qed

lemma fp_exp_mono: "0 < x \<Longrightarrow> x \<le> y \<Longrightarrow> fp_exp x \<le> fp_exp y"
  using fp_exp_bounds[of x] by (intro powi_le_of_exp) auto

text \<open>A multiple of the unit in the last place stays.\<close>

lemma scale_cancel: "(x * 2 powi (- s)) * 2 powi s = (x :: rat)"
  by (simp add: power_int_minus)

lemma scale_cancel': "x * 2 powi s * 2 powi (- s) = (x :: rat)"
  using scale_cancel[of x "- s"] by (simp only: minus_minus)

lemma round_at_le:
  assumes "x \<le> of_int k * 2 powi s"
  shows "of_int (rhe (x * 2 powi (- s))) * 2 powi s \<le> of_int k * (2 powi s :: rat)"
proof -
  have "x * 2 powi (- s) \<le> of_int k * 2 powi s * 2 powi (- s)"
    using assms by (intro mult_right_mono) simp_all
  then have "x * 2 powi (- s) \<le> of_int k" by (simp only: scale_cancel')
  then have "rhe (x * 2 powi (- s)) \<le> k" using rhe_mono by fastforce
  then show ?thesis by (intro mult_right_mono) simp_all
qed

lemma round_at_ge:
  assumes "of_int k * 2 powi s \<le> x"
  shows "of_int k * (2 powi s :: rat) \<le> of_int (rhe (x * 2 powi (- s))) * 2 powi s"
proof -
  have "of_int k * 2 powi s * 2 powi (- s) \<le> x * 2 powi (- s)"
    using assms by (intro mult_right_mono) simp_all
  then have "of_int k \<le> x * 2 powi (- s)" by (simp only: scale_cancel')
  then have "k \<le> rhe (x * 2 powi (- s))" using rhe_mono by fastforce
  then show ?thesis by (intro mult_right_mono) simp_all
qed

lemma powi_as_multiple: "s \<le> e \<Longrightarrow> (2::rat) powi e = of_int (2 ^ nat (e - s)) * 2 powi s"
  using power_int_add[of "2::rat" "e - s" s] by (simp add: power_int_def)

lemma fp_round_pos_mono:
  assumes "0 \<le> x" "x \<le> y"
  shows "fp_round_pos x \<le> fp_round_pos y"
proof (cases "x = 0")
  case True
  have "0 \<le> fp_round_pos y"
  proof (cases "y = 0")
    case False
    let ?s = "max (fp_exp y) (-1022) - 52"
    have "of_int 0 * 2 powi ?s \<le> y" using assms by simp
    from round_at_ge[OF this] False show ?thesis by (simp add: fp_round_pos_def Let_def)
  qed (simp add: fp_round_pos_def)
  with True show ?thesis by (simp add: fp_round_pos_def)
next
  case False
  let ?e = "max (fp_exp x) (-1022)" and ?f = "max (fp_exp y) (-1022)"
  have pos: "0 < x" "0 < y" using assms False by auto
  have ef: "?e \<le> ?f" using fp_exp_mono[OF pos(1) assms(2)] by simp
  have rx: "fp_round_pos x = of_int (rhe (x * 2 powi (- (?e - 52)))) * 2 powi (?e - 52)"
    and ry: "fp_round_pos y = of_int (rhe (y * 2 powi (- (?f - 52)))) * 2 powi (?f - 52)"
    using pos by (simp_all add: fp_round_pos_def Let_def)
  show ?thesis
  proof (cases "?e = ?f")
    case True
    have "x * 2 powi (- (?f - 52)) \<le> y * 2 powi (- (?f - 52))"
      using assms by (intro mult_right_mono) simp_all
    then have "rhe (x * 2 powi (- (?f - 52))) \<le> rhe (y * 2 powi (- (?f - 52)))" by (rule rhe_mono)
    then show ?thesis unfolding rx ry True by (intro mult_right_mono) simp_all
  next
    case False
    with ef have lt: "?e + 1 \<le> ?f" by simp
    then have fy: "?f = fp_exp y" by simp
    have "x < 2 powi (fp_exp x + 1)" using fp_exp_bounds[OF pos(1)] by simp
    also have "\<dots> \<le> 2 powi (?e + 1)" by (intro power_int_increasing) simp_all
    finally have "x \<le> 2 powi (?e + 1)" by simp
    also have p: "(2::rat) powi (?e + 1) = of_int (2 ^ nat (?e + 1 - (?e - 52))) * 2 powi (?e - 52)"
      by (rule powi_as_multiple) simp
    finally have "fp_round_pos x \<le> 2 powi (?e + 1)" unfolding rx p by (rule round_at_le)
    also have "\<dots> \<le> 2 powi ?f" using lt by (intro power_int_increasing) simp_all
    also have "\<dots> \<le> fp_round_pos y"
    proof -
      have q: "(2::rat) powi ?f = of_int (2 ^ nat (?f - (?f - 52))) * 2 powi (?f - 52)"
        by (rule powi_as_multiple) simp
      have "2 powi ?f \<le> y" using fp_exp_bounds[OF pos(2)] unfolding fy by simp
      then show ?thesis unfolding ry q by (intro round_at_ge) (simp add: q[symmetric])
    qed
    finally show ?thesis .
  qed
qed

lemma fp_round_pos_nonneg: "0 \<le> x \<Longrightarrow> 0 \<le> fp_round_pos x"
  using fp_round_pos_mono[of 0 x] by (simp add: fp_round_pos_def)

lemma fp_round_mono: "x \<le> y \<Longrightarrow> fp_round x \<le> fp_round y"
  using fp_round_pos_mono[of x y] fp_round_pos_mono[of "- y" "- x"]
    fp_round_pos_nonneg[of "- x"] fp_round_pos_nonneg[of y]
  by (auto simp: fp_round_def not_less)

text \<open>Integers of at most 53 bits, and their halves and further binary fractions, are exact.\<close>

lemma fp_round_dyadic:
  assumes "0 \<le> k" "k < 2 ^ 52" "j \<le> 900"
  shows "fp_round (of_int k / 2 ^ j) = of_int k / 2 ^ j"
proof (cases "k = 0")
  case True
  then show ?thesis by (simp add: fp_round_def fp_round_pos_def)
next
  case False
  let ?x = "of_int k / 2 ^ j :: rat"
  have pos: "0 < ?x" using False assms by simp
  let ?s = "max (fp_exp ?x) (-1022) - 52"
  have px: "(2::rat) powi (- int j) = 1 / 2 ^ j" by (simp add: power_int_minus field_simps)
  have "?s \<le> - int j"
  proof (rule ccontr)
    assume "\<not> ?s \<le> - int j"
    then have "- int j + 53 \<le> fp_exp ?x" using assms by linarith
    then have "(2::rat) powi (- int j + 53) \<le> 2 powi fp_exp ?x" by (intro power_int_increasing) simp_all
    also have "\<dots> \<le> ?x" using fp_exp_bounds[OF pos] by simp
    finally have "2 powi (- int j + 53) \<le> ?x" .
    moreover have "(2::rat) powi (- int j + 53) = 2 ^ 53 / 2 ^ j" by (subst power_int_add) (simp_all add: px)
    ultimately have "2 ^ 53 / 2 ^ j \<le> ?x" by simp
    then have "(2 ^ 53 :: rat) \<le> of_int k" by (simp add: divide_le_cancel)
    then have "(2 ^ 53 :: int) \<le> k" by (simp only: of_int_le_iff[symmetric, where 'a = rat]) simp
    with assms show False by simp
  qed
  then have "(2::rat) powi (- int j) = of_int (2 ^ nat (- int j - ?s)) * 2 powi ?s"
    by (rule powi_as_multiple)
  then have "of_int k * (2::rat) powi (- int j) = of_int (k * 2 ^ nat (- int j - ?s)) * 2 powi ?s"
    unfolding of_int_mult mult.assoc by (rule arg_cong)
  then have eq: "?x = of_int (k * 2 ^ nat (- int j - ?s)) * 2 powi ?s"
    by (simp only: px) simp
  have "fp_round_pos ?x = of_int (rhe (?x * 2 powi (- ?s))) * 2 powi ?s"
    using pos False by (simp add: fp_round_pos_def Let_def)
  also have "\<dots> = ?x"
    using round_at_le[of ?x "k * 2 ^ nat (- int j - ?s)" ?s] round_at_ge[of "k * 2 ^ nat (- int j - ?s)" ?s ?x] eq
    by (intro antisym) simp_all
  finally show ?thesis using pos by (simp add: fp_round_def)
qed

lemma fp_round_int: "0 \<le> k \<Longrightarrow> k < 2 ^ 52 \<Longrightarrow> fp_round (of_int k) = of_int k"
  using fp_round_dyadic[of k 0] by simp

lemma fp_round_between:
  assumes "of_int a \<le> x" "x \<le> of_int b" "0 \<le> a" "b < 2 ^ 52"
  shows "of_int a \<le> fp_round x" "fp_round x \<le> of_int b"
proof -
  have "(of_int a :: rat) \<le> of_int b" using assms by (meson order_trans)
  then have "a \<le> b" by (simp only: of_int_le_iff)
  then show "of_int a \<le> fp_round x" "fp_round x \<le> of_int b"
    using fp_round_mono[OF assms(1)] fp_round_mono[OF assms(2)] fp_round_int[of a] fp_round_int[of b] assms
    by simp_all
qed

lemma fp_round_nonneg: "0 \<le> x \<Longrightarrow> 0 \<le> fp_round x"
  using fp_round_mono[of 0 x] by (simp add: fp_round_def fp_round_pos_def split: if_splits)

end
