(* ===== verification/CongestionControl.thy ===== *)
theory CongestionControl
  imports Binary64
begin

text \<open>
  The congestion control state of a window (\<open>cc_t\<close> in \<open>server/backend/common.hpp\<close>) and the rate
  adjustment of \<open>server/backend/worker.cpp\<close>. The \<open>double\<close> fields are binary64 numbers; every operation
  of the code is rounded where the code rounds it. \<open>adjust_cnt\<close> is a 32 bit \<open>int\<close>; it wraps around as
  the machine's does.
\<close>

subsection \<open>Constants\<close>

definition MAX_WIN_LEN :: nat where [const_defs]: "MAX_WIN_LEN = 1024"
definition MAX_CWND :: nat where [const_defs]: "MAX_CWND = MAX_WIN_LEN - 1"
definition MAX_PKT_BURST :: nat where [const_defs]: "MAX_PKT_BURST = 32"
definition CC_REACTION_TIME :: u32 where [const_defs]: "CC_REACTION_TIME = 10"
definition CC_FAST_RECOEVERY_CNT :: u32 where [const_defs]: "CC_FAST_RECOEVERY_CNT = 5"
definition CC_AI_FULL_INCREASE_TIME :: nat where [const_defs]: "CC_AI_FULL_INCREASE_TIME = 10000"
definition CC_AI_FULL_INCREASE_ITER :: rat where
  "CC_AI_FULL_INCREASE_ITER = fp_div (fp_mul 1 (of_nat CC_AI_FULL_INCREASE_TIME)) (of_int (uint CC_REACTION_TIME))"
definition CC_AI :: rat where
  "CC_AI = fp_div (fp_mul 1 (of_nat MAX_WIN_LEN)) CC_AI_FULL_INCREASE_ITER"
definition CC_G :: rat where "CC_G = fp_div 1 256"
definition CC_CWND_MIN :: nat where [const_defs]: "CC_CWND_MIN = 10"
definition TIMEOUT_TIME :: u32 where [const_defs]: "TIMEOUT_TIME = 1000"

subsection \<open>State\<close>

record cc_t =
  cwnd :: rat
  target_cwnd :: rat
  loss_ratio :: rat
  prev_decrease_ts :: u32
  prev_adjust_ts :: u32
  adjust_cnt :: u32

definition cc_init :: cc_t where
  "cc_init = \<lparr>cwnd = of_nat CC_CWND_MIN, target_cwnd = of_nat MAX_CWND, loss_ratio = 0,
     prev_decrease_ts = 0, prev_adjust_ts = 0, adjust_cnt = - CC_FAST_RECOEVERY_CNT\<rparr>"

text \<open>\<open>reinit\<close>, called by a full retransmission.\<close>

definition cc_reinit :: "u32 \<Rightarrow> cc_t \<Rightarrow> cc_t" where
  "cc_reinit now cc = cc\<lparr>target_cwnd := cwnd cc, cwnd := of_nat CC_CWND_MIN,
     prev_decrease_ts := now, prev_adjust_ts := now, adjust_cnt := - CC_FAST_RECOEVERY_CNT\<rparr>"

text \<open>The conversion \<open>(win_size_t)cwnd\<close>: truncation.\<close>

definition cwnd_trunc :: "cc_t \<Rightarrow> u32" where
  "cwnd_trunc cc = of_int \<lfloor>cwnd cc\<rfloor>"

subsection \<open>Adjusting the rate\<close>

text \<open>
  \<open>adjust_rate\<close> on the congestion control state; \<open>achieved\<close> is the flag \<open>cwnd_achieved\<close>, which the
  caller clears afterwards.
\<close>

definition cc_decrease :: "cc_t \<Rightarrow> cc_t" where
  "cc_decrease cc =
     (let loss = fp_add (fp_mul (fp_sub 1 CC_G) (loss_ratio cc)) CC_G
      in cc\<lparr>loss_ratio := loss, target_cwnd := cwnd cc,
            cwnd := fp_mul (cwnd cc) (fp_sub 1 (fp_div loss 2)), adjust_cnt := - CC_FAST_RECOEVERY_CNT\<rparr>)"

definition cc_increase :: "bool \<Rightarrow> cc_t \<Rightarrow> cc_t" where
  "cc_increase achieved cc =
     (let loss = fp_mul (fp_sub 1 CC_G) (loss_ratio cc) in
      if achieved then
        (let target = (if 0 \<le> sint (adjust_cnt cc) then fp_add (target_cwnd cc) CC_AI else target_cwnd cc)
         in cc\<lparr>loss_ratio := loss, target_cwnd := target, adjust_cnt := adjust_cnt cc + 1,
               cwnd := fp_div (fp_add target (cwnd cc)) 2\<rparr>)
      else cc\<lparr>loss_ratio := loss\<rparr>)"

definition adjust_rate :: "bool \<Rightarrow> bool \<Rightarrow> cc_t \<Rightarrow> cc_t" where
  "adjust_rate congestion achieved cc =
     (let cc' = (if congestion then cc_decrease cc else cc_increase achieved cc)
      in if cwnd cc' < of_nat CC_CWND_MIN then cc'\<lparr>cwnd := of_nat CC_CWND_MIN\<rparr> else cc')"

subsection \<open>The congestion window stays in range\<close>

definition cc_ok :: "cc_t \<Rightarrow> bool" where
  "cc_ok cc \<longleftrightarrow> 0 \<le> loss_ratio cc \<and> loss_ratio cc \<le> 1 \<and> 10 \<le> cwnd cc \<and> cwnd cc \<le> 2040
     \<and> 0 \<le> target_cwnd cc \<and> target_cwnd cc \<le> cwnd cc + 2030"

lemma fp_round_floor_ceiling:
  assumes "0 \<le> x" "x \<le> 10000"
  shows "of_int \<lfloor>x\<rfloor> \<le> fp_round x" "fp_round x \<le> of_int \<lceil>x\<rceil>"
proof -
  have a: "of_int \<lfloor>x\<rfloor> \<le> x" "x \<le> of_int \<lceil>x\<rceil>" "0 \<le> \<lfloor>x\<rfloor>"
    using assms by (simp_all add: le_of_int_ceiling)
  have "\<lceil>x\<rceil> \<le> 10000" using assms by (simp add: ceiling_le_iff)
  then have b: "\<lceil>x\<rceil> < 2 ^ 52" by simp
  show "of_int \<lfloor>x\<rfloor> \<le> fp_round x" "fp_round x \<le> of_int \<lceil>x\<rceil>"
    using fp_round_between[OF a b] by blast+
qed

lemma fp_round_le_int:
  assumes "0 \<le> x" "x \<le> of_int b" "b \<le> 10000"
  shows "fp_round x \<le> of_int b"
  using fp_round_between(2)[of 0 x b] assms by simp

lemma cc_constants: "CC_G = 1 / 256" "fp_sub 1 CC_G = 255 / 256" "0 \<le> CC_AI" "CC_AI \<le> 2"
proof -
  show g: "CC_G = 1 / 256"
    using fp_round_dyadic[of 1 8] by (simp add: CC_G_def fp_div_def)
  show "fp_sub 1 CC_G = 255 / 256"
    using fp_round_dyadic[of 255 8] by (simp add: g fp_sub_def)
  have it: "CC_AI_FULL_INCREASE_ITER = 1000"
    using fp_round_int[of 10000] fp_round_int[of 1000]
    by (simp add: CC_AI_FULL_INCREASE_ITER_def const_defs fp_div_def fp_mul_def)
  have "CC_AI = fp_round (1024 / 1000)"
    using fp_round_int[of 1024] by (simp add: CC_AI_def it const_defs fp_div_def fp_mul_def)
  then show "0 \<le> CC_AI" "CC_AI \<le> 2"
    using fp_round_between[of 0 "1024 / 1000" 2] by simp_all
qed

lemma loss_decay:
  assumes "0 \<le> l" "l \<le> (1::rat)"
  shows "0 \<le> fp_mul (fp_sub 1 CC_G) l" "fp_mul (fp_sub 1 CC_G) l \<le> 255 / 256"
proof -
  have "255 / 256 * l \<le> 255 / 256" using assms by simp
  from fp_round_mono[OF this] fp_round_dyadic[of 255 8]
  show "fp_mul (fp_sub 1 CC_G) l \<le> 255 / 256" unfolding cc_constants(2) by (simp add: fp_mul_def)
  show "0 \<le> fp_mul (fp_sub 1 CC_G) l" unfolding cc_constants(2) using assms by (simp add: fp_mul_def fp_round_nonneg)
qed

lemma cc_decrease_ok:
  assumes "cc_ok cc"
  shows "0 \<le> loss_ratio (cc_decrease cc) \<and> loss_ratio (cc_decrease cc) \<le> 1
    \<and> target_cwnd (cc_decrease cc) = cwnd cc \<and> 0 \<le> cwnd (cc_decrease cc) \<and> cwnd (cc_decrease cc) \<le> 2040"
proof -
  let ?l = "loss_ratio (cc_decrease cc)"
  define m where "m = fp_mul (fp_sub 1 CC_G) (loss_ratio cc)"
  have l: "?l = fp_round (m + CC_G)"
    by (simp add: cc_decrease_def Let_def m_def fp_add_def)
  have "0 \<le> m" "m \<le> 255 / 256"
    using loss_decay[of "loss_ratio cc"] assms unfolding m_def by (simp_all add: cc_ok_def)
  then have "0 \<le> ?l" "?l \<le> 1"
    unfolding l cc_constants(1) using fp_round_between[of 0 "m + 1 / 256" 1] by simp_all
  then have "0 \<le> fp_div ?l 2" "fp_div ?l 2 \<le> 1"
    using fp_round_between[of 0 "?l / 2" 1] by (simp_all add: fp_div_def)
  then have f: "0 \<le> fp_sub 1 (fp_div ?l 2)" "fp_sub 1 (fp_div ?l 2) \<le> 1"
    using fp_round_between[of 0 "1 - fp_div ?l 2" 1] by (simp_all add: fp_sub_def)
  have c: "cwnd (cc_decrease cc) = fp_round (cwnd cc * fp_sub 1 (fp_div ?l 2))"
    by (simp add: cc_decrease_def Let_def fp_mul_def)
  have "0 \<le> cwnd cc" "cwnd cc \<le> 2040" using assms by (simp_all add: cc_ok_def)
  then have "0 \<le> cwnd cc * fp_sub 1 (fp_div ?l 2)" "cwnd cc * fp_sub 1 (fp_div ?l 2) \<le> 2040"
    using f mult_mono[of "cwnd cc" 2040 "fp_sub 1 (fp_div ?l 2)" 1] by simp_all
  then have "0 \<le> cwnd (cc_decrease cc)" "cwnd (cc_decrease cc) \<le> 2040"
    unfolding c using fp_round_between[of 0 _ 2040] by simp_all
  with \<open>0 \<le> ?l\<close> \<open>?l \<le> 1\<close> show ?thesis by (simp add: cc_decrease_def Let_def)
qed

lemma cc_increase_ok:
  assumes "cc_ok cc" "achieved \<Longrightarrow> cwnd cc < 1024"
  shows "0 \<le> loss_ratio (cc_increase achieved cc) \<and> loss_ratio (cc_increase achieved cc) \<le> 1
    \<and> 0 \<le> target_cwnd (cc_increase achieved cc) \<and> cwnd (cc_increase achieved cc) \<le> 2040
    \<and> target_cwnd (cc_increase achieved cc) \<le> cwnd (cc_increase achieved cc) + 2030"
proof -
  let ?l = "fp_mul (fp_sub 1 CC_G) (loss_ratio cc)"
  have l: "0 \<le> ?l" "?l \<le> 1"
    using loss_decay[of "loss_ratio cc"] assms(1) by (simp_all add: cc_ok_def)
  show ?thesis
  proof (cases achieved)
    case False
    then show ?thesis using assms(1) l by (simp add: cc_increase_def cc_ok_def)
  next
    case True
    define t where "t = (if 0 \<le> sint (adjust_cnt cc) then fp_add (target_cwnd cc) CC_AI else target_cwnd cc)"
    define w where "w = fp_div (fp_add t (cwnd cc)) 2"
    have c: "10 \<le> cwnd cc" "cwnd cc < 1024" "0 \<le> target_cwnd cc" "target_cwnd cc \<le> cwnd cc + 2030"
      using assms True by (simp_all add: cc_ok_def)
    define x where "x = target_cwnd cc + CC_AI"
    have x: "0 \<le> x" "x \<le> 3056" using c cc_constants(3,4) unfolding x_def by linarith+
    have "fp_round x \<le> of_int \<lceil>x\<rceil>" "of_int \<lceil>x\<rceil> \<le> x + 1" "0 \<le> fp_round x"
      using fp_round_floor_ceiling[of x] fp_round_nonneg[of x] x
      by (simp_all add: of_int_ceiling_le_add_one)
    moreover have "fp_round x \<le> 3056" using fp_round_le_int[of x 3056] x by simp
    moreover have "t = fp_round x \<or> t = target_cwnd cc" by (simp add: t_def x_def fp_add_def)
    ultimately have t: "0 \<le> t" "t \<le> 3056" "t \<le> target_cwnd cc + 3"
      using c cc_constants(3,4) unfolding x_def by linarith+
    define y where "y = t + cwnd cc"
    have y: "0 \<le> y" "y \<le> 4080" using c t unfolding y_def by linarith+
    have ry: "y - 1 \<le> fp_round y" "fp_round y \<le> 4080" "0 \<le> fp_round y"
      using fp_round_floor_ceiling(1)[of y] y fp_round_le_int[of y 4080] fp_round_nonneg[of y] by linarith+
    define z where "z = fp_round y / 2"
    have z: "0 \<le> z" "z \<le> 2040" using ry by (simp_all add: z_def)
    have w: "w = fp_round z" by (simp add: w_def z_def y_def fp_div_def fp_add_def)
    have wl: "z - 1 \<le> w" "w \<le> 2040"
      unfolding w using fp_round_floor_ceiling(1)[of z] z fp_round_le_int[of z 2040] by linarith+
    have "t \<le> w + 2030" using wl(1) ry(1) t(3) c unfolding z_def y_def by linarith
    then show ?thesis
      using True l t(1) wl(2) by (simp add: cc_increase_def Let_def t_def[symmetric] w_def)
  qed
qed

lemma cc_init_ok: "cc_ok cc_init"
  by (simp add: cc_ok_def cc_init_def const_defs)

lemma cc_reinit_ok: "cc_ok cc \<Longrightarrow> cc_ok (cc_reinit now cc)"
  by (simp add: cc_ok_def cc_reinit_def const_defs)

lemma adjust_rate_ok:
  assumes "cc_ok cc" "\<not> congestion \<Longrightarrow> achieved \<Longrightarrow> cwnd cc < 1024"
  shows "cc_ok (adjust_rate congestion achieved cc)"
proof (cases congestion)
  case True
  have "10 \<le> cwnd cc" "cwnd cc \<le> 2040" using assms by (simp_all add: cc_ok_def)
  with True cc_decrease_ok[OF assms(1)] show ?thesis
    by (auto simp: adjust_rate_def cc_ok_def Let_def const_defs)
next
  case False
  with cc_increase_ok[OF assms(1), of achieved] assms(2) show ?thesis
    by (auto simp: adjust_rate_def cc_ok_def Let_def const_defs)
qed

lemma cwnd_trunc_bounds:
  assumes "cc_ok cc"
  shows "unat (cwnd_trunc cc) = nat \<lfloor>cwnd cc\<rfloor>" "10 \<le> unat (cwnd_trunc cc)" "unat (cwnd_trunc cc) \<le> 2040"
proof -
  have b: "10 \<le> \<lfloor>cwnd cc\<rfloor>" "\<lfloor>cwnd cc\<rfloor> \<le> 2040"
    using assms by (simp_all add: cc_ok_def le_floor_iff floor_le_iff)
  define k where "k = nat \<lfloor>cwnd cc\<rfloor>"
  have k: "\<lfloor>cwnd cc\<rfloor> = int k" "10 \<le> k" "k \<le> 2040" using b unfolding k_def by linarith+
  have "unat (cwnd_trunc cc) = k"
    using k unat_of_nat_small[of k, where 'a = 32] by (simp add: cwnd_trunc_def)
  with k show "unat (cwnd_trunc cc) = nat \<lfloor>cwnd cc\<rfloor>" "10 \<le> unat (cwnd_trunc cc)"
    "unat (cwnd_trunc cc) \<le> 2040" by simp_all
qed

end
