(* ===== verification/Worker.thy ===== *)
theory Worker
  imports LoadBalancer ProcessBuffer Header CongestionControl
begin

text \<open>
  The worker thread of the backend (\<open>server/backend/worker.cpp\<close>): a sliding window transport
  that cuts each sub-operation into packets, sends them to the switch, takes the switch's answers, retransmits what is lost, and
  answers the sub-operation when its last packet is done.

  The state is one record: the fields of \<open>thread_ctx_t\<close>, \<open>window_t\<close> and the thread-local globals of
  the file, with the static locals of \<open>gen_pkt\<close> and \<open>get_time_stamp\<close>. What the worker only reads,
  and the two libraries it calls, are the environment.
\<close>

subsection \<open>State\<close>

record pkt_state_t =
  acked :: bool
  ps_sub_op :: ptr
  ps_data :: u64
  ps_size :: u32
  ps_psn :: u32
  is_last :: bool
  ps_pkt :: mbuf

text \<open>
  A packet pointer: the buffer of a window slot, or a received packet, which nobody writes to until
  it is dropped and which is therefore its contents.
\<close>

datatype pkt = Slot u32 | Arrived mbuf

record ('q, 'n) wenv =
  sub_q :: "('q, ptr) spsc_ops"
  net :: "('n, pkt) nic_ops"
  sub_at :: "ptr \<Rightarrow> sub_op_t"
  op_at :: "ptr \<Rightarrow> op_t"

text \<open>The statistics the log prints and resets.\<close>

record stats_t =
  cwnd_inc_cnt :: u64
  cwnd_dec_cnt :: u64
  shift_send_cnt :: u64
  shift_ack_cnt :: u64
  total_shift_send_cnt :: u64
  total_shift_ack_cnt :: u64
  fast_retrans_trigger_cnt :: u64
  fast_retrans_pkt_cnt :: u64
  full_retrans_trigger_cnt :: u64
  full_retrans_pkt_cnt :: u64
  in_range_reduntant_ack_cnt :: u64
  out_range_reduntant_ack_cnt :: u64

record ('q, 'n) worker =
  wqp :: "'q queue_pair"
  pbuf :: "pkt process_buffer"
  card_st :: 'n
  group_psn :: "u8 \<Rightarrow> u32"
  shm :: memory
  last_ack_time_stamp :: u32
  to_send :: u32
  to_ack :: u32
  left_psn :: u32
  right_psn :: u32
  cc :: cc_t
  win :: "pkt_state_t list"
  PACKET_LOOPBACK :: bool
  local_queue :: "mbuf list"
  global_ts :: u32
  ts_cnt :: u32
  ts_cache :: u32
  current_switch_window_limit :: u32
  current_group_id :: u8
  tos_minitor :: u8
  pkt_loss_flag :: bool
  traffic_todo :: bool
  cwnd_achieved :: bool
  ack_cnt :: u64
  prev_ack_cnt :: u64
  prev_ack_cnt_cc :: u64
  win_cnt :: "u32 list"
  stats :: stats_t
  pkt_sent :: u32
  start_psn :: u32
  pkt_cnt :: u32
  cur_sub :: "ptr option"

abbreviation slot :: "('q, 'n) worker \<Rightarrow> u32 \<Rightarrow> pkt_state_t" where
  "slot s p \<equiv> win s ! unat p"

definition set_slot :: "u32 \<Rightarrow> pkt_state_t \<Rightarrow> ('q, 'n) worker \<Rightarrow> ('q, 'n) worker" where
  "set_slot p st s = s\<lparr>win := (win s)[unat p := st]\<rparr>"

subsection \<open>Ring positions\<close>

definition INVALID_POSITION :: u32 where "INVALID_POSITION = - 1"

definition get_prev_position :: "u32 \<Rightarrow> u32" where
  "get_prev_position pos = (pos - 1) AND (of_nat MAX_WIN_LEN - 1)"

definition get_next_position :: "u32 \<Rightarrow> u32" where
  "get_next_position pos = (pos + 1) AND (of_nat MAX_WIN_LEN - 1)"

definition window_tx_empty :: "('q, 'n) worker \<Rightarrow> bool" where
  "window_tx_empty s \<longleftrightarrow> to_ack s = to_send s"

definition window_len :: "('q, 'n) worker \<Rightarrow> u32" where
  "window_len s = (if to_send s \<ge> to_ack s then to_send s - to_ack s
     else of_nat MAX_WIN_LEN + to_send s - to_ack s)"

definition get_position :: "mbuf \<Rightarrow> ('q, 'n) worker \<Rightarrow> u32" where
  "get_position pkt s =
     (if window_tx_empty s \<or> current_group_id s \<noteq> get_group_id pkt then INVALID_POSITION
      else let psn = get_psn pkt in
        if psn - left_psn s \<le> right_psn s - left_psn s then
          (let position = psn - left_psn s + to_ack s
           in if position \<ge> of_nat MAX_WIN_LEN then position - of_nat MAX_WIN_LEN else position)
        else INVALID_POSITION)"

definition mark_acked :: "u32 \<Rightarrow> ('q, 'n) worker \<Rightarrow> ('q, 'n) worker" where
  "mark_acked p s = (set_slot p (slot s p\<lparr>acked := True\<rparr>) s)\<lparr>ack_cnt := ack_cnt s + 1\<rparr>"

definition has_acked :: "('q, 'n) worker \<Rightarrow> u32 \<Rightarrow> bool" where
  "has_acked s p = acked (slot s p)"

subsection \<open>Transmitting\<close>

text \<open>
  \<open>transmit\<close>: the slot's buffer goes to the packet buffer, or, in loopback, a copy of its contents
  to the thread's own queue. (The poll on \<open>tx_buffered_pkt_cnt\<close> is compiled out: it needs a macro the supported DPDK
  releases do not define.)
\<close>

definition local_send :: "mbuf \<Rightarrow> ('q, 'n) worker \<Rightarrow> ('q, 'n) worker" where
  "local_send m s = s\<lparr>local_queue := local_queue s @ [m]\<rparr>"

definition local_receive :: "('q, 'n) worker \<Rightarrow> pkt option \<times> ('q, 'n) worker" where
  "local_receive s = (case local_queue s of [] \<Rightarrow> (None, s)
     | m # ms \<Rightarrow> (Some (Arrived m), s\<lparr>local_queue := ms\<rparr>))"

definition transmit :: "('q, 'n) wenv \<Rightarrow> u32 \<Rightarrow> ('q, 'n) worker \<Rightarrow> ('q, 'n) worker option" where
  "transmit E p s =
     (if PACKET_LOOPBACK s then Some (local_send (ps_pkt (slot s p)) s)
      else map_option (\<lambda>(pb, n). s\<lparr>pbuf := pb, card_st := n\<rparr>)
             (send (net E) (Some (Slot p)) (pbuf s, card_st s)))"

partial_function (option) transmit_range :: "('q, 'n) wenv \<Rightarrow> u32 \<Rightarrow> u32 \<Rightarrow> ('q, 'n) worker
    \<Rightarrow> ('q, 'n) worker option" where
  "transmit_range E i e s =
     (if i = e then Some s
      else Option.bind (transmit E i s) (transmit_range E (get_next_position i) e))"

partial_function (option) transmit_unacked :: "('q, 'n) wenv \<Rightarrow> u32 \<Rightarrow> u32 \<Rightarrow> u64 \<Rightarrow> ('q, 'n) worker
    \<Rightarrow> (u64 \<times> ('q, 'n) worker) option" where
  "transmit_unacked E i e cnt s =
     (if i = e then Some (cnt, s)
      else if has_acked s i then transmit_unacked E (get_next_position i) e cnt s
      else Option.bind (transmit E i s) (transmit_unacked E (get_next_position i) e (cnt + 1)))"

subsection \<open>Completing packets\<close>

definition complete_pkt :: "('q, 'n) wenv \<Rightarrow> pkt_state_t \<Rightarrow> ('q, 'n) worker \<Rightarrow> ('q, 'n) worker option" where
  "complete_pkt E st s =
     (if is_last st then do {
        (ret, q) \<leftarrow> push_resp (sub_q E) (ps_sub_op st) (wqp s);
        c_assert ret;
        Some (s\<lparr>wqp := q\<rparr>)
      } else Some s)"

text \<open>The loop of \<open>shift_ack\<close>; the first argument is its local \<open>to_ack\<close>.\<close>

partial_function (option) shift_ack_loop :: "('q, 'n) wenv \<Rightarrow> u32 \<Rightarrow> ('q, 'n) worker
    \<Rightarrow> (u32 \<times> ('q, 'n) worker) option" where
  "shift_ack_loop E a s =
     (if a \<noteq> to_send s \<and> has_acked s a then
        Option.bind (complete_pkt E (slot s a) s) (\<lambda>s'. shift_ack_loop E (get_next_position a)
          (s'\<lparr>stats := (stats s')\<lparr>shift_ack_cnt := shift_ack_cnt (stats s') + 1\<rparr>\<rparr>))
      else Some (a, s))"

definition shift_ack :: "('q, 'n) wenv \<Rightarrow> ('q, 'n) worker \<Rightarrow> ('q, 'n) worker option" where
  "shift_ack E s = do {
     (a, s) \<leftarrow> shift_ack_loop E (to_ack s) s;
     let s = s\<lparr>to_ack := a\<rparr>;
     Some (s\<lparr>left_psn := (if window_tx_empty s then 0 else get_psn (ps_pkt (slot s a)))\<rparr>)
   }"

subsection \<open>Receiving\<close>

text \<open>The loop of \<open>collect_retrans\<close>: back to the oldest slot of the unacknowledged run before \<open>p\<close>.\<close>

partial_function (option) retrans_start :: "('q, 'n) worker \<Rightarrow> u32 \<Rightarrow> u64 \<Rightarrow> (u32 \<times> u64) option" where
  "retrans_start s p cnt =
     (if p = to_ack s then Some (p, cnt)
      else if has_acked s (get_prev_position p) then Some (p, cnt)
      else retrans_start s (get_prev_position p) (cnt + 1))"

definition collect_retrans :: "('q, 'n) wenv \<Rightarrow> u32 \<Rightarrow> ('q, 'n) worker \<Rightarrow> ('q, 'n) worker option" where
  "collect_retrans E p s = do {
     (prev, cnt) \<leftarrow> retrans_start s p 0;
     transmit_range E prev p (s\<lparr>stats := (stats s)\<lparr>
         fast_retrans_pkt_cnt := fast_retrans_pkt_cnt (stats s) + cnt,
         fast_retrans_trigger_cnt := fast_retrans_trigger_cnt (stats s) + 1\<rparr>,
       pkt_loss_flag := True\<rparr>)
   }"

text \<open>The bytes a packet carries for its slot, in host order for what the switch has added up.\<close>

definition is_aggregated :: "op_t \<Rightarrow> bool" where
  "is_aggregated op \<longleftrightarrow> op_code op = OP_ALL_REDUCE \<or> op_code op = OP_REDUCE"

definition store_payload :: "op_t \<Rightarrow> pkt_state_t \<Rightarrow> mbuf \<Rightarrow> memory \<Rightarrow> memory" where
  "store_payload op st pkt m =
     (if is_aggregated op
      then mem_write m (ps_data st) (swap_words (unat (ps_size st) div 4) (payload pkt))
      else mem_write m (ps_data st) (take (unat (ps_size st)) (payload pkt)))"

definition rx_process_one :: "('q, 'n) wenv \<Rightarrow> mbuf \<Rightarrow> ('q, 'n) worker \<Rightarrow> ('q, 'n) worker option" where
  "rx_process_one E pkt s0 =
     (let s = s0\<lparr>tos_minitor := tos_minitor s0 OR type_of_service (ip pkt)\<rparr>;
          position = get_position pkt s
      in if position = INVALID_POSITION then
           Some (s\<lparr>stats := (stats s)\<lparr>out_range_reduntant_ack_cnt := out_range_reduntant_ack_cnt (stats s) + 1\<rparr>\<rparr>)
         else if has_acked s position then
           Some (s\<lparr>stats := (stats s)\<lparr>in_range_reduntant_ack_cnt := in_range_reduntant_ack_cnt (stats s) + 1\<rparr>\<rparr>)
         else
           (let s = mark_acked position s;
                st = slot s position;
                op = op_at E (sub_op (sub_at E (ps_sub_op st)));
                s = (if need_rx op then s\<lparr>shm := store_payload op st pkt (shm s)\<rparr> else s)
            in if position = to_ack s \<or> has_acked s (get_prev_position position) then Some s
               else collect_retrans E position s))"

definition contents_of :: "('q, 'n) worker \<Rightarrow> pkt \<Rightarrow> mbuf" where
  "contents_of s p = (case p of Slot i \<Rightarrow> ps_pkt (slot s i) | Arrived m \<Rightarrow> m)"

definition poll :: "('q, 'n) wenv \<Rightarrow> ('q, 'n) worker \<Rightarrow> pkt option \<times> ('q, 'n) worker" where
  "poll E s =
     (if PACKET_LOOPBACK s then local_receive s
      else let (r, pb, n) = receive (net E) (pbuf s, card_st s) in (r, s\<lparr>pbuf := pb, card_st := n\<rparr>))"

partial_function (option) rx_loop :: "('q, 'n) wenv \<Rightarrow> ('q, 'n) worker \<Rightarrow> ('q, 'n) worker option" where
  "rx_loop E s0 =
     (case poll E s0 of
        (None, s) \<Rightarrow> Some s
      | (Some p, s) \<Rightarrow> Option.bind (rx_process_one E (contents_of s p) s) (\<lambda>s.
          let s = s\<lparr>pbuf := drop_pkt (pbuf s)\<rparr> in
          if rx_sw_buffered_pkt_cnt (pbuf s) = 0
             \<and> rx_hw_buffered_pkt_cnt (net E) (card_st s) < of_nat MAX_PKT_BURST
          then Some s else rx_loop E s))"

definition rx_process :: "('q, 'n) wenv \<Rightarrow> ('q, 'n) worker \<Rightarrow> ('q, 'n) worker option" where
  "rx_process E s = Option.bind (rx_loop E s) (shift_ack E)"

subsection \<open>Making packets\<close>

text \<open>
  \<open>fill_pkt\<close>: the packet of a slot, from the operation and the bytes in the shared memory. \<open>None\<close>
  is the division by an aggregator length of zero.
\<close>

definition fill_pkt :: "('q, 'n) wenv \<Rightarrow> memory \<Rightarrow> pkt_state_t \<Rightarrow> pkt_state_t option" where
  "fill_pkt E m st =
     (let sub = sub_at E (ps_sub_op st);
          op = op_at E (sub_op sub);
          group = op_group op;
          pkt = ps_pkt st;
          has_payload = need_tx op;
          pkt_size = (if has_payload then sizeof_netccl_pkt else sizeof_netccl_pkt - PAYLOAD_SIZE);
          sz = unat (ps_size st)
      in do {
        c_assert (sub_agg_len sub \<noteq> 0);
        let pkt = pkt\<lparr>data_len := of_nat pkt_size, pkt_len := of_nat pkt_size,
              ip := (ip pkt)\<lparr>total_length := htobe (of_nat (pkt_size - sizeof_rte_ether_hdr)),
                             ip_dst_addr := htobe (switch_ip group)\<rparr>,
              inc := mk_inc (op_code op) (group_id group) (group_rank group) (op_root op)
                (of_nat (unat (sub_agg_addr sub) + unat (ps_psn st) mod unat (sub_agg_len sub))) (ps_psn st)\<rparr>;
        Some (st\<lparr>ps_pkt := (if \<not> has_payload then pkt
          else let body = (if is_aggregated op
                    then memcpy_htobe32_select (payload pkt) (mem_read m (ps_data st) sz) sz
                    else mem_read m (ps_data st) sz @ drop sz (payload pkt))
               in pkt\<lparr>payload := (if sz < PAYLOAD_SIZE then take sz body @ replicate (PAYLOAD_SIZE - sz) 0
                                 else body)\<rparr>)\<rparr>)
      })"

text \<open>
  \<open>gen_pkt\<close>, in its two halves. Picking the next sub-operation: \<open>None\<close> inside when there is none
  to start on.
\<close>

definition pick_sub_op :: "('q, 'n) wenv \<Rightarrow> ('q, 'n) worker \<Rightarrow> bool \<times> ('q, 'n) worker" where
  "pick_sub_op E s = (case cur_sub s of
     Some a \<Rightarrow> (True, s)
   | None \<Rightarrow> (case front_req (sub_q E) (wqp s) of
       None \<Rightarrow> (False, s\<lparr>traffic_todo := False\<rparr>)
     | Some a \<Rightarrow>
         (let sub = sub_at E a; g = group_id (op_group (op_at E (sub_op sub)))
          in if current_group_id s \<noteq> g \<and> \<not> window_tx_empty s then (False, s\<lparr>traffic_todo := False\<rparr>)
             else let psn = group_psn s g;
                      cnt = of_nat ((unat (sub_size sub) + PAYLOAD_SIZE - 1) div PAYLOAD_SIZE);
                      cnt = (if cnt = 0 then 1 else cnt)
                  in (True, s\<lparr>cur_sub := Some a, current_group_id := g,
                       current_switch_window_limit := ucast (sub_agg_len sub div 2),
                       traffic_todo := True, start_psn := psn, pkt_cnt := cnt, pkt_sent := 0,
                       group_psn := (group_psn s)(g := psn + cnt)\<rparr>))))"

definition gen_pkt :: "('q, 'n) wenv \<Rightarrow> u32 \<Rightarrow> ('q, 'n) worker \<Rightarrow> (bool \<times> ('q, 'n) worker) option" where
  "gen_pkt E p s0 = (case pick_sub_op E s0 of
     (False, s) \<Rightarrow> Some (False, s)
   | (True, s) \<Rightarrow> do {
       a \<leftarrow> cur_sub s;
       let sub = sub_at E a;
       let size_sent = pkt_sent s * of_nat PAYLOAD_SIZE;
       let last = (pkt_sent s + 1 = pkt_cnt s);
       st \<leftarrow> fill_pkt E (shm s) \<lparr>acked = False, ps_sub_op = a, ps_data = sub_data sub + ucast size_sent,
            ps_size = min (of_nat PAYLOAD_SIZE) (sub_size sub - size_sent), ps_psn = start_psn s + pkt_sent s,
            is_last = last, ps_pkt = ps_pkt (slot s p)\<rparr>;
       let s = (set_slot p st s)\<lparr>pkt_sent := pkt_sent s + 1\<rparr>;
       if last then do {
         q \<leftarrow> pop_req (sub_q E) (wqp s);
         Some (True, s\<lparr>wqp := q, cur_sub := None\<rparr>)
       } else Some (True, s)
     })"

subsection \<open>Sending\<close>

definition expect_win_len :: "('q, 'n) worker \<Rightarrow> u32" where
  "expect_win_len s = min (of_nat MAX_WIN_LEN - 1) (min (current_switch_window_limit s)
     (min (cwnd_trunc (cc s)) (window_len s + of_nat MAX_PKT_BURST)))"

text \<open>The loop of \<open>shift_send\<close>, with its locals \<open>to_send\<close> and \<open>win_len\<close>; the global \<open>to_send\<close> is set after it.\<close>

function shift_send_loop :: "('q, 'n) wenv \<Rightarrow> u32 \<Rightarrow> u32 \<Rightarrow> u32 \<Rightarrow> ('q, 'n) worker
    \<Rightarrow> (u32 \<times> u32 \<times> ('q, 'n) worker) option" where
  "shift_send_loop E expect t len s =
     (if len < expect then
        Option.bind (gen_pkt E t s) (\<lambda>(ok, s).
          if \<not> ok then Some (t, len, s)
          else let s = (if len = 0 then s\<lparr>left_psn := get_psn (ps_pkt (slot s (to_ack s)))\<rparr> else s) in
            Option.bind (transmit E t s) (\<lambda>s.
              shift_send_loop E expect (get_next_position t) (len + 1)
                (s\<lparr>stats := (stats s)\<lparr>shift_send_cnt := shift_send_cnt (stats s) + 1\<rparr>\<rparr>)))
      else Some (t, len, s))"
  by auto
termination
proof (relation "measure (\<lambda>(E, expect, t, len, s). unat expect - unat len)", simp, clarsimp)
  fix expect len :: u32
  assume "len < expect"
  then have "unat len < unat expect" by (simp add: word_less_nat_alt)
  moreover from this have "unat (len + 1) = Suc (unat len)"
    using u32_bound[of expect] by (intro unat_inc) simp
  ultimately show "unat expect - unat (len + 1) < unat expect - unat len" by simp
qed

declare shift_send_loop.simps [simp del]

definition shift_send :: "('q, 'n) wenv \<Rightarrow> ('q, 'n) worker \<Rightarrow> ('q, 'n) worker option" where
  "shift_send E s = do {
     (t, len, s) \<leftarrow> shift_send_loop E (expect_win_len s) (to_send s) (window_len s) s;
     let s = (if cwnd_trunc (cc s) \<le> len then s\<lparr>cwnd_achieved := True\<rparr> else s)\<lparr>to_send := t\<rparr>;
     Some (s\<lparr>right_psn := (if window_tx_empty s then 0
       else get_psn (ps_pkt (slot s (get_prev_position (to_send s)))))\<rparr>)
   }"

definition full_retrans :: "('q, 'n) wenv \<Rightarrow> ('q, 'n) worker \<Rightarrow> ('q, 'n) worker option" where
  "full_retrans E s =
     (if to_ack s = to_send s then Some s
      else do {
        (cnt, s) \<leftarrow> transmit_unacked E (to_ack s) (to_send s) 0 (s\<lparr>last_ack_time_stamp := global_ts s,
          stats := (stats s)\<lparr>full_retrans_trigger_cnt := full_retrans_trigger_cnt (stats s) + 1\<rparr>\<rparr>);
        Some (s\<lparr>stats := (stats s)\<lparr>full_retrans_pkt_cnt := full_retrans_pkt_cnt (stats s) + cnt\<rparr>,
                cc := cc_reinit (global_ts s) (cc s)\<rparr>)
      })"

definition tx_process :: "('q, 'n) wenv \<Rightarrow> ('q, 'n) worker \<Rightarrow> ('q, 'n) worker option" where
  "tx_process E s0 =
     (let s = (if ack_cnt s0 \<noteq> prev_ack_cnt s0
               then s0\<lparr>prev_ack_cnt := ack_cnt s0, last_ack_time_stamp := global_ts s0\<rparr> else s0)
      in do {
        s \<leftarrow> (if TIMEOUT_TIME \<le> global_ts s - last_ack_time_stamp s then full_retrans E s else Some s);
        s \<leftarrow> shift_send E s;
        Some (if window_tx_empty s then s\<lparr>last_ack_time_stamp := global_ts s\<rparr> else s)
      })"

subsection \<open>Congestion control\<close>

definition worker_adjust_rate :: "bool \<Rightarrow> ('q, 'n) worker \<Rightarrow> ('q, 'n) worker" where
  "worker_adjust_rate congestion s =
     s\<lparr>cc := adjust_rate congestion (cwnd_achieved s) (cc s), cwnd_achieved := False,
       stats := (if congestion then (stats s)\<lparr>cwnd_dec_cnt := cwnd_dec_cnt (stats s) + 1\<rparr>
         else if cwnd_achieved s then (stats s)\<lparr>cwnd_inc_cnt := cwnd_inc_cnt (stats s) + 1\<rparr>
         else stats s)\<rparr>"

definition congestion_control :: "('q, 'n) worker \<Rightarrow> ('q, 'n) worker" where
  "congestion_control s =
     (if global_ts s - prev_decrease_ts (cc s) < CC_REACTION_TIME then s
      else if ack_cnt s = prev_ack_cnt_cc s then s
      else if tos_minitor s AND 3 \<noteq> 3 \<and> \<not> pkt_loss_flag s
           \<and> global_ts s - prev_adjust_ts (cc s) < CC_REACTION_TIME then s
      else
        (let s = (if tos_minitor s AND 3 \<noteq> 3 \<and> \<not> pkt_loss_flag s
              then (let s = worker_adjust_rate False s in s\<lparr>cc := (cc s)\<lparr>prev_adjust_ts := global_ts s\<rparr>\<rparr>)
              else (let s = worker_adjust_rate True s in
                    s\<lparr>cc := (cc s)\<lparr>prev_decrease_ts := global_ts s, prev_adjust_ts := global_ts s\<rparr>,
                      tos_minitor := 0, pkt_loss_flag := False\<rparr>));
             i = unat (window_len s);
             s = (if traffic_todo s then s\<lparr>win_cnt := (win_cnt s)[i := win_cnt s ! i + 1]\<rparr> else s)
         in s\<lparr>prev_ack_cnt_cc := ack_cnt s\<rparr>))"

subsection \<open>The loop\<close>

text \<open>\<open>get_time_stamp\<close>: reads the clock (\<open>now\<close>) at one call in four.\<close>

definition get_time_stamp :: "u32 \<Rightarrow> ('q, 'n) worker \<Rightarrow> u32 \<times> ('q, 'n) worker" where
  "get_time_stamp now s =
     (let ts = (if ts_cnt s AND 3 = 0 then now else ts_cache s)
      in (ts, s\<lparr>ts_cache := ts, ts_cnt := ts_cnt s + 1\<rparr>))"

text \<open>The log block at the end of a turn, which resets what it has printed.\<close>

definition LOG_INTERVAL :: u32 where "LOG_INTERVAL = 100000"

definition reset_stats :: "('q, 'n) worker \<Rightarrow> ('q, 'n) worker" where
  "reset_stats s = s\<lparr>pbuf := (pbuf s)\<lparr>total_tx_nb := 0, total_rx_nb := 0\<rparr>,
     stats := (stats s)\<lparr>total_shift_send_cnt := total_shift_send_cnt (stats s) + shift_send_cnt (stats s),
       total_shift_ack_cnt := total_shift_ack_cnt (stats s) + shift_ack_cnt (stats s),
       shift_send_cnt := 0, shift_ack_cnt := 0, cwnd_inc_cnt := 0, cwnd_dec_cnt := 0,
       fast_retrans_trigger_cnt := 0, fast_retrans_pkt_cnt := 0, full_retrans_trigger_cnt := 0,
       full_retrans_pkt_cnt := 0, in_range_reduntant_ack_cnt := 0, out_range_reduntant_ack_cnt := 0\<rparr>,
     win_cnt := replicate (length (win_cnt s)) 0\<rparr>"

text \<open>One turn of \<open>worker_loop\<close>; \<open>log_ts\<close> is the loop's local.\<close>

definition worker_turn :: "('q, 'n) wenv \<Rightarrow> u32 \<Rightarrow> u32 \<Rightarrow> u32 \<times> ('q, 'n) worker
    \<Rightarrow> (u32 \<times> ('q, 'n) worker) option" where
  "worker_turn E base_ts now = (\<lambda>(log_ts, s).
     let (ts, s) = get_time_stamp now s; s = s\<lparr>global_ts := ts - base_ts\<rparr>
     in do {
       s \<leftarrow> rx_process E s;
       s \<leftarrow> tx_process E s;
       let s = congestion_control s;
       Some (if LOG_INTERVAL < global_ts s - log_ts then (global_ts s, reset_stats s) else (log_ts, s))
     })"

text \<open>The debugging loop \<open>test_loop\<close> (\<open>NETCCL_WORKER_LOOPBACK\<close>): answer each request at once.\<close>

definition worker_test_turn :: "('q, ptr) spsc_ops \<Rightarrow> 'q queue_pair \<Rightarrow> 'q queue_pair option" where
  "worker_test_turn Q qp = (case front_req Q qp of
     None \<Rightarrow> Some qp
   | Some a \<Rightarrow> do {
       qp1 \<leftarrow> pop_req Q qp;
       (_, qp2) \<leftarrow> push_resp Q a qp1;
       Some qp2
     })"

end
