(* ===== verification/WorkerWindow.thy ===== *)
theory WorkerWindow
  imports Worker
begin

text \<open>
  The window of the worker, seen as a list: positions of the ring as numbers, the pieces a
  sub-operation is cut into, and the invariant of a window of \<open>n\<close> packets.
\<close>

subsection \<open>Ring positions as numbers\<close>

definition ring_dist :: "nat \<Rightarrow> nat \<Rightarrow> nat" where
  "ring_dist a b = (b + MAX_WIN_LEN - a) mod MAX_WIN_LEN"

definition ring_add :: "nat \<Rightarrow> nat \<Rightarrow> nat" where
  "ring_add a i = (a + i) mod MAX_WIN_LEN"

lemma and_window_mask: "unat (x AND (of_nat MAX_WIN_LEN - 1) :: u32) = unat x mod MAX_WIN_LEN"
proof -
  have "(of_nat MAX_WIN_LEN - 1 :: u32) = mask 10"
    by (simp add: MAX_WIN_LEN_def mask_eq_exp_minus_1)
  then have "x AND (of_nat MAX_WIN_LEN - 1) = take_bit 10 x"
    by (simp add: take_bit_eq_mask)
  then show ?thesis
    by (simp add: take_bit_eq_mod MAX_WIN_LEN_def unat_mod)
qed

lemma unat_next: "unat p < MAX_WIN_LEN \<Longrightarrow> unat (get_next_position p) = ring_add (unat p) 1"
  unfolding get_next_position_def and_window_mask ring_add_def
  by (subst unat_inc) (simp_all add: MAX_WIN_LEN_def)

lemma unat_prev:
  assumes "unat p < MAX_WIN_LEN"
  shows "unat (get_prev_position p) = ring_add (unat p) (MAX_WIN_LEN - 1)"
proof (cases "p = 0")
  case True
  then show ?thesis
    by (simp add: get_prev_position_def ring_add_def MAX_WIN_LEN_def)
next
  case False
  then have "0 < unat p" by (simp add: unat_gt_0)
  then have "unat (p - 1) = unat p - 1" "unat p + (MAX_WIN_LEN - 1) = (unat p - 1) + MAX_WIN_LEN"
    by (simp_all add: unat_dec MAX_WIN_LEN_def)
  then show ?thesis
    unfolding get_prev_position_def and_window_mask ring_add_def by simp
qed

lemma ring_add_less [simp]: "ring_add a i < MAX_WIN_LEN"
  by (simp add: ring_add_def MAX_WIN_LEN_def)

lemma ring_dist_less [simp]: "ring_dist a b < MAX_WIN_LEN"
  by (simp add: ring_dist_def MAX_WIN_LEN_def)

lemma ring_add_0 [simp]: "a < MAX_WIN_LEN \<Longrightarrow> ring_add a 0 = a"
  by (simp add: ring_add_def)

lemma ring_add_add [simp]: "ring_add (ring_add a i) j = ring_add a (i + j)"
  by (simp add: ring_add_def mod_add_left_eq add.assoc)

lemma ring_add_full [simp]: "a < MAX_WIN_LEN \<Longrightarrow> ring_add a MAX_WIN_LEN = a"
  by (simp add: ring_add_def)

lemma ring_dist_le: "a \<le> b \<Longrightarrow> b < MAX_WIN_LEN \<Longrightarrow> ring_dist a b = b - a"
  by (simp add: ring_dist_def mod_if)

lemma ring_dist_gt: "b < a \<Longrightarrow> a < MAX_WIN_LEN \<Longrightarrow> ring_dist a b = b + MAX_WIN_LEN - a"
  by (simp add: ring_dist_def)

lemma ring_dist_add [simp]: "a < MAX_WIN_LEN \<Longrightarrow> i < MAX_WIN_LEN \<Longrightarrow> ring_dist a (ring_add a i) = i"
  by (cases "a + i < MAX_WIN_LEN") (auto simp: ring_dist_le ring_dist_gt ring_add_def mod_if)

lemma ring_add_inj:
  assumes "i < MAX_WIN_LEN" "j < MAX_WIN_LEN" "ring_add a i = ring_add a j"
  shows "i = j"
proof -
  have a: "a mod MAX_WIN_LEN < MAX_WIN_LEN" by (simp add: MAX_WIN_LEN_def)
  have "ring_add a k = ring_add (a mod MAX_WIN_LEN) k" for k by (simp add: ring_add_def mod_add_left_eq)
  with assms ring_dist_add[OF a] show ?thesis by metis
qed

lemma ring_add_dist [simp]: "a < MAX_WIN_LEN \<Longrightarrow> b < MAX_WIN_LEN \<Longrightarrow> ring_add a (ring_dist a b) = b"
  by (cases "a \<le> b") (auto simp: ring_dist_le ring_dist_gt ring_add_def)

lemma ring_dist_0_iff [simp]: "a < MAX_WIN_LEN \<Longrightarrow> b < MAX_WIN_LEN \<Longrightarrow> ring_dist a b = 0 \<longleftrightarrow> a = b"
  by (metis ring_add_0 ring_add_dist ring_dist_add MAX_WIN_LEN_def zero_less_numeral)

lemma ring_dist_self [simp]: "ring_dist a a = 0"
  by (simp add: ring_dist_def)

lemma unat_window_len:
  assumes "unat (to_ack s) < MAX_WIN_LEN" "unat (to_send s) < MAX_WIN_LEN"
  shows "unat (window_len s) = ring_dist (unat (to_ack s)) (unat (to_send s))"
proof (cases "to_ack s \<le> to_send s")
  case True
  then have "unat (to_ack s) \<le> unat (to_send s)" by (simp add: word_le_nat_alt)
  with True assms show ?thesis
    by (simp add: window_len_def unat_sub ring_dist_le)
next
  case False
  then have lt: "unat (to_send s) < unat (to_ack s)" by (simp add: word_le_nat_alt)
  have add: "unat (of_nat MAX_WIN_LEN + to_send s) = MAX_WIN_LEN + unat (to_send s)"
    using assms by (subst unat_add_small) (simp_all add: MAX_WIN_LEN_def)
  have "to_ack s \<le> of_nat MAX_WIN_LEN + to_send s"
    using assms by (simp add: word_le_nat_alt add)
  with False lt assms show ?thesis
    by (simp add: window_len_def unat_sub add ring_dist_gt)
qed

subsection \<open>The packets of a sub-operation\<close>

text \<open>A packet as the window records it: sub-operation, address, size, and whether it is the last.\<close>

type_synonym seg = "ptr \<times> u64 \<times> u32 \<times> bool"

definition seg_count :: "sub_op_t \<Rightarrow> nat" where
  "seg_count sub = max 1 ((unat (sub_size sub) + PAYLOAD_SIZE - 1) div PAYLOAD_SIZE)"

definition seg_at :: "ptr \<Rightarrow> sub_op_t \<Rightarrow> nat \<Rightarrow> seg" where
  "seg_at a sub k = (a, sub_data sub + of_nat (PAYLOAD_SIZE * k),
     of_nat (min PAYLOAD_SIZE (unat (sub_size sub) - PAYLOAD_SIZE * k)), k + 1 = seg_count sub)"

definition segs :: "ptr \<Rightarrow> sub_op_t \<Rightarrow> seg list" where
  "segs a sub = map (seg_at a sub) [0..<seg_count sub]"

definition seg_of :: "pkt_state_t \<Rightarrow> seg" where
  "seg_of st = (ps_sub_op st, ps_data st, ps_size st, is_last st)"

lemma seg_count_pos [simp]: "0 < seg_count sub" "seg_count sub \<noteq> 0"
  by (simp_all add: seg_count_def)

lemma seg_count_bound: "seg_count sub \<le> 2 ^ 24"
  using u32_bound[of "sub_size sub"] by (simp add: seg_count_def const_defs)

lemma length_segs [simp]: "length (segs a sub) = seg_count sub"
  by (simp add: segs_def)

lemma seg_count_u32:
  "(let cnt = of_nat ((unat (sub_size sub) + PAYLOAD_SIZE - 1) div PAYLOAD_SIZE) :: u32
    in if cnt = 0 then 1 else cnt) = of_nat (seg_count sub)"
proof -
  let ?c = "(unat (sub_size sub) + PAYLOAD_SIZE - 1) div PAYLOAD_SIZE"
  have b: "?c < 2 ^ LENGTH(32)"
    using u32_bound[of "sub_size sub"] by (simp add: const_defs)
  have "(of_nat ?c :: u32) = 0 \<longleftrightarrow> ?c = 0"
    using word_eq_of_nat_iff[OF b, of "0 :: u32"] by auto
  then show ?thesis by (auto simp: seg_count_def Let_def max_def)
qed

text \<open>The pieces cover the slice: they start at its data, follow each other, and their sizes add up.\<close>

lemma segs_cover:
  assumes "k \<le> seg_count sub"
  shows "sum_list (map (\<lambda>(_, _, sz, _). unat sz) (take k (segs a sub))) = min (PAYLOAD_SIZE * k) (unat (sub_size sub))"
  using assms
proof (induction k)
  case 0
  show ?case by simp
next
  case (Suc k)
  have "unat (of_nat (min PAYLOAD_SIZE (unat (sub_size sub) - PAYLOAD_SIZE * k)) :: u32)
      = min PAYLOAD_SIZE (unat (sub_size sub) - PAYLOAD_SIZE * k)"
    by (intro unat_of_nat_small) (simp add: const_defs)
  moreover have "take (Suc k) (segs a sub) = take k (segs a sub) @ [seg_at a sub k]"
    using Suc.prems by (simp add: take_Suc_conv_app_nth segs_def)
  ultimately show ?case
    using Suc by (auto simp: seg_at_def min_def)
qed

lemma seg_count_full: "unat (sub_size sub) \<le> PAYLOAD_SIZE * seg_count sub"
  using mod_less_divisor[of 256 "unat (sub_size sub) + 255"] div_mult_mod_eq[of "unat (sub_size sub) + 255" 256]
  by (simp add: seg_count_def const_defs max_def) linarith

subsection \<open>What filling a packet keeps\<close>

lemma fill_pkt_effect:
  assumes "fill_pkt E m st = Some st'"
  shows "seg_of st' = seg_of st" "ps_psn st' = ps_psn st" "acked st' = acked st" "is_last st' = is_last st"
    "ps_sub_op st' = ps_sub_op st"
    "get_psn (ps_pkt st') = ps_psn st"
    "get_group_id (ps_pkt st') = group_id (op_group (op_at E (sub_op (sub_at E (ps_sub_op st)))))"
  using assms
  by (auto simp: fill_pkt_def Let_def seg_of_def get_psn_def get_group_id_def mk_inc_def split: if_splits)

lemma fill_pkt_total:
  "sub_agg_len (sub_at E (ps_sub_op st)) \<noteq> 0 \<Longrightarrow> fill_pkt E m st \<noteq> None"
  by (simp add: fill_pkt_def Let_def)

subsection \<open>The window\<close>

definition slots :: "('q, 'n) worker \<Rightarrow> nat \<Rightarrow> nat \<Rightarrow> pkt_state_t list" where
  "slots s a n = map (\<lambda>i. win s ! ring_add a i) [0..<n]"

abbreviation in_flight :: "('q, 'n) worker \<Rightarrow> nat" where
  "in_flight s \<equiv> ring_dist (unat (to_ack s)) (unat (to_send s))"

abbreviation window :: "('q, 'n) worker \<Rightarrow> pkt_state_t list" where
  "window s \<equiv> slots s (unat (to_ack s)) (in_flight s)"

definition sub_group :: "('q, 'n) wenv \<Rightarrow> ptr \<Rightarrow> u8" where
  "sub_group E a = group_id (op_group (op_at E (sub_op (sub_at E a))))"

text \<open>The number the next packet made for the current group will get.\<close>

definition next_psn :: "('q, 'n) worker \<Rightarrow> u32" where
  "next_psn s = (case cur_sub s of None \<Rightarrow> group_psn s (current_group_id s)
     | Some _ \<Rightarrow> start_psn s + pkt_sent s)"

definition cur_ok :: "('q, 'n) wenv \<Rightarrow> ('q \<Rightarrow> ptr list) \<Rightarrow> ('q, 'n) worker \<Rightarrow> bool" where
  "cur_ok E contents s \<longleftrightarrow> (\<forall>a. cur_sub s = Some a \<longrightarrow>
     contents (wq (wqp s)) \<noteq> [] \<and> hd (contents (wq (wqp s))) = a \<and> sub_group E a = current_group_id s
   \<and> pkt_cnt s = of_nat (seg_count (sub_at E a)) \<and> unat (pkt_sent s) < seg_count (sub_at E a)
   \<and> group_psn s (current_group_id s) = start_psn s + pkt_cnt s)"

text \<open>
  The invariant of a window of \<open>n\<close> packets from \<open>to_ack\<close> on: they belong to the current group,
  carry the consecutive numbers that end at \<open>next_psn\<close>, and the queue pair counts the
  sub-operations whose last packet is among them as taken out.
\<close>

definition winv :: "('q, 'n) wenv \<Rightarrow> ('q \<Rightarrow> ptr list) \<Rightarrow> nat \<Rightarrow> ('q, 'n) worker \<Rightarrow> bool" where
  "winv E contents n s \<longleftrightarrow>
     length (win s) = MAX_WIN_LEN \<and> unat (to_ack s) < MAX_WIN_LEN \<and> n < MAX_WIN_LEN
   \<and> (\<forall>x \<in> set (slots s (unat (to_ack s)) n). get_psn (ps_pkt x) = ps_psn x
        \<and> get_group_id (ps_pkt x) = current_group_id s)
   \<and> (\<forall>i<n. ps_psn (slots s (unat (to_ack s)) n ! i) + of_nat (n - i) = next_psn s)
   \<and> cur_ok E contents s
   \<and> qp_ok contents QUEUE_SIZE (length (filter is_last (slots s (unat (to_ack s)) n))) (wqp s)"

text \<open>The packets still to be made: the rest of the current sub-operation, then those that wait.\<close>

definition rest :: "('q, 'n) wenv \<Rightarrow> ('q \<Rightarrow> ptr list) \<Rightarrow> ('q, 'n) worker \<Rightarrow> seg list" where
  "rest E contents s =
     (let todo = concat (map (\<lambda>a. segs a (sub_at E a)) (contents (wq (wqp s))))
      in case cur_sub s of None \<Rightarrow> todo | Some a \<Rightarrow> drop (unat (pkt_sent s)) todo)"

lemma length_slots [simp]: "length (slots s a n) = n"
  by (simp add: slots_def)

lemma slots_0 [simp]: "slots s a 0 = []"
  by (simp add: slots_def)

lemma slots_nth: "i < n \<Longrightarrow> slots s a n ! i = win s ! ring_add a i"
  by (simp add: slots_def)

lemma slots_Suc: "slots s a (Suc n) = slots s a n @ [win s ! ring_add a n]"
  by (simp add: slots_def)

lemma slots_cong: "win s = win s' \<Longrightarrow> slots s a n = slots s' a n"
  by (simp add: slots_def)

lemma slots_set_slot:
  assumes "n < MAX_WIN_LEN" "unat t = ring_add a n" "length (win s) = MAX_WIN_LEN"
  shows "slots (set_slot t st s) a (Suc n) = slots s a n @ [st]"
proof -
  have "win (set_slot t st s) ! ring_add a i = win s ! ring_add a i" if "i < n" for i
  proof -
    have "ring_add a i \<noteq> ring_add a n" using that assms ring_add_inj[of i n a] by auto
    then show ?thesis using assms by (simp add: set_slot_def)
  qed
  then show ?thesis
    using assms by (simp add: slots_Suc) (simp add: slots_def set_slot_def)
qed

end
