(* ===== verification/WorkerGen.thy ===== *)
theory WorkerGen
  imports WorkerWindow
begin

text \<open>
  Making one packet: \<open>gen_pkt\<close> makes the next piece of the next sub-operation, with the next
  number of its group, and takes the sub-operation out of the queue with its last piece.
\<close>

subsection \<open>Making one packet\<close>

lemma seg_offset_bound:
  assumes "k < seg_count sub"
  shows "PAYLOAD_SIZE * k \<le> unat (sub_size sub)"
proof (cases "k = 0")
  case False
  with assms have "k < (unat (sub_size sub) + PAYLOAD_SIZE - 1) div PAYLOAD_SIZE"
    by (simp add: seg_count_def)
  then have "Suc k * 256 \<le> unat (sub_size sub) + 255"
    by (simp add: const_defs Suc_le_eq[symmetric] less_eq_div_iff_mult_less_eq del: mult_Suc)
  then show ?thesis by (simp add: const_defs)
qed simp

text \<open>The words \<open>gen_pkt\<close> computes for piece \<open>k\<close> are that piece.\<close>

lemma gen_seg:
  assumes k: "unat ps = k" "k < seg_count sub" and cnt: "cnt = of_nat (seg_count sub)"
  shows "(a, sub_data sub + ucast (ps * of_nat PAYLOAD_SIZE),
      min (of_nat PAYLOAD_SIZE) (sub_size sub - ps * of_nat PAYLOAD_SIZE), ps + 1 = cnt) = seg_at a sub k"
    and "unat (ps + 1) = Suc k"
proof -
  have le: "256 * k \<le> unat (sub_size sub)"
    using seg_offset_bound[OF k(2)] by (simp add: const_defs)
  have off: "unat (ps * of_nat PAYLOAD_SIZE) = 256 * k"
    using le u32_bound[of "sub_size sub"] k(1) by (simp add: unat_word_ariths(2) const_defs mult.commute)
  have "unat (ucast (ps * of_nat PAYLOAD_SIZE) :: u64) = unat (of_nat (256 * k) :: u64)"
    using le u32_bound[of "sub_size sub"]
    by (subst unat_ucast_u64, subst unat_of_nat_small) (simp_all add: off)
  then have data: "(ucast (ps * of_nat PAYLOAD_SIZE) :: u64) = of_nat (256 * k)"
    by (simp only: word_unat_eq_iff)
  have "ps * of_nat PAYLOAD_SIZE \<le> sub_size sub" using le by (simp add: word_le_nat_alt off)
  then have sub: "unat (sub_size sub - ps * of_nat PAYLOAD_SIZE) = unat (sub_size sub) - 256 * k"
    by (simp add: unat_sub off)
  have "unat (min (of_nat PAYLOAD_SIZE) (sub_size sub - ps * of_nat PAYLOAD_SIZE))
      = min 256 (unat (sub_size sub) - 256 * k)"
    using sub by (auto simp: min_def word_le_nat_alt const_defs)
  also have "\<dots> = unat (of_nat (min 256 (unat (sub_size sub) - 256 * k)) :: u32)"
    by (rule unat_of_nat_small[symmetric]) simp
  finally have size: "min (of_nat PAYLOAD_SIZE) (sub_size sub - ps * of_nat PAYLOAD_SIZE)
      = of_nat (min 256 (unat (sub_size sub) - 256 * k))"
    by (simp only: word_unat_eq_iff)
  have c: "seg_count sub < 2 ^ LENGTH(32)" using seg_count_bound[of sub] by simp
  show inc: "unat (ps + 1) = Suc k"
    using k c by (subst unat_inc) simp_all
  have "ps + 1 = cnt \<longleftrightarrow> k + 1 = seg_count sub"
    unfolding cnt word_eq_of_nat_iff[OF c] inc by simp
  with data size show "(a, sub_data sub + ucast (ps * of_nat PAYLOAD_SIZE),
      min (of_nat PAYLOAD_SIZE) (sub_size sub - ps * of_nat PAYLOAD_SIZE), ps + 1 = cnt) = seg_at a sub k"
    by (simp add: seg_at_def const_defs)
qed

text \<open>What making a packet leaves alone.\<close>

definition gen_frame :: "('q, 'n) worker \<Rightarrow> ('q, 'n) worker \<Rightarrow> bool" where
  "gen_frame s s' \<longleftrightarrow> to_ack s' = to_ack s \<and> to_send s' = to_send s \<and> left_psn s' = left_psn s
     \<and> pbuf s' = pbuf s \<and> card_st s' = card_st s \<and> shm s' = shm s \<and> PACKET_LOOPBACK s' = PACKET_LOOPBACK s
     \<and> local_queue s' = local_queue s \<and> cc s' = cc s \<and> stats s' = stats s \<and> global_ts s' = global_ts s
     \<and> cwnd_achieved s' = cwnd_achieved s \<and> ack_cnt s' = ack_cnt s \<and> cq (wqp s') = cq (wqp s) \<and> num_in_queue (wqp s') = num_in_queue (wqp s)"

text \<open>
  A switch of groups happens with no packet in the window. \<open>gen_pkt\<close> tests \<open>window_tx_empty\<close>, which
  within one burst does not see the \<open>n\<close> packets the burst has already made.
\<close>

definition burst_ok :: "('q, 'n) wenv \<Rightarrow> ('q \<Rightarrow> ptr list) \<Rightarrow> nat \<Rightarrow> ('q, 'n) worker \<Rightarrow> bool" where
  "burst_ok E contents n s \<longleftrightarrow>
     (cur_sub s = None \<and> contents (wq (wqp s)) \<noteq> [] \<and> window_tx_empty s
        \<and> current_group_id s \<noteq> sub_group E (hd (contents (wq (wqp s)))) \<longrightarrow> n = 0)"

locale worker_env = sq: queue_pair_impl "sub_q E" contents QUEUE_SIZE + card: nic "net E" sent delivered
  for E :: "('q, 'n) wenv" and contents :: "'q \<Rightarrow> ptr list"
    and sent :: "'n \<Rightarrow> pkt option list" and delivered :: "'n \<Rightarrow> pkt option list"
begin

abbreviation "work s \<equiv> contents (wq (wqp s))"
abbreviation "win_inv \<equiv> winv E contents"
abbreviation "todo \<equiv> rest E contents"

lemma pick_effect:
  assumes inv: "win_inv n s"
    and grp: "burst_ok E contents n s"
  obtains (idle) "pick_sub_op E s = (False, s\<lparr>traffic_todo := False\<rparr>)" "cur_sub s = None"
      "work s = [] \<or> current_group_id s \<noteq> sub_group E (hd (work s)) \<and> \<not> window_tx_empty s"
    | (picked) a s' where "pick_sub_op E s = (True, s')" "cur_sub s' = Some a" "win_inv n s'" "todo s' = todo s"
      "gen_frame s s'" "win s' = win s" "wqp s' = wqp s" "pkt_sent s' = (if cur_sub s = None then 0 else pkt_sent s)"
proof (cases "cur_sub s")
  case (Some a)
  then have "pick_sub_op E s = (True, s)" by (simp add: pick_sub_op_def)
  with Some inv show ?thesis by (intro picked[of s a]) (simp_all add: gen_frame_def)
next
  case None
  show ?thesis
  proof (cases "work s")
    case Nil
    then have "pick_sub_op E s = (False, s\<lparr>traffic_todo := False\<rparr>)"
      using None by (simp add: pick_sub_op_def sq.front_req_eq)
    with Nil None show ?thesis by (intro idle) simp_all
  next
    case (Cons a es)
    let ?g = "sub_group E a"
    show ?thesis
    proof (cases "current_group_id s \<noteq> ?g \<and> \<not> window_tx_empty s")
      case True
      then have "pick_sub_op E s = (False, s\<lparr>traffic_todo := False\<rparr>)"
        using None Cons by (simp add: pick_sub_op_def sq.front_req_eq sub_group_def)
      with True Cons None show ?thesis by (intro idle) simp_all
    next
      case False
      let ?cnt = "of_nat (seg_count (sub_at E a)) :: u32"
      let ?s' = "s\<lparr>cur_sub := Some a, current_group_id := ?g,
         current_switch_window_limit := ucast (sub_agg_len (sub_at E a) div 2),
         traffic_todo := True, start_psn := group_psn s ?g, pkt_cnt := ?cnt, pkt_sent := 0,
         group_psn := (group_psn s)(?g := group_psn s ?g + ?cnt)\<rparr>"
      have p: "pick_sub_op E s = (True, ?s')"
        using None Cons False seg_count_u32[of "sub_at E a"]
        by (simp add: pick_sub_op_def sq.front_req_eq sub_group_def Let_def)
      have z: "n = 0 \<or> current_group_id s = ?g"
        using grp None Cons False by (auto simp: burst_ok_def)
      have "next_psn ?s' = next_psn s \<or> n = 0"
        using z None by (auto simp: next_psn_def)
      with inv z have "win_inv n ?s'"
        by (auto simp: winv_def cur_ok_def Cons slots_def)
      moreover have "todo ?s' = todo s" using None by (simp add: rest_def)
      ultimately show ?thesis
        using p None by (intro picked[of ?s' a]) (simp_all add: gen_frame_def)
    qed
  qed
qed


lemma rest_cur:
  assumes "cur_sub s = Some a" "work s = a # es" "unat (pkt_sent s) \<le> seg_count (sub_at E a)"
  shows "todo s = drop (unat (pkt_sent s)) (segs a (sub_at E a)) @ concat (map (\<lambda>a. segs a (sub_at E a)) es)"
  using assms by (simp add: rest_def)

lemma gen_effect:
  assumes inv: "win_inv n s" and room: "Suc n < MAX_WIN_LEN" and t: "unat t = ring_add (unat (to_ack s)) n"
    and agg: "\<forall>a\<in>set (work s). sub_agg_len (sub_at E a) \<noteq> 0"
    and grp: "burst_ok E contents n s"
  obtains (idle) "gen_pkt E t s = Some (False, s\<lparr>traffic_todo := False\<rparr>)" "cur_sub s = None"
      "work s = [] \<or> current_group_id s \<noteq> sub_group E (hd (work s)) \<and> \<not> window_tx_empty s"
    | (made) st s' where "gen_pkt E t s = Some (True, s')" "win_inv (Suc n) s'"
      "slots s' (unat (to_ack s)) (Suc n) = slots s (unat (to_ack s)) n @ [st]"
      "todo s = seg_of st # todo s'" "\<not> acked st" "gen_frame s s'"
      "work s \<noteq> []" "current_group_id s' = sub_group E (hd (work s))" "ps_sub_op st = hd (work s)"
      "set (work s') \<subseteq> set (work s)" "get_psn (ps_pkt st) = ps_psn st"
proof (cases rule: pick_effect[OF inv grp, case_names idle picked])
  case idle
  then show ?thesis by (intro that(1)) (simp_all add: gen_pkt_def)
next
  case (picked a s1)
  let ?k = "unat (pkt_sent s1)" and ?sub = "sub_at E a"
  have c1: "cur_ok E contents s1" using picked(3) by (simp add: winv_def)
  then have cur: "work s1 = a # tl (work s1)" "sub_group E a = current_group_id s1"
      "pkt_cnt s1 = of_nat (seg_count ?sub)" "?k < seg_count ?sub"
      "group_psn s1 (current_group_id s1) = start_psn s1 + pkt_cnt s1"
    using picked(2) by (auto simp: cur_ok_def neq_Nil_conv)
  have w: "work s1 = work s" using picked(7) by simp
  note seg = gen_seg(1)[OF refl cur(4) cur(3), where a = a] gen_seg(2)[OF refl cur(4) cur(3)]
  let ?last = "pkt_sent s1 + 1 = pkt_cnt s1"
  define st0 where "st0 = \<lparr>acked = False, ps_sub_op = a, ps_data = sub_data ?sub + ucast (pkt_sent s1 * of_nat PAYLOAD_SIZE),
            ps_size = min (of_nat PAYLOAD_SIZE) (sub_size ?sub - pkt_sent s1 * of_nat PAYLOAD_SIZE),
            ps_psn = start_psn s1 + pkt_sent s1, is_last = ?last, ps_pkt = ps_pkt (slot s1 t)\<rparr>"
  have "a \<in> set (work s)" using cur(1) w by (metis list.set_intros(1))
  then have "sub_agg_len (sub_at E (ps_sub_op st0)) \<noteq> 0" using agg by (simp add: st0_def)
  then obtain st where st: "fill_pkt E (shm s1) st0 = Some st" using fill_pkt_total by blast
  note F = fill_pkt_effect[OF st]
  have psn: "ps_psn st = next_psn s1" using F(2) picked(2) by (simp add: st0_def next_psn_def)
  have grp_st: "get_group_id (ps_pkt st) = current_group_id s1"
    using F(7) cur(2) by (simp add: st0_def sub_group_def)
  have seg_st: "seg_of st = seg_at a ?sub ?k"
    using F(1) seg(1) by (simp add: st0_def seg_of_def)
  have lst: "is_last st = ?last" using F(4) by (simp add: st0_def)
  have c: "seg_count ?sub < 2 ^ LENGTH(32)" using seg_count_bound[of ?sub] by simp
  have last_iff: "?last \<longleftrightarrow> Suc ?k = seg_count ?sub"
    unfolding cur(3) word_eq_of_nat_iff[OF c] seg(2) ..
  define s2 where "s2 = (set_slot t st s1)\<lparr>pkt_sent := pkt_sent s1 + 1\<rparr>"
  have ta: "to_ack s1 = to_ack s" "slots s1 (unat (to_ack s)) n = slots s (unat (to_ack s)) n"
    using picked(5,6) by (simp_all add: gen_frame_def slots_def)
  have len: "length (win s1) = MAX_WIN_LEN" "n < MAX_WIN_LEN"
    using picked(3) by (simp_all add: winv_def)
  have sl: "slots s2 (unat (to_ack s)) (Suc n) = slots s (unat (to_ack s)) n @ [st]"
    using slots_set_slot[OF len(2) t len(1), of st] ta by (simp add: s2_def slots_def)
  have psns: "ps_psn ((slots s (unat (to_ack s)) n @ [st]) ! i) + of_nat (Suc n - i) = next_psn s1 + 1"
    if "i < Suc n" for i
  proof (cases "i = n")
    case True
    then show ?thesis by (simp add: nth_append psn)
  next
    case False
    with that have i: "i < n" by simp
    then have "ps_psn (slots s (unat (to_ack s)) n ! i) + of_nat (n - i) = next_psn s1"
      using picked(3) ta by (simp add: winv_def)
    with i show ?thesis by (simp add: nth_append Suc_diff_le add.assoc[symmetric])
  qed
  obtain es where es: "work s1 = a # es" using cur(1) by metis
  have todo1: "todo s = seg_of st # drop (Suc ?k) (segs a ?sub) @ concat (map (\<lambda>a. segs a (sub_at E a)) es)"
    using rest_cur[OF picked(2) es] cur(4) picked(4) seg_st
    by (simp add: Cons_nth_drop_Suc[symmetric]) (simp add: segs_def)
  have frame2: "gen_frame s s2" "wqp s2 = wqp s" "current_group_id s2 = current_group_id s1" "length (win s2) = MAX_WIN_LEN"
    using picked(5,7) len by (simp_all add: gen_frame_def s2_def set_slot_def)
  have ta2: "to_ack s2 = to_ack s" using frame2(1) by (simp add: gen_frame_def)
  have pk: "\<forall>x\<in>set (slots s2 (unat (to_ack s)) (Suc n)). get_psn (ps_pkt x) = ps_psn x
      \<and> get_group_id (ps_pkt x) = current_group_id s1"
    using picked(3) F(2,6) grp_st ta by (auto simp: sl winv_def)
  have psns2: "\<forall>i<Suc n. ps_psn (slots s2 (unat (to_ack s)) (Suc n) ! i) + of_nat (Suc n - i) = next_psn s1 + 1"
    using psns by (simp add: sl)
  let ?h = "length (filter is_last (slots s (unat (to_ack s)) n))"
  have qok: "sq.ok ?h (wqp s)"
    using picked(3,7) ta by (simp add: winv_def)
  have gen: "gen_pkt E t s = (if ?last then do {
         q \<leftarrow> pop_req (sub_q E) (wqp s);
         Some (True, s2\<lparr>wqp := q, cur_sub := None\<rparr>)
       } else Some (True, s2))"
    using picked(1,2,7) st by (simp add: gen_pkt_def Let_def st0_def[symmetric] s2_def set_slot_def)
  have winvI: "win_inv (Suc n) s3 \<and> slots s3 (unat (to_ack s)) (Suc n) = slots s (unat (to_ack s)) n @ [st]"
    if "win s3 = win s2" "to_ack s3 = to_ack s" "current_group_id s3 = current_group_id s1"
      "next_psn s3 = next_psn s1 + 1" "cur_ok E contents s3" "sq.ok (length (filter is_last (slots s2 (unat (to_ack s)) (Suc n)))) (wqp s3)" for s3
  proof -
    have "slots s3 (unat (to_ack s)) (Suc n) = slots s2 (unat (to_ack s)) (Suc n)"
      using that(1) by (rule slots_cong)
    moreover have "unat (to_ack s) < MAX_WIN_LEN" using picked(3) ta by (simp add: winv_def)
    ultimately show ?thesis
      using that frame2(4) pk psns2 room sl by (simp add: winv_def)
  qed
  have st_facts: "\<not> acked st" "ps_sub_op st = a" "get_psn (ps_pkt st) = ps_psn st"
    using F(2,3,5,6) by (simp_all add: st0_def)
  have ws: "work s \<noteq> []" "hd (work s) = a" "current_group_id s1 = sub_group E (hd (work s))"
    using es w cur(2) by auto
  show ?thesis
  proof (cases ?last)
    case False
    have c2: "cur_ok E contents s2"
      using cur(2-) False last_iff frame2 w ws(1,2) picked(2) seg(2) by (auto simp: cur_ok_def s2_def set_slot_def)
    have "next_psn s2 = next_psn s1 + 1"
      using picked(2) by (simp add: next_psn_def s2_def set_slot_def add.assoc)
    then have "win_inv (Suc n) s2"
      using winvI[of s2] frame2 ta2 c2 qok lst False sl by simp
    moreover have "todo s2 = drop (Suc ?k) (segs a ?sub) @ concat (map (\<lambda>a. segs a (sub_at E a)) es)"
      using rest_cur[of s2 a es] es w frame2 seg(2) cur(4) picked(2) by (simp add: s2_def set_slot_def)
    ultimately show ?thesis
      using gen False todo1 frame2 st_facts ws sl by (intro made[of s2 st]) simp_all
  next
    case True
    have ws3: "work s = a # es" using es w by simp
    from qok ws3 obtain q where q: "pop_req (sub_q E) (wqp s) = Some q" "sq.ok (Suc ?h) q" "contents (wq q) = es"
        "cq q = cq (wqp s)" "num_in_queue q = num_in_queue (wqp s)"
      by (rule sq.pop_req_cons)
    let ?s3 = "s2\<lparr>wqp := q, cur_sub := None\<rparr>"
    note wq3 = q(3)
    have "next_psn ?s3 = next_psn s1 + 1"
      using cur(5) True picked(2) by (simp add: next_psn_def s2_def set_slot_def add.assoc)
    then have "win_inv (Suc n) ?s3"
      using winvI[of ?s3] frame2 ta2 q(2) lst True sl by (simp add: cur_ok_def)
    moreover have "todo ?s3 = concat (map (\<lambda>a. segs a (sub_at E a)) es)"
      using wq3 by (simp add: rest_def)
    moreover have "drop (Suc ?k) (segs a ?sub) = []" using True last_iff by simp
    moreover have "gen_frame s ?s3" using frame2(1) q(4,5) by (simp add: gen_frame_def)
    moreover have "slots ?s3 (unat (to_ack s)) (Suc n) = slots s2 (unat (to_ack s)) (Suc n)"
      by (rule slots_cong) simp
    ultimately show ?thesis
      using gen True todo1 frame2 st_facts ws sl q(1) wq3 es w by (intro made[of ?s3 st]) (simp_all add: subset_insertI)
  qed
qed

end

end
