(* ===== verification/WorkerSend.thy ===== *)
theory WorkerSend
  imports WorkerGen
begin

text \<open>
  Sending: what a transmission does to the card, a burst of new packets (\<open>shift_send\<close>), and the
  invariant \<open>wok\<close> of the worker between two handlers.
\<close>

subsection \<open>What a transmission does\<close>

text \<open>
  Between \<open>s\<close> and \<open>s'\<close> the packets \<open>es\<close> (slot and contents) have been given to the card, or to the
  thread's own queue in loopback, in this order; and nothing was received.
\<close>

definition emits :: "('n \<Rightarrow> pkt option list) \<Rightarrow> ('n \<Rightarrow> pkt option list) \<Rightarrow> ('q, 'n) worker \<Rightarrow> ('q, 'n) worker
    \<Rightarrow> (u32 \<times> mbuf) list \<Rightarrow> bool" where
  "emits sent delivered s s' es \<longleftrightarrow> PACKET_LOOPBACK s' = PACKET_LOOPBACK s
     \<and> pb_ok (pbuf s') \<and> unread (pbuf s') = unread (pbuf s) \<and> delivered (card_st s') = delivered (card_st s)
     \<and> sent (card_st s') @ queued (pbuf s') = sent (card_st s) @ queued (pbuf s)
         @ (if PACKET_LOOPBACK s then [] else map (Some \<circ> Slot \<circ> fst) es)
     \<and> local_queue s' = local_queue s @ (if PACKET_LOOPBACK s then map snd es else [])"

lemma emits_Nil: "pb_ok (pbuf s) \<Longrightarrow> emits sent delivered s s []"
  by (simp add: emits_def)

lemma emits_append: "emits sent delivered s s1 es \<Longrightarrow> emits sent delivered s1 s2 fs
    \<Longrightarrow> emits sent delivered s s2 (es @ fs)"
  by (auto simp: emits_def)

lemma emits_cong:
  "emits sent delivered s s' es \<Longrightarrow> pbuf t = pbuf s' \<Longrightarrow> card_st t = card_st s' \<Longrightarrow> local_queue t = local_queue s'
    \<Longrightarrow> PACKET_LOOPBACK t = PACKET_LOOPBACK s' \<Longrightarrow> emits sent delivered s t es"
  by (simp add: emits_def)

lemma emits_cong_left:
  "emits sent delivered s s' es \<Longrightarrow> pbuf t = pbuf s \<Longrightarrow> card_st t = card_st s \<Longrightarrow> local_queue t = local_queue s
    \<Longrightarrow> PACKET_LOOPBACK t = PACKET_LOOPBACK s \<Longrightarrow> emits sent delivered t s' es"
  by (simp add: emits_def)

text \<open>The parts of the state the transmissions and the log leave the invariant's terms alone.\<close>

definition same_core :: "('q, 'n) worker \<Rightarrow> ('q, 'n) worker \<Rightarrow> bool" where
  "same_core s s' \<longleftrightarrow> win s' = win s \<and> to_ack s' = to_ack s
     \<and> current_group_id s' = current_group_id s \<and> cur_sub s' = cur_sub s \<and> group_psn s' = group_psn s
     \<and> start_psn s' = start_psn s \<and> pkt_sent s' = pkt_sent s \<and> pkt_cnt s' = pkt_cnt s \<and> wqp s' = wqp s"

definition same_window :: "('q, 'n) worker \<Rightarrow> ('q, 'n) worker \<Rightarrow> bool" where
  "same_window s s' \<longleftrightarrow> same_core s s' \<and> to_send s' = to_send s"

lemma same_core_invariants:
  assumes "same_core s s'"
  shows "winv E contents n s' = winv E contents n s" "rest E contents s' = rest E contents s"
    "slots s' = slots s" "next_psn s' = next_psn s" "cur_ok E contents s' = cur_ok E contents s"
proof -
  show 1: "slots s' = slots s" "next_psn s' = next_psn s" "cur_ok E contents s' = cur_ok E contents s"
    using assms by (auto simp: same_core_def slots_def next_psn_def cur_ok_def intro!: ext split: option.splits)
  show "winv E contents n s' = winv E contents n s"
    using assms 1 by (simp add: winv_def same_core_def)
  show "rest E contents s' = rest E contents s"
    using assms 1 by (simp add: rest_def same_core_def Let_def split: option.split)
qed

lemma same_window_invariants:
  assumes "same_window s s'"
  shows "winv E contents n s' = winv E contents n s" "rest E contents s' = rest E contents s"
    "slots s' = slots s" "burst_ok E contents n s' = burst_ok E contents n s" "next_psn s' = next_psn s"
    "window_tx_empty s' = window_tx_empty s" "cur_ok E contents s' = cur_ok E contents s"
proof -
  have c: "same_core s s'" "to_send s' = to_send s" using assms by (simp_all add: same_window_def)
  note same_core_invariants[OF c(1)]
  then show "winv E contents n s' = winv E contents n s" "rest E contents s' = rest E contents s"
    "slots s' = slots s" "next_psn s' = next_psn s" "cur_ok E contents s' = cur_ok E contents s" by simp_all
  show t: "window_tx_empty s' = window_tx_empty s" using c by (simp add: window_tx_empty_def same_core_def)
  show "burst_ok E contents n s' = burst_ok E contents n s"
    using c t by (simp add: same_core_def burst_ok_def)
qed

lemma same_window_trans: "same_window s s1 \<Longrightarrow> same_window s1 s2 \<Longrightarrow> same_window s s2"
  by (simp add: same_window_def same_core_def)

text \<open>The fields neither a transmission nor the making of packets touches.\<close>

definition send_frame :: "('q, 'n) worker \<Rightarrow> ('q, 'n) worker \<Rightarrow> bool" where
  "send_frame s s' \<longleftrightarrow> to_ack s' = to_ack s \<and> to_send s' = to_send s \<and> shm s' = shm s
     \<and> cc s' = cc s \<and> global_ts s' = global_ts s \<and> ack_cnt s' = ack_cnt s \<and> cwnd_achieved s' = cwnd_achieved s
     \<and> cq (wqp s') = cq (wqp s) \<and> num_in_queue (wqp s') = num_in_queue (wqp s)"

lemma send_frame_trans: "send_frame s s1 \<Longrightarrow> send_frame s1 s2 \<Longrightarrow> send_frame s s2"
  by (simp add: send_frame_def)

text \<open>The positions of \<open>m\<close> slots from the \<open>n\<close>-th of the window on.\<close>

definition positions :: "nat \<Rightarrow> nat \<Rightarrow> nat \<Rightarrow> nat list" where
  "positions a n m = map (\<lambda>i. ring_add a (n + i)) [0..<m]"

lemma positions_Suc: "positions a n (Suc m) = ring_add a n # positions a (Suc n) m"
  by (simp add: positions_def upt_conv_Cons map_Suc_upt[symmetric] comp_def del: upt_Suc)

context worker_env begin

abbreviation "emitted \<equiv> emits sent delivered"

lemma transmit_effect:
  assumes "transmit E p s = Some s'" "pb_ok (pbuf s)"
  shows "emitted s s' [(p, ps_pkt (slot s p))] \<and> same_window s s' \<and> send_frame s s' \<and> left_psn s' = left_psn s
    \<and> right_psn s' = right_psn s"
proof (cases "PACKET_LOOPBACK s")
  case True
  with assms show ?thesis
    by (auto simp: transmit_def local_send_def emits_def same_window_def same_core_def send_frame_def)
next
  case False
  with assms obtain pb n where r: "send (net E) (Some (Slot p)) (pbuf s, card_st s) = Some (pb, n)"
    "s' = s\<lparr>pbuf := pb, card_st := n\<rparr>"
    by (auto simp: transmit_def)
  from card.send_effect[OF r(1) assms(2)] False r(2) show ?thesis
    by (simp add: emits_def same_window_def same_core_def send_frame_def)
qed

text \<open>
  What a burst needs to keep the groups apart: if the window looks empty to \<open>gen_pkt\<close> all through the
  burst, the work waiting is of one group.
\<close>

definition one_group :: "nat \<Rightarrow> ('q, 'n) worker \<Rightarrow> bool" where
  "one_group n s \<longleftrightarrow> (window_tx_empty s \<longrightarrow>
     (\<forall>a\<in>set (work s). \<forall>b\<in>set (work s). sub_group E a = sub_group E b)
     \<and> (n \<noteq> 0 \<longrightarrow> (\<forall>a\<in>set (work s). sub_group E a = current_group_id s)))"

lemma one_group_burst: "one_group n s \<Longrightarrow> burst_ok E contents n s"
  by (auto simp: one_group_def burst_ok_def)


text \<open>What a run of the loop of \<open>shift_send\<close> from a window of \<open>n\<close> packets achieves: \<open>new\<close> packets more.\<close>

definition burst :: "('q, 'n) worker \<Rightarrow> nat \<Rightarrow> ('q, 'n) worker \<Rightarrow> pkt_state_t list \<Rightarrow> bool" where
  "burst s n s' new \<longleftrightarrow> (let a = unat (to_ack s) in
     win_inv (n + length new) s' \<and> slots s' a (n + length new) = slots s a n @ new
   \<and> todo s = map seg_of new @ todo s' \<and> (\<forall>x\<in>set new. \<not> acked x)
   \<and> (\<exists>es. emitted s s' es \<and> map (unat \<circ> fst) es = positions a n (length new) \<and> map snd es = map ps_pkt new)
   \<and> send_frame s s' \<and> (0 < n + length new \<longrightarrow> left_psn s' = ps_psn (slots s' a (n + length new) ! 0))
   \<and> set (work s') \<subseteq> set (work s))"

lemma loop_one:
  assumes inv: "win_inv n s" and room: "Suc n < MAX_WIN_LEN" and t: "unat t = ring_add (unat (to_ack s)) n"
    and agg: "\<forall>a\<in>set (work s). sub_agg_len (sub_at E a) \<noteq> 0"
    and grp: "one_group n s" and pb: "pb_ok (pbuf s)"
    and left: "0 < n \<longrightarrow> left_psn s = ps_psn (slots s (unat (to_ack s)) n ! 0)"
    and g: "gen_pkt E t s = Some (True, s1)"
    and x: "transmit E t (if n = 0 then s1\<lparr>left_psn := get_psn (ps_pkt (slot s1 (to_ack s1)))\<rparr> else s1) = Some s3"
  obtains st where "burst s n (s3\<lparr>stats := st'\<rparr>) [st]" "one_group (Suc n) (s3\<lparr>stats := st'\<rparr>)"
proof (cases rule: gen_effect[OF inv room t agg one_group_burst[OF grp], case_names idle made])
  case idle
  then show ?thesis using g by simp
next
  case (made st s1')
  have s1: "s1' = s1" using g made(1) by simp
  note M = made(2-)[unfolded s1]
  let ?a = "unat (to_ack s)"
  define s2 where "s2 = (if n = 0 then s1\<lparr>left_psn := get_psn (ps_pkt (slot s1 (to_ack s1)))\<rparr> else s1)"
  let ?s4 = "s3\<lparr>stats := st'\<rparr>"
  have io: "to_ack s1 = to_ack s" "to_send s1 = to_send s" "left_psn s1 = left_psn s" "pbuf s1 = pbuf s" "card_st s1 = card_st s"
    "PACKET_LOOPBACK s1 = PACKET_LOOPBACK s" "local_queue s1 = local_queue s"
    using M(5) by (simp_all add: gen_frame_def)
  have sw12: "same_window s1 s2" by (simp add: same_window_def same_core_def s2_def)
  have f12: "send_frame s s2" using M(5) by (simp add: gen_frame_def send_frame_def s2_def)
  have pb2: "pb_ok (pbuf s2)" using pb io by (simp add: s2_def)
  note T = transmit_effect[OF x[folded s2_def] pb2]
  have sw: "same_window s1 ?s4"
    using T sw12 by (auto simp: same_window_def same_core_def)
  have fr: "send_frame s ?s4"
    using T f12 by (auto simp: send_frame_def)
  note S = same_window_invariants[OF sw]
  have winlen: "length (win s1) = MAX_WIN_LEN" using M(1) by (simp add: winv_def)
  have a: "?a < MAX_WIN_LEN" using inv by (simp add: winv_def)
  have "slot s1 t = slots s1 ?a (Suc n) ! n" by (simp add: slots_nth t)
  also have "\<dots> = st" using M(2) by (simp add: nth_append)
  finally have slot: "slot s1 t = st" .
  then have slot2: "slot s2 t = st" by (simp add: s2_def)
  have em: "emitted s ?s4 [(t, ps_pkt st)]"
    using T slot2 io by (auto simp: emits_def s2_def)
  have first: "slots s1 ?a (Suc n) ! 0 = slot s1 (to_ack s1)"
    using a by (subst slots_nth) (simp_all add: io)
  have lf: "left_psn ?s4 = ps_psn (slots s1 ?a (Suc n) ! 0)"
  proof (cases "n = 0")
    case True
    then have "slot s1 (to_ack s1) = st" using first M(2) by simp
    then show ?thesis using True T M(10) first by (simp add: s2_def)
  next
    case False
    then have "slots s1 ?a (Suc n) ! 0 = slots s ?a n ! 0" using M(2) by (simp add: nth_append)
    then show ?thesis using False T left io by (simp add: s2_def)
  qed
  have sub: "set (work ?s4) \<subseteq> set (work s)" using M(9) sw by (simp add: same_window_def same_core_def)
  have em': "\<exists>es. emitted s ?s4 es \<and> map (unat \<circ> fst) es = positions ?a n (length [st]) \<and> map snd es = map ps_pkt [st]"
    using em by (intro exI[of _ "[(t, ps_pkt st)]"]) (simp add: positions_def t)
  have inv4: "win_inv (n + length [st]) ?s4" "slots ?s4 ?a (n + length [st]) = slots s ?a n @ [st]"
    "todo s = map seg_of [st] @ todo ?s4" "\<forall>x\<in>set [st]. \<not> acked x"
    "0 < n + length [st] \<longrightarrow> left_psn ?s4 = ps_psn (slots ?s4 ?a (n + length [st]) ! 0)"
    using M(1-4) S(1-3) lf by simp_all
  have "burst s n ?s4 [st]"
    unfolding burst_def Let_def using inv4 em' fr sub by blast
  moreover have "one_group (Suc n) ?s4"
  proof -
    have "window_tx_empty ?s4 = window_tx_empty s"
      using S(6) io by (simp add: window_tx_empty_def)
    moreover have "work ?s4 = work s1" "current_group_id ?s4 = current_group_id s1"
      using sw by (simp_all add: same_window_def same_core_def)
    moreover have "hd (work s) \<in> set (work s)" using M(6) by simp
    ultimately show ?thesis
      using grp M(7,9) unfolding one_group_def by (metis subsetD)
  qed
  ultimately show ?thesis by (rule that)
qed

lemma burst_Nil:
  assumes "win_inv n s" "pb_ok (pbuf s)" "0 < n \<longrightarrow> left_psn s = ps_psn (slots s (unat (to_ack s)) n ! 0)"
    and "same_window s s'" "send_frame s s'" "pbuf s' = pbuf s" "card_st s' = card_st s"
    "local_queue s' = local_queue s" "PACKET_LOOPBACK s' = PACKET_LOOPBACK s" "left_psn s' = left_psn s"
  shows "burst s n s' []"
  using assms same_window_invariants[OF assms(4)]
  by (auto simp: burst_def Let_def positions_def emits_def same_window_def same_core_def)

lemma burst_Cons:
  assumes b1: "burst s n s1 [st]" and b2: "burst s1 (Suc n) s2 new"
  shows "burst s n s2 (st # new)"
proof -
  from b1 obtain e1 where e1: "emitted s s1 e1" "map (unat \<circ> fst) e1 = positions (unat (to_ack s)) n 1"
    "map snd e1 = [ps_pkt st]" by (auto simp: burst_def Let_def)
  have ta: "to_ack s1 = to_ack s" using b1 by (simp add: burst_def Let_def send_frame_def)
  with b2 obtain e2 where e2: "emitted s1 s2 e2" "map (unat \<circ> fst) e2 = positions (unat (to_ack s)) (Suc n) (length new)"
    "map snd e2 = map ps_pkt new" by (auto simp: burst_def Let_def)
  have "positions (unat (to_ack s)) n 1 @ positions (unat (to_ack s)) (Suc n) (length new)
      = positions (unat (to_ack s)) n (Suc (length new))"
    by (simp add: positions_Suc) (simp add: positions_def)
  then have "\<exists>es. emitted s s2 es \<and> map (unat \<circ> fst) es = positions (unat (to_ack s)) n (length (st # new))
      \<and> map snd es = map ps_pkt (st # new)"
    using emits_append[OF e1(1) e2(1)] e1(2,3) e2(2,3) by (intro exI[of _ "e1 @ e2"]) simp
  moreover have "send_frame s s2" "set (work s2) \<subseteq> set (work s)"
    using b1 b2 by (auto simp: burst_def Let_def intro: send_frame_trans)
  ultimately show ?thesis
    using b1 b2 ta by (simp add: burst_def Let_def) 
qed

lemma loop_effect:
  assumes "shift_send_loop E expect t len s = Some (t', len', s')"
    and "win_inv n s" "unat len = n" "unat t = ring_add (unat (to_ack s)) n" "unat expect < MAX_WIN_LEN"
    and "\<forall>a\<in>set (work s). sub_agg_len (sub_at E a) \<noteq> 0"
    and "one_group n s" "pb_ok (pbuf s)" "0 < n \<longrightarrow> left_psn s = ps_psn (slots s (unat (to_ack s)) n ! 0)"
  shows "\<exists>new. burst s n s' new \<and> unat len' = n + length new
    \<and> unat t' = ring_add (unat (to_ack s)) (n + length new) \<and> unat len' \<le> max n (unat expect)
    \<and> (unat len' < unat expect \<longrightarrow> cur_sub s' = None
        \<and> (work s' = [] \<or> current_group_id s' \<noteq> sub_group E (hd (work s')) \<and> \<not> window_tx_empty s'))"
  using assms
proof (induction "unat expect - unat len" arbitrary: n t len s rule: less_induct)
  case less
  note ret = less.prems(1)
  show ?case
  proof (cases "len < expect")
    case False
    with ret have e: "t' = t" "len' = len" "s' = s" by (auto simp: shift_send_loop.simps[of E])
    have "burst s n s []"
      using less.prems by (intro burst_Nil) (simp_all add: same_window_def same_core_def send_frame_def)
    with False e less.prems(3,4) show ?thesis
      by (intro exI[of _ "[]"]) (auto simp: word_less_nat_alt)
  next
    case True
    then have lt: "unat len < unat expect" by (simp add: word_less_nat_alt)
    have room: "Suc n < MAX_WIN_LEN" using lt less.prems(3,5) by simp
    have inc: "unat (len + 1) = Suc n" using lt less.prems(3) u32_bound[of expect] by (simp add: unat_inc)
    have len0: "len = 0 \<longleftrightarrow> n = 0" using less.prems(3) by (auto simp: unat_eq_0)
    show ?thesis
    proof (cases "gen_pkt E t s")
      case None
      with ret True show ?thesis by (simp add: shift_send_loop.simps[of E])
    next
      case (Some r)
      then obtain ok s1 where g: "gen_pkt E t s = Some (ok, s1)" by (cases r) auto
      show ?thesis
      proof (cases ok)
        case False
        from less.prems(2) room less.prems(4,6) one_group_burst[OF less.prems(7)]
        have "s1 = s\<lparr>traffic_todo := False\<rparr> \<and> cur_sub s = None \<and>
            (work s = [] \<or> current_group_id s \<noteq> sub_group E (hd (work s)) \<and> \<not> window_tx_empty s)"
          by (rule gen_effect) (use g False in auto)
        moreover from this have "burst s n s1 []"
          using less.prems by (intro burst_Nil) (simp_all add: same_window_def same_core_def send_frame_def)
        moreover have "t' = t" "len' = len" "s' = s1"
          using ret True g False by (auto simp: shift_send_loop.simps[of E])
        ultimately show ?thesis
          using less.prems(3,4) lt by (intro exI[of _ "[]"]) (auto simp: window_tx_empty_def)
      next
        case ok: True
        let ?s2 = "if n = 0 then s1\<lparr>left_psn := get_psn (ps_pkt (slot s1 (to_ack s1)))\<rparr> else s1"
        have eq: "shift_send_loop E expect t len s = Option.bind (transmit E t ?s2) (\<lambda>s.
              shift_send_loop E expect (get_next_position t) (len + 1)
                (s\<lparr>stats := (stats s)\<lparr>shift_send_cnt := shift_send_cnt (stats s) + 1\<rparr>\<rparr>))"
          using True g ok len0 by (simp add: shift_send_loop.simps[of E])
        show ?thesis
        proof (cases "transmit E t ?s2")
          case None
          with ret eq show ?thesis by simp
        next
          case (Some s3)
          let ?s4 = "s3\<lparr>stats := (stats s3)\<lparr>shift_send_cnt := shift_send_cnt (stats s3) + 1\<rparr>\<rparr>"
          have g': "gen_pkt E t s = Some (True, s1)" using g ok by simp
          from less.prems(2) room less.prems(4,6,7,8,9) g' Some obtain st where
            st: "burst s n ?s4 [st]" "one_group (Suc n) ?s4"
            by (rule loop_one)
          have ret4: "shift_send_loop E expect (get_next_position t) (len + 1) ?s4 = Some (t', len', s')"
            using ret eq Some by simp
          have B: "win_inv (Suc n) ?s4" "to_ack ?s4 = to_ack s" "set (work ?s4) \<subseteq> set (work s)"
            "pb_ok (pbuf ?s4)" "0 < Suc n \<longrightarrow> left_psn ?s4 = ps_psn (slots ?s4 (unat (to_ack ?s4)) (Suc n) ! 0)"
            using st(1) by (auto simp: burst_def Let_def send_frame_def emits_def)
          have a: "unat t < MAX_WIN_LEN" using less.prems(4) by simp
          have t: "unat (get_next_position t) = ring_add (unat (to_ack ?s4)) (Suc n)"
            using B(2) unat_next[OF a] less.prems(4) by simp
          have m: "unat expect - unat (len + 1) < unat expect - unat len" using lt inc less.prems(3) by linarith
          have agg4: "\<forall>a\<in>set (work ?s4). sub_agg_len (sub_at E a) \<noteq> 0" using B(3) less.prems(6) by blast
          from less.hyps[OF m ret4 B(1) inc t less.prems(5) agg4 st(2) B(4,5)]
          obtain new where new: "burst ?s4 (Suc n) s' new" "unat len' = Suc n + length new"
            "unat t' = ring_add (unat (to_ack s)) (Suc n + length new)" "unat len' \<le> max (Suc n) (unat expect)"
            "unat len' < unat expect \<longrightarrow> cur_sub s' = None
              \<and> (work s' = [] \<or> current_group_id s' \<noteq> sub_group E (hd (work s')) \<and> \<not> window_tx_empty s')"
            using B(2) by auto
          with burst_Cons[OF st(1) new(1)] lt less.prems(3) show ?thesis
            by (intro exI[of _ "st # new"]) auto
        qed
      qed
    qed
  qed
qed

end

subsection \<open>The invariant of the worker between two handlers\<close>

text \<open>
  The numbers at the two ends of the window are cached, the position to send is in range, the
  packet buffer and the congestion control are in order.
\<close>

definition wok :: "('q, 'n) wenv \<Rightarrow> ('q \<Rightarrow> ptr list) \<Rightarrow> ('q, 'n) worker \<Rightarrow> bool" where
  "wok E contents s \<longleftrightarrow> winv E contents (in_flight s) s \<and> unat (to_send s) < MAX_WIN_LEN \<and> pb_ok (pbuf s)
     \<and> (0 < in_flight s \<longrightarrow> left_psn s = ps_psn (window s ! 0)
          \<and> right_psn s = ps_psn (window s ! (in_flight s - 1)))
     \<and> cc_ok (cc s) \<and> (cwnd_achieved s \<longrightarrow> cwnd (cc s) < 1024)"

lemma unat_expect_win_len:
  "unat (expect_win_len s) = min (MAX_WIN_LEN - 1) (min (unat (current_switch_window_limit s))
     (min (unat (cwnd_trunc (cc s))) (unat (window_len s + of_nat MAX_PKT_BURST))))"
  by (auto simp: expect_win_len_def min_def word_le_nat_alt MAX_WIN_LEN_def)

context worker_env begin

abbreviation "ok \<equiv> wok E contents"

lemma okD:
  assumes "ok s"
  shows "win_inv (in_flight s) s" "unat (to_ack s) < MAX_WIN_LEN" "unat (to_send s) < MAX_WIN_LEN" "pb_ok (pbuf s)"
    "unat (window_len s) = in_flight s" "in_flight s < MAX_WIN_LEN" "window_tx_empty s \<longleftrightarrow> in_flight s = 0"
    "ring_add (unat (to_ack s)) (in_flight s) = unat (to_send s)"
  using assms unat_window_len[of s]
  by (auto simp: wok_def winv_def window_tx_empty_def word_unat_eq_iff)

lemma expect_bound:
  assumes "ok s"
  shows "unat (expect_win_len s) < MAX_WIN_LEN"
    "unat (expect_win_len s) = min (MAX_WIN_LEN - 1) (min (unat (current_switch_window_limit s))
     (min (unat (cwnd_trunc (cc s))) (in_flight s + MAX_PKT_BURST)))"
proof -
  have "unat (window_len s + of_nat MAX_PKT_BURST) = in_flight s + MAX_PKT_BURST"
    using okD(5,6)[OF assms] by (subst unat_add_small) (simp_all add: const_defs)
  then show "unat (expect_win_len s) = min (MAX_WIN_LEN - 1) (min (unat (current_switch_window_limit s))
     (min (unat (cwnd_trunc (cc s))) (in_flight s + MAX_PKT_BURST)))"
    by (simp add: unat_expect_win_len)
  then show "unat (expect_win_len s) < MAX_WIN_LEN" by (simp add: MAX_WIN_LEN_def)
qed

lemma shift_send_effect:
  assumes ret: "shift_send E s = Some s'" and ok: "ok s"
    and agg: "\<forall>a\<in>set (work s). sub_agg_len (sub_at E a) \<noteq> 0" and grp: "one_group (in_flight s) s"
  shows "\<exists>new. ok s' \<and> window s' = window s @ new \<and> todo s = map seg_of new @ todo s' \<and> (\<forall>x\<in>set new. \<not> acked x)
    \<and> (\<exists>es. emitted s s' es \<and> map (unat \<circ> fst) es = positions (unat (to_ack s)) (in_flight s) (length new)
          \<and> map snd es = map ps_pkt new)
    \<and> in_flight s' = in_flight s + length new
    \<and> in_flight s' \<le> max (in_flight s) (unat (expect_win_len s))
    \<and> (in_flight s' < unat (expect_win_len s) \<longrightarrow> cur_sub s' = None
         \<and> (work s' = [] \<or> current_group_id s' \<noteq> sub_group E (hd (work s')) \<and> in_flight s \<noteq> 0))
    \<and> to_ack s' = to_ack s \<and> shm s' = shm s \<and> cq (wqp s') = cq (wqp s) \<and> cc s' = cc s
    \<and> global_ts s' = global_ts s \<and> ack_cnt s' = ack_cnt s \<and> set (work s') \<subseteq> set (work s)"
proof -
  note D = okD[OF ok]
  from ret obtain t len s1 where l: "shift_send_loop E (expect_win_len s) (to_send s) (window_len s) s = Some (t, len, s1)"
    by (auto simp: shift_send_def Let_def split: bind_splits)
  define s2 where "s2 = (if cwnd_trunc (cc s1) \<le> len then s1\<lparr>cwnd_achieved := True\<rparr> else s1)\<lparr>to_send := t\<rparr>"
  have s': "s' = s2\<lparr>right_psn := (if window_tx_empty s2 then 0
       else get_psn (ps_pkt (slot s2 (get_prev_position (to_send s2)))))\<rparr>"
    using ret by (simp only: shift_send_def l Option.bind.simps prod.case Let_def s2_def[symmetric] option.inject)
  have left: "0 < in_flight s \<longrightarrow> left_psn s = ps_psn (slots s (unat (to_ack s)) (in_flight s) ! 0)"
    using ok by (simp add: wok_def)
  from loop_effect[OF l D(1) D(5) D(8)[symmetric] expect_bound(1)[OF ok] agg grp D(4) left]
  obtain new where new: "burst s (in_flight s) s1 new" "unat len = in_flight s + length new"
    "unat t = ring_add (unat (to_ack s)) (in_flight s + length new)"
    "unat len \<le> max (in_flight s) (unat (expect_win_len s))"
    "unat len < unat (expect_win_len s) \<longrightarrow> cur_sub s1 = None
      \<and> (work s1 = [] \<or> current_group_id s1 \<noteq> sub_group E (hd (work s1)) \<and> \<not> window_tx_empty s1)"
    by blast
  let ?a = "unat (to_ack s)" and ?n = "in_flight s + length new"
  have B: "win_inv ?n s1" "slots s1 ?a ?n = window s @ new" "todo s = map seg_of new @ todo s1" "\<forall>x\<in>set new. \<not> acked x"
    "send_frame s s1" "0 < ?n \<longrightarrow> left_psn s1 = ps_psn (slots s1 ?a ?n ! 0)"
    "\<exists>es. emitted s s1 es \<and> map (unat \<circ> fst) es = positions ?a (in_flight s) (length new) \<and> map snd es = map ps_pkt new"
    using new(1) by (simp_all add: burst_def Let_def)
  have fr: "to_ack s1 = to_ack s" "shm s1 = shm s" "cc s1 = cc s" "global_ts s1 = global_ts s" "ack_cnt s1 = ack_cnt s"
    "cq (wqp s1) = cq (wqp s)" "to_send s1 = to_send s"
    using B(5) by (simp_all add: send_frame_def)
  have n: "?n < MAX_WIN_LEN" using B(1) by (simp add: winv_def)
  have fl: "in_flight s' = ?n" using new(3) n D(2) fr by (simp add: s' s2_def)
  have sl: "slots s' ?a ?n = window s @ new" using B(2) by (simp add: s' s2_def slots_def)
  have core: "same_core s1 s'" by (simp add: s' s2_def same_core_def)
  have inv': "win_inv ?n s'" using B(1) same_core_invariants(1)[OF core] by simp
  have td: "todo s' = todo s1" using same_core_invariants(2)[OF core] by simp
  have ta: "to_ack s' = to_ack s" using fr by (simp add: s' s2_def)
  have right: "right_psn s' = ps_psn (slots s' ?a ?n ! (?n - 1))" if "0 < ?n"
  proof -
    have "in_flight s2 = ?n" using fl by (simp add: s')
    then have ne: "\<not> window_tx_empty s2"
      using that D(2) ta by (auto simp: window_tx_empty_def s')
    have "unat (get_prev_position t) = ring_add ?a (?n + (MAX_WIN_LEN - 1))"
      using unat_prev[of t] new(3) by simp
    also have "?n + (MAX_WIN_LEN - 1) = (?n - 1) + MAX_WIN_LEN" using that by (simp add: MAX_WIN_LEN_def)
    also have "ring_add ?a ((?n - 1) + MAX_WIN_LEN) = ring_add ?a (?n - 1)"
      by (simp add: ring_add_def add.assoc[symmetric])
    finally have "slot s2 (get_prev_position (to_send s2)) = slots s' ?a ?n ! (?n - 1)"
      using that by (simp add: s' s2_def slots_nth)
    moreover have "get_psn (ps_pkt (slots s' ?a ?n ! (?n - 1))) = ps_psn (slots s' ?a ?n ! (?n - 1))"
      using inv' ta that nth_mem[of "?n - 1" "slots s' ?a ?n"] by (simp add: winv_def)
    ultimately show ?thesis using ne by (simp add: s')
  qed
  have left': "left_psn s' = ps_psn (slots s' ?a ?n ! 0)" if "0 < ?n"
  proof -
    have "left_psn s' = left_psn s1" by (simp add: s' s2_def)
    then show ?thesis using B(6) that sl B(2) by metis
  qed
  have cwa: "cwnd (cc s') < 1024" if "cwnd_achieved s'"
  proof (cases "cwnd_trunc (cc s1) \<le> len")
    case True
    then have "unat (cwnd_trunc (cc s)) \<le> unat len" by (simp add: word_le_nat_alt fr)
    then have "nat \<lfloor>cwnd (cc s)\<rfloor> < 1024"
      using cwnd_trunc_bounds(1)[of "cc s"] ok new(2) n by (simp add: wok_def MAX_WIN_LEN_def)
    then have "\<lfloor>cwnd (cc s)\<rfloor> < 1024" by linarith
    then have "cwnd (cc s) < 1024" by (simp add: floor_less_iff)
    then show ?thesis using fr by (simp add: s' s2_def)
  next
    case False
    then have "cwnd_achieved s" using that B(5) by (simp add: s' s2_def send_frame_def)
    then show ?thesis using ok fr by (simp add: wok_def s' s2_def)
  qed
  from B(7) obtain es where es: "emitted s s1 es" "map (unat \<circ> fst) es = positions ?a (in_flight s) (length new)"
    "map snd es = map ps_pkt new" by blast
  have em: "emitted s s' es" using es(1) by (rule emits_cong) (simp_all add: s' s2_def)
  have cc': "cc s' = cc s" using fr by (simp add: s' s2_def)
  have ts: "unat (to_send s') < MAX_WIN_LEN" using new(3) by (simp add: s' s2_def)
  have pb': "pb_ok (pbuf s')" using em by (simp add: emits_def)
  have fl': "ring_dist (unat (to_ack s)) (unat (to_send s')) = ?n" using fl ta by simp
  have "cc_ok (cc s)" using ok by (simp add: wok_def)
  then have "ok s'"
    unfolding wok_def ta fl' using inv' left' right ts pb' cwa by (simp add: cc')
  moreover have "window s' = window s @ new" using sl fl ta by simp
  moreover have "in_flight s' < unat (expect_win_len s) \<longrightarrow> cur_sub s' = None
         \<and> (work s' = [] \<or> current_group_id s' \<noteq> sub_group E (hd (work s')) \<and> in_flight s \<noteq> 0)"
  proof -
    have "window_tx_empty s1 = window_tx_empty s" using fr by (simp add: window_tx_empty_def)
    then show ?thesis using new(2,5) fl D(7) by (auto simp: s' s2_def)
  qed
  moreover have "in_flight s' \<le> max (in_flight s) (unat (expect_win_len s))" using new(2,4) fl by simp
  moreover have "shm s' = shm s" "cq (wqp s') = cq (wqp s)" "global_ts s' = global_ts s" "ack_cnt s' = ack_cnt s"
    using fr by (simp_all add: s' s2_def)
  moreover have "set (work s') \<subseteq> set (work s)" using new(1) by (simp add: burst_def Let_def s' s2_def)
  ultimately show ?thesis using B(3,4) em es(2,3) fl ta td cc' by metis
qed

end

end
