(* ===== verification/WorkerAck.thy ===== *)
theory WorkerAck
  imports WorkerSend
begin

text \<open>
  Sliding the window past its acknowledged packets (\<open>shift_ack\<close>), and finding the slot an answer is
  for (\<open>get_position\<close>).
\<close>

subsection \<open>Sliding the window past what is acknowledged\<close>

lemma slots_Cons:
  "a < MAX_WIN_LEN \<Longrightarrow> slots s a (Suc n) = win s ! a # slots s (ring_add a 1) n"
  by (simp add: slots_def upt_conv_Cons map_Suc_upt[symmetric] comp_def del: upt_Suc)

lemma slots_drop: "k \<le> n \<Longrightarrow> drop k (slots s a n) = slots s (ring_add a k) (n - k)"
  by (rule nth_equalityI) (simp_all add: slots_nth)

lemma slots_update [simp]: "slots (s\<lparr>to_ack := x\<rparr>) = slots s" "slots (s\<lparr>wqp := q\<rparr>) = slots s"
  "slots (s\<lparr>stats := st\<rparr>) = slots s" "slots (s\<lparr>left_psn := p\<rparr>) = slots s"
  by (simp_all add: slots_def fun_eq_iff)

lemma slots_take: "k \<le> n \<Longrightarrow> take k (slots s a n) = slots s a k"
  by (rule nth_equalityI) (simp_all add: slots_nth)

context worker_env begin

lemma win_inv_tail:
  assumes "win_inv (Suc n) (s\<lparr>to_ack := a\<rparr>)" "unat a' = ring_add (unat a) 1"
    and "sq.ok (length (filter is_last (slots s (ring_add (unat a) 1) n))) q" "contents (wq q) = contents (wq (wqp s))"
  shows "win_inv n (s\<lparr>wqp := q, stats := st, to_ack := a'\<rparr>)"
proof -
  have a: "unat a < MAX_WIN_LEN" using assms(1) by (simp add: winv_def)
  have sl: "slots s (unat a) (Suc n) = win s ! unat a # slots s (ring_add (unat a) 1) n"
    using a by (rule slots_Cons)
  have "ps_psn (slots s (ring_add (unat a) 1) n ! i) + of_nat (n - i) = next_psn (s\<lparr>to_ack := a\<rparr>)" if "i < n" for i
  proof -
    have "\<forall>i<Suc n. ps_psn (slots s (unat a) (Suc n) ! i) + of_nat (Suc n - i) = next_psn (s\<lparr>to_ack := a\<rparr>)"
      using assms(1) by (simp add: winv_def del: of_nat_diff)
    from this[rule_format, of "Suc i"] that
    show ?thesis by (simp add: sl del: of_nat_diff)
  qed
  moreover have "next_psn (s\<lparr>wqp := q, stats := st, to_ack := a'\<rparr>) = next_psn (s\<lparr>to_ack := a\<rparr>)"
    by (simp add: next_psn_def split: option.splits)
  ultimately show ?thesis
    using assms sl by (auto simp: winv_def cur_ok_def)
qed

lemma ack_loop:
  assumes "win_inv n (s\<lparr>to_ack := a\<rparr>)" "n = ring_dist (unat a) (unat (to_send s))" "unat (to_send s) < MAX_WIN_LEN"
  shows "\<exists>a' s'. shift_ack_loop E a s = Some (a', s')
    \<and> (let k = length (takeWhile acked (slots s (unat a) n)) in
         unat a' = ring_add (unat a) k \<and> win_inv (n - k) (s'\<lparr>to_ack := a'\<rparr>)
       \<and> sq.answers (wqp s') = sq.answers (wqp s) @ map ps_sub_op (filter is_last (take k (slots s (unat a) n))))
    \<and> s' = s\<lparr>wqp := wqp s', stats := stats s'\<rparr> \<and> wq (wqp s') = wq (wqp s)"
  using assms
proof (induction n arbitrary: a s)
  case 0
  then have "unat a < MAX_WIN_LEN" by (simp add: winv_def)
  with 0 have "a = to_send s" by (simp add: word_unat_eq_iff)
  then have "shift_ack_loop E a s = Some (a, s)" by (simp add: shift_ack_loop.simps[of E])
  with 0 \<open>unat a < MAX_WIN_LEN\<close> show ?case
    by (intro exI[of _ a] exI[of _ s]) simp
next
  case (Suc n)
  have a: "unat a < MAX_WIN_LEN" using Suc.prems(1) by (simp add: winv_def)
  have ne: "a \<noteq> to_send s" using Suc.prems(2) by auto
  note sl = slots_Cons[OF a, of s n]
  show ?case
  proof (cases "has_acked s a")
    case False
    then have "shift_ack_loop E a s = Some (a, s)" by (simp add: shift_ack_loop.simps[of E])
    with False a Suc.prems(1) sl show ?thesis
      by (intro exI[of _ a] exI[of _ s]) (simp add: has_acked_def)
  next
    case True
    let ?a1 = "get_next_position a" and ?st = "slot s a"
    have a1: "unat ?a1 = ring_add (unat a) 1" using a by (rule unat_next)
    let ?m = "length (filter is_last (slots s (ring_add (unat a) 1) n))"
    have "sq.ok (length (filter is_last (slots s (unat a) (Suc n)))) (wqp s)"
      using Suc.prems(1) by (simp add: winv_def)
    then have qok: "sq.ok (if is_last ?st then Suc ?m else ?m) (wqp s)" using sl by auto
    obtain q where q: "complete_pkt E ?st s = Some (s\<lparr>wqp := q\<rparr>)" "sq.ok ?m q" "wq q = wq (wqp s)"
      "contents (cq q) = sq.answers (wqp s) @ (if is_last ?st then [ps_sub_op ?st] else [])"
    proof (cases "is_last ?st")
      case True
      with qok have "sq.ok (Suc ?m) (wqp s)" by simp
      then obtain q where "push_resp (sub_q E) (ps_sub_op ?st) (wqp s) = Some (True, q)" "sq.ok ?m q"
        "contents (cq q) = sq.answers (wqp s) @ [ps_sub_op ?st]" "wq q = wq (wqp s)"
        by (rule sq.push_resp_held[of _ _ "ps_sub_op ?st"])
      with True show ?thesis by (intro that[of q]) (simp_all add: complete_pkt_def)
    next
      case False
      with qok have "sq.ok ?m (wqp s)" by simp
      with False show ?thesis by (intro that[of "wqp s"]) (simp_all add: complete_pkt_def)
    qed
    let ?s1 = "s\<lparr>wqp := q, stats := (stats s)\<lparr>shift_ack_cnt := shift_ack_cnt (stats s) + 1\<rparr>\<rparr>"
    have eq: "shift_ack_loop E a s = shift_ack_loop E ?a1 ?s1"
      using ne True q(1) by (subst shift_ack_loop.simps) simp
    have inv1: "win_inv n (?s1\<lparr>to_ack := ?a1\<rparr>)"
      using win_inv_tail[OF Suc.prems(1) a1 q(2)] q(3) by simp
    have n1: "n = ring_dist (unat ?a1) (unat (to_send ?s1))"
    proof -
      have "Suc n < MAX_WIN_LEN" using Suc.prems(1) by (simp add: winv_def)
      moreover have "unat (to_send s) = ring_add (unat ?a1) n"
        using ring_add_dist[OF a Suc.prems(3)] Suc.prems(2) a1 by simp
      ultimately show ?thesis using a1 ring_dist_add[of "unat ?a1" n] by simp
    qed
    from Suc.IH[OF inv1 n1] Suc.prems(3) obtain a' s' where IH: "shift_ack_loop E ?a1 ?s1 = Some (a', s')"
      "let k = length (takeWhile acked (slots ?s1 (unat ?a1) n)) in
         unat a' = ring_add (unat ?a1) k \<and> win_inv (n - k) (s'\<lparr>to_ack := a'\<rparr>)
       \<and> sq.answers (wqp s') = sq.answers (wqp ?s1) @ map ps_sub_op (filter is_last (take k (slots ?s1 (unat ?a1) n)))"
      "s' = ?s1\<lparr>wqp := wqp s', stats := stats s'\<rparr>" "wq (wqp s') = wq (wqp ?s1)"
      by auto
    have "s' = s\<lparr>wqp := wqp s', stats := stats s'\<rparr>" using IH(3) by (cases s; cases s') simp
    with IH(1,2,4) eq q(3,4) sl True a1 show ?thesis
      by (intro exI[of _ a'] exI[of _ s']) (simp add: Let_def has_acked_def)
  qed
qed

end

context worker_env begin

lemma shift_ack_effect:
  assumes ok: "ok s"
  shows "\<exists>s'. shift_ack E s = Some s' \<and> ok s' \<and> window s' = dropWhile acked (window s)
    \<and> sq.answers (wqp s') = sq.answers (wqp s) @ map ps_sub_op (filter is_last (takeWhile acked (window s)))
    \<and> wq (wqp s') = wq (wqp s) \<and> todo s' = todo s
    \<and> s' = s\<lparr>wqp := wqp s', stats := stats s', to_ack := to_ack s', left_psn := left_psn s'\<rparr>"
proof -
  note D = okD[OF ok]
  let ?n = "in_flight s" and ?w = "window s"
  define k where "k = length (takeWhile acked ?w)"
  have kn: "k \<le> ?n" using takeWhile_length_le[of acked ?w] by (simp add: k_def)
  have "win_inv ?n (s\<lparr>to_ack := to_ack s\<rparr>)" using D(1) by simp
  from ack_loop[OF this refl D(3)] obtain a s1 where l: "shift_ack_loop E (to_ack s) s = Some (a, s1)"
    "unat a = ring_add (unat (to_ack s)) k" "win_inv (?n - k) (s1\<lparr>to_ack := a\<rparr>)"
    "sq.answers (wqp s1) = sq.answers (wqp s) @ map ps_sub_op (filter is_last (take k ?w))"
    "s1 = s\<lparr>wqp := wqp s1, stats := stats s1\<rparr>" "wq (wqp s1) = wq (wqp s)"
    by (auto simp: k_def Let_def)
  define s2 where "s2 = s1\<lparr>to_ack := a\<rparr>"
  define s' where "s' = s2\<lparr>left_psn := (if window_tx_empty s2 then 0 else get_psn (ps_pkt (slot s2 a)))\<rparr>"
  have ret: "shift_ack E s = Some s'"
    using l(1) by (simp add: shift_ack_def s2_def s'_def Let_def)
  have s': "s' = s\<lparr>wqp := wqp s', stats := stats s', to_ack := to_ack s', left_psn := left_psn s'\<rparr>"
    using l(5) by (simp add: s'_def s2_def)
  have f1: "win s1 = win s" "to_send s1 = to_send s" "pbuf s1 = pbuf s" "cc s1 = cc s" "cwnd_achieved s1 = cwnd_achieved s"
    "right_psn s1 = right_psn s" "cur_sub s1 = cur_sub s" "pkt_sent s1 = pkt_sent s"
    by (subst l(5), simp)+
  have fl: "in_flight s' = ?n - k"
  proof -
    have "unat (to_send s) = ring_add (unat a) (?n - k)"
      using D(8) l(2) kn by simp
    moreover have "?n - k < MAX_WIN_LEN" "unat a < MAX_WIN_LEN" using D(6) l(2) by (linarith, simp)
    ultimately have "ring_dist (unat a) (unat (to_send s)) = ?n - k" by (metis ring_dist_add)
    then show ?thesis using f1 by (simp add: s'_def s2_def)
  qed
  have w: "window s' = drop k ?w"
    using slots_drop[OF kn, of s "unat (to_ack s)"] fl l(2) f1
    by (simp add: s'_def s2_def slots_def)
  have inv: "win_inv (in_flight s') s'"
    using l(3) fl same_core_invariants(1)[of s2 s'] by (simp add: s'_def s2_def same_core_def)
  have left: "left_psn s' = ps_psn (window s' ! 0)" if "0 < in_flight s'"
  proof -
    have ne: "\<not> window_tx_empty s2" using that fl D(3) f1 l(2)
      by (auto simp: window_tx_empty_def s'_def s2_def)
    have "slot s2 a = window s' ! 0" using that l(2) by (simp add: slots_nth s'_def s2_def)
    moreover have "get_psn (ps_pkt (window s' ! 0)) = ps_psn (window s' ! 0)"
      using inv that nth_mem[of 0 "window s'"] by (simp add: winv_def)
    ultimately show ?thesis using ne by (simp add: s'_def)
  qed
  have right: "right_psn s' = ps_psn (window s' ! (in_flight s' - 1))" if "0 < in_flight s'"
  proof -
    have "0 < ?n" using that fl by simp
    then have "right_psn s = ps_psn (?w ! (?n - 1))" using ok by (simp add: wok_def)
    moreover have "window s' ! (in_flight s' - 1) = ?w ! (?n - 1)"
      using that fl kn unfolding w by simp
    ultimately show ?thesis using f1 by (simp add: s'_def s2_def)
  qed
  have "ok s'"
    unfolding wok_def using inv left right ok f1 by (simp add: wok_def s'_def s2_def)
  moreover have "window s' = dropWhile acked ?w" using w by (simp add: k_def dropWhile_eq_drop)
  moreover have "todo s' = todo s" using l(6) f1 by (simp add: rest_def s'_def s2_def Let_def split: option.split)
  moreover have wq': "wqp s' = wqp s1" by (simp add: s'_def s2_def)
  have "take k ?w = takeWhile acked ?w" by (simp add: k_def takeWhile_eq_take[symmetric])
  then have "sq.answers (wqp s') = sq.answers (wqp s) @ map ps_sub_op (filter is_last (takeWhile acked ?w))"
    using l(4) wq' by simp
  moreover have "wq (wqp s') = wq (wqp s)" using l(6) wq' by simp
  ultimately show ?thesis using ret s' by blast
qed

subsection \<open>Finding the slot of an answer\<close>

lemma window_psn:
  assumes "ok s" "i < in_flight s"
  shows "ps_psn (window s ! i) = left_psn s + of_nat i" "right_psn s = left_psn s + of_nat (in_flight s - 1)"
proof -
  let ?n = "in_flight s"
  have all: "\<forall>i<?n. ps_psn (window s ! i) + of_nat (?n - i) = next_psn s"
    using okD(1)[OF assms(1)] by (simp add: winv_def del: of_nat_diff)
  have e: "left_psn s = ps_psn (window s ! 0)" "right_psn s = ps_psn (window s ! (?n - 1))"
    using assms by (auto simp: wok_def)
  have psn: "ps_psn (window s ! j) = next_psn s - of_nat ?n + of_nat j" if "j < ?n" for j
    using all[rule_format, OF that] that by (simp add: of_nat_diff algebra_simps)
  show "ps_psn (window s ! i) = left_psn s + of_nat i"
    using psn[of 0] psn[OF assms(2)] assms(2) by (simp add: e)
  show "right_psn s = left_psn s + of_nat (?n - 1)"
    using psn[of 0] psn[of "?n - 1"] assms(2) by (simp add: e)
qed

text \<open>\<open>get_position\<close> finds the slot that holds the number, and finds nothing for any other packet.\<close>

lemma get_position_hit:
  assumes ok: "ok s" and i: "i < in_flight s" and g: "get_group_id pkt = current_group_id s"
    and p: "get_psn pkt = ps_psn (window s ! i)"
  shows "unat (get_position pkt s) = ring_add (unat (to_ack s)) i"
proof -
  note D = okD[OF ok]
  let ?a = "unat (to_ack s)"
  have i1: "i < MAX_WIN_LEN" and n: "in_flight s - 1 < MAX_WIN_LEN" using i D(6) by linarith+
  have d: "get_psn pkt - left_psn s = of_nat i" using window_psn(1)[OF ok i] p by simp
  have r: "right_psn s - left_psn s = of_nat (in_flight s - 1)" using window_psn(2)[OF ok i] by simp
  have "in_flight s - 1 < 2 ^ LENGTH(32)" "i < 2 ^ LENGTH(32)" using n i1 unfolding MAX_WIN_LEN_def by simp_all
  note u = unat_of_nat_small[OF this(1)] and ui = unat_of_nat_small[OF this(2)]
  have le: "get_psn pkt - left_psn s \<le> right_psn s - left_psn s"
    unfolding d r word_le_nat_alt u ui using i by linarith
  have pos: "unat (of_nat i + to_ack s) = i + ?a"
    using i1 D(2) by (subst unat_add_small) (simp_all add: unat_of_nat_small MAX_WIN_LEN_def)
  have ne: "\<not> window_tx_empty s" using D(7) i by simp
  show ?thesis
  proof (cases "MAX_WIN_LEN \<le> i + ?a")
    case True
    then have ge: "of_nat MAX_WIN_LEN \<le> of_nat i + to_ack s"
      using pos by (simp add: word_le_nat_alt MAX_WIN_LEN_def)
    then have "unat (of_nat i + to_ack s - of_nat MAX_WIN_LEN) = i + ?a - MAX_WIN_LEN"
      using pos by (simp add: unat_sub MAX_WIN_LEN_def)
    with ge True i1 D(2) show ?thesis
      by (simp add: get_position_def ne g le[simplified d] d Let_def ring_add_def mod_if add.commute)
  next
    case False
    then have "\<not> of_nat MAX_WIN_LEN \<le> of_nat i + to_ack s"
      using pos by (simp add: word_le_nat_alt MAX_WIN_LEN_def)
    with False pos show ?thesis
      by (simp add: get_position_def ne g le[simplified d] d Let_def ring_add_def add.commute)
  qed
qed

lemma get_position_miss:
  assumes ok: "ok s" and miss: "get_group_id pkt \<noteq> current_group_id s \<or> (\<forall>i<in_flight s. get_psn pkt \<noteq> ps_psn (window s ! i))"
  shows "get_position pkt s = INVALID_POSITION"
proof (cases "window_tx_empty s \<or> current_group_id s \<noteq> get_group_id pkt")
  case True
  then show ?thesis by (simp add: get_position_def)
next
  case False
  note D = okD[OF ok]
  let ?d = "unat (get_psn pkt - left_psn s)"
  have n: "0 < in_flight s" using False D(7) by simp
  have r: "right_psn s - left_psn s = of_nat (in_flight s - 1)" using window_psn(2)[OF ok n] by simp
  have "in_flight s - 1 < 2 ^ LENGTH(32)" using D(6) unfolding MAX_WIN_LEN_def by simp
  note u = unat_of_nat_small[OF this]
  have "\<not> ?d < in_flight s"
  proof
    assume d: "?d < in_flight s"
    have "get_psn pkt = left_psn s + of_nat ?d" by simp
    with window_psn(1)[OF ok d] miss d False show False by metis
  qed
  then have "\<not> get_psn pkt - left_psn s \<le> right_psn s - left_psn s"
    unfolding r word_le_nat_alt u using n by linarith
  with False show ?thesis by (simp add: get_position_def)
qed

lemma position_valid: "unat p < MAX_WIN_LEN \<Longrightarrow> p \<noteq> INVALID_POSITION"
  by (auto simp: INVALID_POSITION_def MAX_WIN_LEN_def unsigned_minus_1_eq_mask mask_eq_exp_minus_1)

end

end
