(* ===== verification/WorkerRecv.thy ===== *)
theory WorkerRecv
  imports WorkerAck
begin

text \<open>
  Taking answers: the fast retransmission and \<open>rx_process_one\<close>.
\<close>

subsection \<open>Retransmissions\<close>

lemma emits_loopback: "emits sent delivered s s' es \<Longrightarrow> PACKET_LOOPBACK s' = PACKET_LOOPBACK s"
  by (simp add: emits_def)

text \<open>The unacknowledged run that ends just before the \<open>i\<close>-th packet of the window.\<close>

definition lost_run :: "('q, 'n) worker \<Rightarrow> nat \<Rightarrow> nat" where
  "lost_run s i = length (takeWhile (Not \<circ> acked) (rev (take i (window s))))"

context worker_env begin

lemma transmit_range_effect:
  assumes "transmit_range E b e s = Some s'" "unat b = ring_add a j" "unat e = ring_add a (j + m)"
    "m < MAX_WIN_LEN" "a < MAX_WIN_LEN" "pb_ok (pbuf s)"
  shows "\<exists>es. emitted s s' es \<and> map (unat \<circ> fst) es = positions a j m
      \<and> map snd es = map ps_pkt (slots s (ring_add a j) m) \<and> same_window s s' \<and> send_frame s s'
      \<and> left_psn s' = left_psn s \<and> right_psn s' = right_psn s"
  using assms
proof (induction m arbitrary: b j s)
  case 0
  then have "b = e" by (simp add: word_unat_eq_iff)
  with 0 have "s' = s" by (simp add: transmit_range.simps[of E])
  with 0 show ?case
    by (intro exI[of _ "[]"]) (simp add: emits_Nil positions_def same_window_def same_core_def send_frame_def)
next
  case (Suc m)
  have "b \<noteq> e"
  proof
    assume "b = e"
    then have eq: "ring_add a j = ring_add a (j + Suc m)" using Suc.prems(2,3) by simp
    have "ring_add (ring_add a j) 0 = ring_add a j" by simp
    also note eq
    also have "ring_add a (j + Suc m) = ring_add (ring_add a j) (Suc m)" by simp
    finally have "ring_add (ring_add a j) 0 = ring_add (ring_add a j) (Suc m)" .
    from ring_add_inj[OF _ Suc.prems(4) this] show False by (simp add: MAX_WIN_LEN_def)
  qed
  with Suc.prems(1) obtain s1 where s1: "transmit E b s = Some s1" "transmit_range E (get_next_position b) e s1 = Some s'"
    by (auto simp: transmit_range.simps[of E] split: bind_splits)
  note T = transmit_effect[OF s1(1) Suc.prems(6)]
  have b: "unat b < MAX_WIN_LEN" using Suc.prems(2) by simp
  have nx: "unat (get_next_position b) = ring_add a (Suc j)" using unat_next[OF b] Suc.prems(2) by simp
  have "pb_ok (pbuf s1)" using T by (simp add: emits_def)
  note pb1 = this
  have e': "unat e = ring_add a (Suc j + m)" "m < MAX_WIN_LEN" using Suc.prems(3,4) by simp_all
  from Suc.IH[OF s1(2) nx e' Suc.prems(5) pb1] obtain es where
    es: "emitted s1 s' es" "map (unat \<circ> fst) es = positions a (Suc j) m"
      "map snd es = map ps_pkt (slots s1 (ring_add a (Suc j)) m)" "same_window s1 s'" "send_frame s1 s'"
      "left_psn s' = left_psn s1" "right_psn s' = right_psn s1"
    by blast
  have "slots s (ring_add a j) (Suc m) = slot s b # slots s1 (ring_add a (Suc j)) m"
    using slots_Cons[of "ring_add a j" s m] Suc.prems(2) T same_window_invariants(3)[of s s1] by simp
  then show ?case
    using es T Suc.prems(2) emits_append[of sent delivered s s1 "[(b, ps_pkt (slot s b))]" s' es]
      same_window_trans[of s s1 s'] send_frame_trans[of s s1 s']
    by (intro exI[of _ "(b, ps_pkt (slot s b)) # es"]) (simp add: positions_Suc comp_def)
qed

lemma retrans_start_effect:
  assumes "ok s" "i < in_flight s" "unat p = ring_add (unat (to_ack s)) i"
  shows "\<exists>q c'. retrans_start s p c = Some (q, c') \<and> unat q = ring_add (unat (to_ack s)) (i - lost_run s i)
    \<and> lost_run s i \<le> i"
  using assms(2,3)
proof (induction i arbitrary: p c)
  case 0
  then have "p = to_ack s" using okD(2)[OF assms(1)] by (simp add: word_unat_eq_iff)
  with 0 show ?case by (simp add: retrans_start.simps[of s] lost_run_def)
next
  case (Suc i)
  note D = okD[OF assms(1)]
  have lt: "Suc i < MAX_WIN_LEN" using Suc.prems(1) D(6) by linarith
  have ne: "p \<noteq> to_ack s"
    using Suc.prems(2) ring_dist_add[OF D(2) lt] by auto
  have p: "unat p < MAX_WIN_LEN" using Suc.prems(2) by simp
  have "unat (get_prev_position p) = ring_add (unat (to_ack s)) (Suc i + (MAX_WIN_LEN - 1))"
    using unat_prev[OF p] Suc.prems(2) by simp
  also have "Suc i + (MAX_WIN_LEN - 1) = i + MAX_WIN_LEN" by (simp add: MAX_WIN_LEN_def)
  also have "ring_add (unat (to_ack s)) (i + MAX_WIN_LEN) = ring_add (unat (to_ack s)) i"
    by (simp add: ring_add_def add.assoc[symmetric])
  finally have prev: "unat (get_prev_position p) = ring_add (unat (to_ack s)) i" .
  have i: "i < in_flight s" using Suc.prems(1) by simp
  then have sl: "slot s (get_prev_position p) = window s ! i" by (simp add: prev slots_nth)
  have tk: "take (Suc i) (window s) = take i (window s) @ [window s ! i]"
    using i by (simp add: take_Suc_conv_app_nth)
  show ?case
  proof (cases "acked (window s ! i)")
    case True
    with ne sl Suc.prems show ?thesis
      by (simp add: retrans_start.simps[of s] has_acked_def lost_run_def tk)
  next
    case False
    then have "retrans_start s p c = retrans_start s (get_prev_position p) (c + 1)"
      using ne sl by (subst retrans_start.simps) (simp add: has_acked_def)
    moreover have "lost_run s (Suc i) = Suc (lost_run s i)" using False tk by (simp add: lost_run_def)
    ultimately show ?thesis using Suc.IH[OF i prev, of "c + 1"] by auto
  qed
qed

end

subsection \<open>Taking one answer\<close>

text \<open>Changes of the state that leave the invariant alone.\<close>

definition same_ok :: "('q, 'n) worker \<Rightarrow> ('q, 'n) worker \<Rightarrow> bool" where
  "same_ok s s' \<longleftrightarrow> same_window s s' \<and> left_psn s' = left_psn s \<and> right_psn s' = right_psn s
     \<and> cc s' = cc s \<and> cwnd_achieved s' = cwnd_achieved s"

text \<open>The slot an answer is for: its position in the window, if it is one the window waits for.\<close>

definition answer_for :: "('q, 'n) worker \<Rightarrow> mbuf \<Rightarrow> nat \<Rightarrow> bool" where
  "answer_for s pkt i \<longleftrightarrow> i < in_flight s \<and> get_group_id pkt = current_group_id s
     \<and> get_psn pkt = ps_psn (window s ! i) \<and> \<not> acked (window s ! i)"

context worker_env begin

lemma mark_acked_window:
  assumes ok: "ok s" and i: "i < in_flight s" and p: "unat p = ring_add (unat (to_ack s)) i"
  shows "window (mark_acked p s) = (window s)[i := (window s ! i)\<lparr>acked := True\<rparr>]" "ok (mark_acked p s)"
    "slot (mark_acked p s) p = (window s ! i)\<lparr>acked := True\<rparr>"
proof -
  note D = okD[OF ok]
  let ?s = "mark_acked p s"
  have len: "length (win s) = MAX_WIN_LEN" using D(1) by (simp add: winv_def)
  have wi: "window s ! i = slot s p" using i p by (simp add: slots_nth)
  have io: "to_ack ?s = to_ack s" "to_send ?s = to_send s" by (simp_all add: mark_acked_def set_slot_def)
  show sp: "slot ?s p = (window s ! i)\<lparr>acked := True\<rparr>"
    using len p wi by (simp add: mark_acked_def set_slot_def)
  have "window ?s ! j = ((window s)[i := (window s ! i)\<lparr>acked := True\<rparr>]) ! j" if "j < in_flight s" for j
  proof (cases "j = i")
    case True
    then show ?thesis using i sp p io by (simp add: slots_nth)
  next
    case False
    then have "ring_add (unat (to_ack s)) j \<noteq> ring_add (unat (to_ack s)) i"
      using ring_add_inj[of j i "unat (to_ack s)"] that i D(6) by auto
    then show ?thesis using that False p
      by (simp add: slots_nth mark_acked_def set_slot_def)
  qed
  then show w: "window ?s = (window s)[i := (window s ! i)\<lparr>acked := True\<rparr>]"
    by (intro nth_equalityI) (simp_all add: io)
  let ?f = "\<lambda>x :: pkt_state_t. x\<lparr>acked := False\<rparr>"
  have erase: "map ?f (window ?s) = map ?f (window s)"
    using i by (auto simp: w map_update intro!: nth_equalityI simp: nth_list_update)
  have nth: "?f (window ?s ! j) = ?f (window s ! j)" if "j < in_flight s" for j
    using arg_cong[OF erase, of "\<lambda>xs. xs ! j"] that by (simp add: io)
  have same: "ps_psn (window ?s ! j) = ps_psn (window s ! j)" if "j < in_flight s" for j
    using arg_cong[OF nth[OF that], of ps_psn] by simp
  have fil: "map (is_last \<circ> ?f) (window ?s) = map (is_last \<circ> ?f) (window s)"
    using arg_cong[OF erase, of "map is_last"] by simp
  have "length (filter is_last xs) = length (filter id (map (is_last \<circ> ?f) xs))" for xs
    by (induction xs) simp_all
  with fil have lasts: "length (filter is_last (window ?s)) = length (filter is_last (window s))" by metis
  have all: "get_psn (ps_pkt x) = ps_psn x \<and> get_group_id (ps_pkt x) = current_group_id s" if x: "x \<in> set (window ?s)" for x
  proof -
    obtain j where j: "j < in_flight s" "x = window ?s ! j" using x by (auto simp: in_set_conv_nth io)
    have "get_psn (ps_pkt (window s ! j)) = ps_psn (window s ! j) \<and> get_group_id (ps_pkt (window s ! j)) = current_group_id s"
      using D(1) j nth_mem[of j "window s"] by (simp add: winv_def)
    then show ?thesis
      using arg_cong[OF nth[OF j(1)], of ps_psn] arg_cong[OF nth[OF j(1)], of ps_pkt] j(2) by simp
  qed
  have np: "next_psn ?s = next_psn s" "cur_ok E contents ?s = cur_ok E contents s"
    by (simp_all add: next_psn_def cur_ok_def mark_acked_def set_slot_def split: option.split)
  have oth: "wqp ?s = wqp s" "length (win ?s) = length (win s)" "current_group_id ?s = current_group_id s"
    "pbuf ?s = pbuf s" "left_psn ?s = left_psn s" "right_psn ?s = right_psn s" "cc ?s = cc s" "cwnd_achieved ?s = cwnd_achieved s"
    by (simp_all add: mark_acked_def set_slot_def)
  have "win_inv (in_flight s) ?s"
    using D(1) all same lasts np oth io by (simp add: winv_def del: of_nat_diff)
  then show "ok ?s"
    using ok same oth io by (simp add: wok_def)
qed

lemma same_ok_ok:
  assumes "same_ok s s'" "pb_ok (pbuf s')"
  shows "ok s \<Longrightarrow> ok s'" "window s' = window s" "todo s' = todo s"
  using assms same_window_invariants[of s s']
  by (auto simp: same_ok_def wok_def same_window_def same_core_def)

abbreviation "op_of st \<equiv> op_at E (sub_op (sub_at E (ps_sub_op st)))"

lemma lost_run_0:
  assumes "ok s" "i < in_flight s" "unat p = ring_add (unat (to_ack s)) i"
    "p = to_ack s \<or> has_acked s (get_prev_position p)"
  shows "lost_run s i = 0"
proof -
  obtain q c where q: "retrans_start s p 0 = Some (q, c)" "unat q = ring_add (unat (to_ack s)) (i - lost_run s i)"
    "lost_run s i \<le> i" using retrans_start_effect[OF assms(1-3)] by blast
  have "retrans_start s p 0 = Some (p, 0)" using assms(4) by (auto simp: retrans_start.simps[of s p])
  with q assms(3) have eq: "ring_add (unat (to_ack s)) i = ring_add (unat (to_ack s)) (i - lost_run s i)" by simp
  have lt: "i < MAX_WIN_LEN" "i - lost_run s i < MAX_WIN_LEN" using assms(2) okD(6)[OF assms(1)] by linarith+
  show ?thesis using ring_add_inj[OF lt eq] q(3) by linarith
qed

lemma lost_run_le: "lost_run s i \<le> i"
  using takeWhile_length_le[of "Not \<circ> acked" "rev (take i (window s))"] by (simp add: lost_run_def)

lemma collect_effect:
  assumes ok: "ok s" and i: "i < in_flight s" and p: "unat p = ring_add (unat (to_ack s)) i"
    and ret: "collect_retrans E p s = Some s'"
  shows "same_ok s s'" "shm s' = shm s" "ack_cnt s' = ack_cnt s"
    "\<exists>es. emitted s s' es \<and> map (unat \<circ> fst) es = positions (unat (to_ack s)) (i - lost_run s i) (lost_run s i)
        \<and> map snd es = map ps_pkt (take (lost_run s i) (drop (i - lost_run s i) (window s)))"
proof -
  let ?r = "lost_run s i" and ?a = "unat (to_ack s)"
  obtain q c where q: "retrans_start s p 0 = Some (q, c)" "unat q = ring_add ?a (i - ?r)" "?r \<le> i"
    using retrans_start_effect[OF ok i p] by blast
  let ?s3 = "s\<lparr>stats := (stats s)\<lparr>fast_retrans_pkt_cnt := fast_retrans_pkt_cnt (stats s) + c,
         fast_retrans_trigger_cnt := fast_retrans_trigger_cnt (stats s) + 1\<rparr>, pkt_loss_flag := True\<rparr>"
  have r: "transmit_range E q p ?s3 = Some s'" using ret q(1) by (simp add: collect_retrans_def)
  have e: "unat p = ring_add ?a ((i - ?r) + ?r)" using p q(3) by simp
  have lt: "?r < MAX_WIN_LEN" "?a < MAX_WIN_LEN" "pb_ok (pbuf ?s3)"
    using q(3) i okD(2,4,6)[OF ok] by (linarith, simp_all)
  from transmit_range_effect[OF r q(2) e lt] obtain es where
    es: "emitted ?s3 s' es" "map (unat \<circ> fst) es = positions ?a (i - ?r) ?r"
      "map snd es = map ps_pkt (slots ?s3 (ring_add ?a (i - ?r)) ?r)" "same_window ?s3 s'" "send_frame ?s3 s'"
      "left_psn s' = left_psn ?s3" "right_psn s' = right_psn ?s3" by blast
  have "take ?r (drop (i - ?r) (window s)) = slots s (ring_add ?a (i - ?r)) ?r"
    using i q(3) by (subst slots_drop, simp, subst slots_take, simp_all)
  moreover have "slots ?s3 = slots s" by (simp add: slots_def fun_eq_iff)
  moreover have "emitted s s' es" using es(1) by (rule emits_cong_left) simp_all
  ultimately show "\<exists>es. emitted s s' es \<and> map (unat \<circ> fst) es = positions ?a (i - ?r) ?r
        \<and> map snd es = map ps_pkt (take ?r (drop (i - ?r) (window s)))"
    using es(2,3) by auto
  show "same_ok s s'" "shm s' = shm s" "ack_cnt s' = ack_cnt s"
    using es(4-7) by (simp_all add: same_ok_def same_window_def same_core_def send_frame_def)
qed

lemma emits_refl: "ok s \<Longrightarrow> emitted s s []"
  using okD(4)[of s] by (simp add: emits_def)

lemma rx_one_hit:
  assumes ok: "ok s" and hit: "answer_for s pkt i" and ret: "rx_process_one E pkt s = Some s'"
  shows "ok s' \<and> window s' = (window s)[i := (window s ! i)\<lparr>acked := True\<rparr>]
    \<and> shm s' = (if need_rx (op_of (window s ! i)) then store_payload (op_of (window s ! i)) (window s ! i) pkt (shm s) else shm s)
    \<and> (\<exists>es. emitted s s' es \<and> map (unat \<circ> fst) es = positions (unat (to_ack s)) (i - lost_run s i) (lost_run s i)
        \<and> map snd es = map ps_pkt (take (lost_run s i) (drop (i - lost_run s i) (window s))))
    \<and> todo s' = todo s \<and> wqp s' = wqp s \<and> to_ack s' = to_ack s \<and> to_send s' = to_send s \<and> ack_cnt s' = ack_cnt s + 1"
proof -
  define s0 where "s0 = s\<lparr>tos_minitor := tos_minitor s OR type_of_service (ip pkt)\<rparr>"
  have so0: "same_ok s s0" by (simp add: s0_def same_ok_def same_window_def same_core_def)
  note S0 = same_ok_ok[OF so0] 
  have pb0: "pb_ok (pbuf s0)" using okD(4)[OF ok] by (simp add: s0_def)
  have ok0: "ok s0" using S0(1)[OF pb0 ok] .
  have h: "i < in_flight s0" "get_group_id pkt = current_group_id s0" "get_psn pkt = ps_psn (window s0 ! i)"
    "\<not> acked (window s0 ! i)" "to_ack s0 = to_ack s" "to_send s0 = to_send s"
    using hit S0(2)[OF pb0] by (simp_all add: answer_for_def s0_def)
  define p where "p = get_position pkt s0"
  have p: "unat p = ring_add (unat (to_ack s0)) i"
    unfolding p_def by (rule get_position_hit[OF ok0 h(1-3)])
  have pv: "p \<noteq> INVALID_POSITION" using p by (intro position_valid) simp
  have na: "\<not> has_acked s0 p" using h(1,4) p by (simp add: has_acked_def slots_nth)
  define s1 where "s1 = mark_acked p s0"
  note M = mark_acked_window[OF ok0 h(1) p, folded s1_def]
  define s2 where "s2 = (if need_rx (op_of (slot s1 p))
     then s1\<lparr>shm := store_payload (op_of (slot s1 p)) (slot s1 p) pkt (shm s1)\<rparr> else s1)"
  have so2: "same_ok s1 s2" by (simp add: s2_def same_ok_def same_window_def same_core_def)
  have io1: "pbuf s1 = pbuf s0" "to_ack s1 = to_ack s" "to_send s1 = to_send s" "shm s1 = shm s" "ack_cnt s1 = ack_cnt s + 1"
    "wqp s1 = wqp s" "card_st s1 = card_st s0" "local_queue s1 = local_queue s0" "PACKET_LOOPBACK s1 = PACKET_LOOPBACK s0"
    by (simp_all add: s1_def mark_acked_def set_slot_def s0_def)
  have pb2: "pb_ok (pbuf s2)" using pb0 io1 by (simp add: s2_def)
  note S2 = same_ok_ok[OF so2 pb2]
  have ok2: "ok s2" using S2(1) M(2) by simp
  have io2: "to_ack s2 = to_ack s" "to_send s2 = to_send s" "wqp s2 = wqp s" "ack_cnt s2 = ack_cnt s + 1"
    "pbuf s2 = pbuf s" "card_st s2 = card_st s" "local_queue s2 = local_queue s" "PACKET_LOOPBACK s2 = PACKET_LOOPBACK s"
    using io1 by (simp_all add: s2_def s0_def)
  have w2: "window s2 = (window s)[i := (window s ! i)\<lparr>acked := True\<rparr>]"
    using S2(2) M(1) S0(2)[OF pb0] by simp
  have td2: "todo s2 = todo s"
  proof -
    have "todo s1 = todo s0"
      by (simp add: s1_def rest_def mark_acked_def set_slot_def Let_def split: option.split)
    then show ?thesis using S2(3) S0(3)[OF pb0] by simp
  qed
  have shm2: "shm s2 = (if need_rx (op_of (window s ! i)) then store_payload (op_of (window s ! i)) (window s ! i) pkt (shm s) else shm s)"
    using S0(2)[OF pb0] io1 M(3) by (simp add: s2_def store_payload_def)
  have fl2: "in_flight s2 = in_flight s" using io2 by simp
  have lost: "lost_run s2 i = lost_run s i"
    using w2 by (simp add: lost_run_def)
  have i2: "i < in_flight s2" and p2: "unat p = ring_add (unat (to_ack s2)) i"
    using h(1,5,6) io2 p by simp_all
  have rx: "rx_process_one E pkt s = (if p = to_ack s2 \<or> has_acked s2 (get_prev_position p) then Some s2
      else collect_retrans E p s2)"
    by (simp only: rx_process_one_def Let_def s0_def[symmetric] p_def[symmetric] s1_def[symmetric]
        s2_def[symmetric] pv na if_False)
  show ?thesis
  proof (cases "p = to_ack s2 \<or> has_acked s2 (get_prev_position p)")
    case True
    with rx ret have "s' = s2" by simp
    moreover have "lost_run s i = 0" using lost_run_0[OF ok2 i2 p2 True] lost by simp
    moreover have "emitted s s2 []" using emits_refl[OF ok2] by (rule emits_cong_left) (simp_all add: io2)
    ultimately show ?thesis using ok2 w2 shm2 td2 io2 by (simp add: positions_def)
  next
    case False
    then have c: "collect_retrans E p s2 = Some s'" using rx ret by simp
    note C = collect_effect[OF ok2 i2 p2 c]
    from C(4) obtain es where es: "emitted s2 s' es"
      "map (unat \<circ> fst) es = positions (unat (to_ack s)) (i - lost_run s i) (lost_run s i)"
      "map snd es = map ps_pkt (take (lost_run s i) (drop (i - lost_run s i) (window s2)))"
      using lost io2 by auto
    have "emitted s s' es" using es(1) by (rule emits_cong_left) (simp_all add: io2)
    moreover have "map snd es = map ps_pkt (take (lost_run s i) (drop (i - lost_run s i) (window s)))"
      using es(3) lost_run_le[of s i] by (simp add: w2 drop_update_swap take_update_swap list_update_beyond)
    moreover have "pb_ok (pbuf s')" using es(1) by (simp add: emits_def)
    note S' = same_ok_ok[OF C(1) this]
    moreover have "wqp s' = wqp s2" "to_ack s' = to_ack s2" "to_send s' = to_send s2"
      using C(1) by (simp_all add: same_ok_def same_window_def same_core_def)
    ultimately show ?thesis using es(2) S' ok2 w2 td2 io2 C(2,3) shm2 by auto
  qed
qed

lemma rx_one_miss_eq:
  assumes ok: "ok s" and miss: "\<forall>i. \<not> answer_for s pkt i"
  shows "\<exists>st. rx_process_one E pkt s
    = Some (s\<lparr>tos_minitor := tos_minitor s OR type_of_service (ip pkt), stats := st\<rparr>)"
proof -
  define s0 where "s0 = s\<lparr>tos_minitor := tos_minitor s OR type_of_service (ip pkt)\<rparr>"
  have so0: "same_ok s s0" by (simp add: s0_def same_ok_def same_window_def same_core_def)
  have pb0: "pb_ok (pbuf s0)" using okD(4)[OF ok] by (simp add: s0_def)
  note S0 = same_ok_ok[OF so0 pb0]
  have ok0: "ok s0" using S0(1) ok .
  have "get_position pkt s0 = INVALID_POSITION \<or> has_acked s0 (get_position pkt s0)"
  proof (cases "get_group_id pkt = current_group_id s0 \<and> (\<exists>i<in_flight s0. get_psn pkt = ps_psn (window s0 ! i))")
    case False
    then show ?thesis using get_position_miss[OF ok0] by blast
  next
    case True
    then obtain i where i: "i < in_flight s0" "get_group_id pkt = current_group_id s0" "get_psn pkt = ps_psn (window s0 ! i)"
      by blast
    have "acked (window s0 ! i)"
      using miss i S0(2) by (auto simp: answer_for_def s0_def)
    then show ?thesis using get_position_hit[OF ok0 i] i(1) by (simp add: has_acked_def slots_nth)
  qed
  then show ?thesis by (auto simp: rx_process_one_def Let_def s0_def)
qed

lemma rx_one_miss:
  assumes ok: "ok s" and miss: "\<forall>i. \<not> answer_for s pkt i" and ret: "rx_process_one E pkt s = Some s'"
  shows "same_ok s s' \<and> shm s' = shm s \<and> emitted s s' [] \<and> ack_cnt s' = ack_cnt s"
  using rx_one_miss_eq[OF ok miss] ret okD(4)[OF ok]
  by (auto simp: same_ok_def same_window_def same_core_def emits_def)

end

end
