(* ===== verification/WorkerTurn.thy ===== *)
theory WorkerTurn
  imports WorkerRecv
begin

text \<open>
  The receive loop, the full retransmission, \<open>tx_process\<close>, the congestion control and one whole
  turn of \<open>worker_loop\<close>.
\<close>

subsection \<open>The receive loop\<close>

text \<open>What receiving leaves of the worker: some packets of the window become acknowledged.\<close>

definition rx_rel :: "('q, 'n) worker \<Rightarrow> ('q, 'n) worker \<Rightarrow> bool" where
  "rx_rel s s' \<longleftrightarrow> wqp s' = wqp s \<and> to_ack s' = to_ack s \<and> to_send s' = to_send s
     \<and> list_all2 (\<lambda>x y. seg_of y = seg_of x \<and> (acked x \<longrightarrow> acked y)) (window s) (window s')"

lemma rx_rel_refl: "rx_rel s s"
  by (simp add: rx_rel_def list_all2_same)

lemma rx_rel_trans:
  assumes "rx_rel s s1" "rx_rel s1 s2"
  shows "rx_rel s s2"
proof -
  let ?P = "\<lambda>x y :: pkt_state_t. seg_of y = seg_of x \<and> (acked x \<longrightarrow> acked y)"
  have "list_all2 ?P (window s) (window s1)" "list_all2 ?P (window s1) (window s2)"
    using assms unfolding rx_rel_def by blast+
  from list_all2_trans[OF _ this, of ?P] have "list_all2 ?P (window s) (window s2)" by auto
  then show ?thesis using assms unfolding rx_rel_def by metis
qed

context worker_env begin

lemma poll_effect:
  assumes "poll E s = (r, s')" "pb_ok (pbuf s)"
  shows "same_ok s s' \<and> pb_ok (pbuf s') \<and> sent (card_st s') @ queued (pbuf s') = sent (card_st s) @ queued (pbuf s)
    \<and> shm s' = shm s"
proof (cases "PACKET_LOOPBACK s")
  case True
  with assms show ?thesis
    by (auto simp: poll_def local_receive_def same_ok_def same_window_def same_core_def split: list.splits)
next
  case False
  with assms obtain pb n where r: "receive (net E) (pbuf s, card_st s) = (r, pb, n)" "s' = s\<lparr>pbuf := pb, card_st := n\<rparr>"
    by (auto simp: poll_def split: prod.splits)
  from r(1) assms(2) show ?thesis
    by (rule card.receive_effect) (simp add: r(2) same_ok_def same_window_def same_core_def)
qed

lemma same_ok_rx_rel: "same_ok s s' \<Longrightarrow> rx_rel s s'"
  by (simp add: same_ok_def same_window_def same_core_def rx_rel_def slots_def list_all2_same)

lemma rx_one_effect:
  assumes "ok s" "rx_process_one E pkt s = Some s'"
  shows "ok s' \<and> todo s' = todo s \<and> rx_rel s s'"
proof (cases "\<exists>i. answer_for s pkt i")
  case True
  then obtain i where i: "answer_for s pkt i" by blast
  have "list_all2 (\<lambda>x y. seg_of y = seg_of x \<and> (acked x \<longrightarrow> acked y)) (window s)
      ((window s)[i := (window s ! i)\<lparr>acked := True\<rparr>])"
    using i by (auto simp: list_all2_conv_all_nth nth_list_update seg_of_def answer_for_def)
  then have "rx_rel s s'"
    using rx_one_hit[OF assms(1) i assms(2)] unfolding rx_rel_def by metis
  with rx_one_hit[OF assms(1) i assms(2)] show ?thesis by blast
next
  case False
  then have m: "\<forall>i. \<not> answer_for s pkt i" by blast
  note R = rx_one_miss[OF assms(1) m assms(2)]
  then have "pb_ok (pbuf s')" by (simp add: emits_def)
  with R same_ok_ok[of s s'] same_ok_rx_rel[of s s'] assms(1) show ?thesis by blast
qed

lemma drop_same_ok: "ok s \<Longrightarrow> same_ok s (s\<lparr>pbuf := drop_pkt (pbuf s)\<rparr>) \<and> pb_ok (pbuf (s\<lparr>pbuf := drop_pkt (pbuf s)\<rparr>))"
  using okD(4)[of s] by (simp add: same_ok_def same_window_def same_core_def drop_pkt_def pb_ok_def)

lemma rx_loop_effect:
  assumes "rx_loop E s = Some s'" "ok s"
  shows "ok s' \<and> todo s' = todo s \<and> rx_rel s s'"
proof -
  have "E = E \<longrightarrow> ok s \<longrightarrow> ok s' \<and> todo s' = todo s \<and> rx_rel s s'"
  proof (rule rx_loop.raw_induct[where P = "\<lambda>E' s s'. E' = E \<longrightarrow> ok s \<longrightarrow> ok s' \<and> todo s' = todo s \<and> rx_rel s s'",
        OF _ assms(1)], intro impI)
    fix rl :: "('q, 'n) wenv \<Rightarrow> ('q, 'n) worker \<Rightarrow> ('q, 'n) worker option" and E' s s'
    assume IH: "\<And>E' s s'. rl E' s = Some s' \<Longrightarrow> E' = E \<longrightarrow> ok s \<longrightarrow> ok s' \<and> todo s' = todo s \<and> rx_rel s s'"
      and eq: "(case poll E' s of
        (None, s) \<Rightarrow> Some s
      | (Some p, s) \<Rightarrow> Option.bind (rx_process_one E' (contents_of s p) s) (\<lambda>s.
          let s = s\<lparr>pbuf := drop_pkt (pbuf s)\<rparr> in
          if rx_sw_buffered_pkt_cnt (pbuf s) = 0
             \<and> rx_hw_buffered_pkt_cnt (net E') (card_st s) < of_nat MAX_PKT_BURST
          then Some s else rl E' s)) = Some s'"
      and E: "E' = E" and ok: "ok s"
    obtain r s1 where p: "poll E s = (r, s1)" by fastforce
    note P = poll_effect[OF p okD(4)[OF ok]]
    then have P': "same_ok s s1" "pb_ok (pbuf s1)" by blast+
    have 1: "ok s1" "todo s1 = todo s" "rx_rel s s1"
      using same_ok_ok[OF P'] ok same_ok_rx_rel[OF P'(1)] by blast+
    show "ok s' \<and> todo s' = todo s \<and> rx_rel s s'"
    proof (cases r)
      case None
      with eq p E have "s' = s1" by simp
      with 1 show ?thesis by simp
    next
      case (Some q)
      with eq p E obtain s2 where s2: "rx_process_one E (contents_of s1 q) s1 = Some s2"
        by (auto split: bind_splits)
      note R = rx_one_effect[OF 1(1) s2]
      let ?s3 = "s2\<lparr>pbuf := drop_pkt (pbuf s2)\<rparr>"
      have D: "same_ok s2 ?s3" "pb_ok (pbuf ?s3)" using drop_same_ok[of s2] R by blast+
      have 3: "ok ?s3" "todo ?s3 = todo s" "rx_rel s ?s3"
        using same_ok_ok[OF D] same_ok_rx_rel[OF D(1)] R 1 by (blast, simp, blast intro: rx_rel_trans)
      have "s' = ?s3 \<or> rl E ?s3 = Some s'"
        using eq p E Some s2 by (auto simp: Let_def split: if_splits)
      then show ?thesis
      proof
        assume "s' = ?s3" with 3 show ?thesis by simp
      next
        assume "rl E ?s3 = Some s'"
        from IH[OF this] 3 show ?thesis by (auto intro: rx_rel_trans)
      qed
    qed
  qed
  with assms(2) show ?thesis by simp
qed

subsection \<open>Retransmitting the window\<close>

lemma transmit_unacked_effect:
  assumes "transmit_unacked E b e c s = Some (c', s')" "unat b = ring_add a j" "unat e = ring_add a (j + m)"
    "m < MAX_WIN_LEN" "a < MAX_WIN_LEN" "pb_ok (pbuf s)"
  shows "\<exists>es. emitted s s' es
      \<and> map (unat \<circ> fst) es = map (\<lambda>i. ring_add a (j + i)) (filter (\<lambda>i. \<not> acked (slots s (ring_add a j) m ! i)) [0..<m])
      \<and> map snd es = map ps_pkt (filter (Not \<circ> acked) (slots s (ring_add a j) m)) \<and> same_window s s' \<and> send_frame s s'
      \<and> left_psn s' = left_psn s \<and> right_psn s' = right_psn s"
  using assms
proof (induction m arbitrary: b j c s)
  case 0
  then have "b = e" by (simp add: word_unat_eq_iff)
  with 0 have "s' = s" by (simp add: transmit_unacked.simps[of E])
  with 0 show ?case
    by (intro exI[of _ "[]"]) (simp add: emits_Nil same_window_def same_core_def send_frame_def)
next
  case (Suc m)
  have "b \<noteq> e"
  proof
    assume "b = e"
    then have eq: "ring_add a j = ring_add a (j + Suc m)" using Suc.prems(2,3) by simp
    have "ring_add (ring_add a j) 0 = ring_add a j" by simp
    also note eq
    also have "ring_add a (j + Suc m) = ring_add (ring_add a j) (Suc m)" by simp
    finally have "ring_add (ring_add a j) 0 = ring_add (ring_add a j) (Suc m)" .
    from ring_add_inj[OF _ Suc.prems(4) this] show False by (simp add: MAX_WIN_LEN_def)
  qed
  have b: "unat b < MAX_WIN_LEN" using Suc.prems(2) by simp
  have nx: "unat (get_next_position b) = ring_add a (Suc j)" using unat_next[OF b] Suc.prems(2) by simp
  have e': "unat e = ring_add a (Suc j + m)" "m < MAX_WIN_LEN" using Suc.prems(3,4) by simp_all
  have sl: "slots s (ring_add a j) (Suc m) = slot s b # slots s (ring_add a (Suc j)) m"
    using slots_Cons[of "ring_add a j" s m] Suc.prems(2) by simp
  have idx: "filter (\<lambda>i. \<not> acked (slots s (ring_add a j) (Suc m) ! i)) [0..<Suc m]
      = (if acked (slot s b) then [] else [0]) @ map Suc (filter (\<lambda>i. \<not> acked (slots s (ring_add a (Suc j)) m ! i)) [0..<m])"
    unfolding sl by (simp add: upt_conv_Cons map_Suc_upt[symmetric] filter_map comp_def del: upt_Suc)
  show ?case
  proof (cases "has_acked s b")
    case True
    then have "transmit_unacked E (get_next_position b) e c s = Some (c', s')"
      using \<open>b \<noteq> e\<close> Suc.prems(1) by (simp add: transmit_unacked.simps[of E])
    from Suc.IH[OF this nx e' Suc.prems(5,6)] True show ?thesis
      unfolding idx by (simp add: sl has_acked_def comp_def)
  next
    case False
    with \<open>b \<noteq> e\<close> Suc.prems(1) obtain s1 where s1: "transmit E b s = Some s1"
      "transmit_unacked E (get_next_position b) e (c + 1) s1 = Some (c', s')"
      by (auto simp: transmit_unacked.simps[of E] split: bind_splits)
    note T = transmit_effect[OF s1(1) Suc.prems(6)]
    have "pb_ok (pbuf s1)" using T by (simp add: emits_def)
    from Suc.IH[OF s1(2) nx e' Suc.prems(5) this] obtain es where
      es: "emitted s1 s' es"
        "map (unat \<circ> fst) es = map (\<lambda>i. ring_add a (Suc j + i)) (filter (\<lambda>i. \<not> acked (slots s1 (ring_add a (Suc j)) m ! i)) [0..<m])"
        "map snd es = map ps_pkt (filter (Not \<circ> acked) (slots s1 (ring_add a (Suc j)) m))"
        "same_window s1 s'" "send_frame s1 s'" "left_psn s' = left_psn s1" "right_psn s' = right_psn s1"
      by blast
    have ss: "slots s1 = slots s" using T same_window_invariants(3)[of s s1] by blast
    show ?thesis
      using es T Suc.prems(2) False ss emits_append[of sent delivered s s1 "[(b, ps_pkt (slot s b))]" s' es]
        same_window_trans[of s s1 s'] send_frame_trans[of s s1 s']
      unfolding idx by (intro exI[of _ "(b, ps_pkt (slot s b)) # es"]) (simp add: sl has_acked_def comp_def)
  qed
qed

lemma full_retrans_effect:
  assumes "full_retrans E s = Some s'" "ok s"
  shows "ok s' \<and> same_window s s' \<and> shm s' = shm s \<and> ack_cnt s' = ack_cnt s
    \<and> (\<exists>es. emitted s s' es \<and> map (unat \<circ> fst) es
          = map (ring_add (unat (to_ack s))) (filter (\<lambda>i. \<not> acked (window s ! i)) [0..<in_flight s])
        \<and> map snd es = map ps_pkt (filter (Not \<circ> acked) (window s)))
    \<and> cc s' = (if in_flight s = 0 then cc s else cc_reinit (global_ts s) (cc s))"
proof -
  note D = okD[OF assms(2)]
  show ?thesis
  proof (cases "to_ack s = to_send s")
    case True
    then have "s' = s" "in_flight s = 0" using assms(1) by (simp_all add: full_retrans_def)
    then show ?thesis using assms(2) emits_refl[OF assms(2)]
      by (simp add: same_window_def same_core_def)
  next
    case False
    define s1 where "s1 = s\<lparr>last_ack_time_stamp := global_ts s,
          stats := (stats s)\<lparr>full_retrans_trigger_cnt := full_retrans_trigger_cnt (stats s) + 1\<rparr>\<rparr>"
    obtain c s2 where t: "transmit_unacked E (to_ack s) (to_send s) 0 s1 = Some (c, s2)"
      "s' = s2\<lparr>stats := (stats s2)\<lparr>full_retrans_pkt_cnt := full_retrans_pkt_cnt (stats s2) + c\<rparr>,
                cc := cc_reinit (global_ts s2) (cc s2)\<rparr>"
      using assms(1) False by (auto simp: full_retrans_def s1_def[symmetric] split: bind_splits)
    have ne: "in_flight s \<noteq> 0" using False D(2,3) by (simp add: word_unat_eq_iff)
    have a0: "unat (to_ack s) = ring_add (unat (to_ack s)) 0" "unat (to_send s) = ring_add (unat (to_ack s)) (0 + in_flight s)"
      using D(2,8) by simp_all
    have pb1: "pb_ok (pbuf s1)" using D(4) by (simp add: s1_def)
    have sl1: "slots s1 = slots s" by (simp add: s1_def slots_def fun_eq_iff)
    from transmit_unacked_effect[OF t(1) a0 D(6,2) pb1] obtain es where es: "emitted s1 s2 es"
      "map (unat \<circ> fst) es = map (ring_add (unat (to_ack s))) (filter (\<lambda>i. \<not> acked (window s ! i)) [0..<in_flight s])"
      "map snd es = map ps_pkt (filter (Not \<circ> acked) (window s))"
      "same_window s1 s2" "send_frame s1 s2" "left_psn s2 = left_psn s1" "right_psn s2 = right_psn s1"
      using D(2) by (auto simp: sl1)
    have em: "emitted s s' es"
      by (rule emits_cong[OF emits_cong_left[OF es(1)]]) (simp_all add: t(2) s1_def)
    have sw: "same_window s s'" using es(4) by (simp add: t(2) s1_def same_window_def same_core_def)
    have cc: "cc s' = cc_reinit (global_ts s) (cc s)" using es(5) by (simp add: t(2) s1_def send_frame_def)
    have oth: "left_psn s' = left_psn s" "right_psn s' = right_psn s" "shm s' = shm s" "ack_cnt s' = ack_cnt s"
      "cwnd_achieved s' = cwnd_achieved s"
      using es(5-7) by (simp_all add: t(2) s1_def send_frame_def)
    have "cc_ok (cc s')" "cwnd (cc s') < 1024"
      using assms(2) cc by (simp_all add: wok_def cc_reinit_ok) (simp add: cc_reinit_def CC_CWND_MIN_def)
    moreover have "in_flight s' = in_flight s" "to_ack s' = to_ack s" "to_send s' = to_send s"
      using sw by (simp_all add: same_window_def same_core_def)
    moreover have "pb_ok (pbuf s')" using em by (simp add: emits_def)
    ultimately have "ok s'"
      using assms(2) same_window_invariants[OF sw] oth by (simp add: wok_def)
    with em es(2,3) sw oth cc ne show ?thesis by auto
  qed
qed

end

subsection \<open>Sending, the congestion control, and the whole turn\<close>

text \<open>
  The backlog a worker may be given: aggregator arrays of positive length, one group. (With two
  groups waiting, \<open>gen_pkt\<close> can change groups inside a burst.)
\<close>

definition uniform :: "('q, 'n) wenv \<Rightarrow> ptr set \<Rightarrow> bool" where
  "uniform E A \<longleftrightarrow> (\<forall>a\<in>A. sub_agg_len (sub_at E a) \<noteq> 0) \<and> (\<forall>a\<in>A. \<forall>b\<in>A. sub_group E a = sub_group E b)"

context worker_env begin

lemma uniform_one_group:
  assumes "uniform E (set (work s))" "ok s"
  shows "one_group (in_flight s) s"
proof -
  have "\<forall>a\<in>set (work s). \<forall>b\<in>set (work s). sub_group E a = sub_group E b"
    using assms(1) unfolding uniform_def by (rule conjunct2)
  moreover have "window_tx_empty s \<longrightarrow> in_flight s = 0" using okD(7)[OF assms(2)] by (simp only: simp_thms)
  ultimately show ?thesis unfolding one_group_def by (intro impI conjI) (assumption, iprover)
qed

lemma tx_process_effect:
  assumes ret: "tx_process E s = Some s'" and ok: "ok s" and u: "uniform E (set (work s))"
  shows "\<exists>new. ok s' \<and> window s' = window s @ new \<and> todo s = map seg_of new @ todo s'
    \<and> shm s' = shm s \<and> cq (wqp s') = cq (wqp s) \<and> set (work s') \<subseteq> set (work s)"
proof -
  define s1 where "s1 = (if ack_cnt s \<noteq> prev_ack_cnt s
               then s\<lparr>prev_ack_cnt := ack_cnt s, last_ack_time_stamp := global_ts s\<rparr> else s)"
  have so1: "same_ok s s1" "pb_ok (pbuf s1)"
    using okD(4)[OF ok] by (simp_all add: s1_def same_ok_def same_window_def same_core_def)
  note S1 = same_ok_ok[OF so1]
  have io1: "shm s1 = shm s" "wqp s1 = wqp s" by (simp_all add: s1_def)
  obtain s2 where s2: "(if TIMEOUT_TIME \<le> global_ts s1 - last_ack_time_stamp s1 then full_retrans E s1 else Some s1) = Some s2"
    using ret unfolding tx_process_def s1_def[symmetric] by (auto simp: Let_def split: bind_splits)
  have 2: "ok s2" "same_window s1 s2" "shm s2 = shm s1"
    using s2 full_retrans_effect[of s1 s2] S1(1)[OF ok]
    by (auto split: if_splits simp: same_window_def same_core_def)
  obtain s3 where s3: "shift_send E s2 = Some s3"
    using ret s2 unfolding tx_process_def s1_def[symmetric] by (auto simp: Let_def split: bind_splits)
  have s': "s' = (if window_tx_empty s3 then s3\<lparr>last_ack_time_stamp := global_ts s3\<rparr> else s3)"
    using ret s2 s3 unfolding tx_process_def s1_def[symmetric] by (simp add: Let_def)
  have w2: "wqp s2 = wqp s" "window s2 = window s" "todo s2 = todo s"
    using 2(2) S1(2,3) same_window_invariants(2,3)[OF 2(2)] io1 by (simp_all add: same_window_def same_core_def)
  have u2: "uniform E (set (work s2))" using u w2 by simp
  have agg: "\<forall>a\<in>set (work s2). sub_agg_len (sub_at E a) \<noteq> 0" using u2 by (simp add: uniform_def)
  from shift_send_effect[OF s3 2(1) agg uniform_one_group[OF u2 2(1)]] obtain new where
    new: "ok s3" "window s3 = window s2 @ new" "todo s2 = map seg_of new @ todo s3" "shm s3 = shm s2"
      "cq (wqp s3) = cq (wqp s2)" "set (work s3) \<subseteq> set (work s2)" by blast
  have so3: "same_ok s3 s'" "pb_ok (pbuf s')"
    using okD(4)[OF new(1)] by (simp_all add: s' same_ok_def same_window_def same_core_def)
  note S3 = same_ok_ok[OF so3]
  have io3: "shm s' = shm s3" "wqp s' = wqp s3" by (simp_all add: s')
  show ?thesis
    using new S3 io3 io1 w2 2(3) by (intro exI[of _ new]) simp
qed

lemma congestion_control_ok:
  assumes ok: "ok s"
  shows "ok (congestion_control s) \<and> same_window s (congestion_control s) \<and> shm (congestion_control s) = shm s"
proof -
  let ?s' = "congestion_control s"
  have sw: "same_window s ?s'" "shm ?s' = shm s" "pbuf ?s' = pbuf s" "left_psn ?s' = left_psn s" "right_psn ?s' = right_psn s"
    by (simp_all add: congestion_control_def worker_adjust_rate_def Let_def same_window_def same_core_def)
  have cc: "cc_ok (cc s)" "cwnd_achieved s \<longrightarrow> cwnd (cc s) < 1024" using ok by (simp_all add: wok_def)
  have adj: "cc_ok (adjust_rate c (cwnd_achieved s) (cc s))" for c
    using adjust_rate_ok[OF cc(1), of c] cc(2) by simp
  have upd: "cc_ok (x\<lparr>prev_adjust_ts := t\<rparr>) = cc_ok x" "cc_ok (x\<lparr>prev_decrease_ts := t\<rparr>) = cc_ok x" for x t
    by (simp_all add: cc_ok_def)
  have "cc_ok (cc ?s') \<and> (cwnd_achieved ?s' \<longrightarrow> cwnd (cc ?s') < 1024)"
    using cc adj by (simp add: congestion_control_def worker_adjust_rate_def Let_def upd)
  then show ?thesis
    using ok sw same_window_invariants[OF sw(1)] 
    by (simp add: wok_def same_window_def same_core_def)
qed

text \<open>A turn is the clock, the receiving half, the sending half, and the congestion control.\<close>

lemma turn_cases:
  assumes ret: "worker_turn E base now (l, s) = Some (l', s')" and ok: "ok s"
  obtains s1 s2 s3 s4 where "same_ok s s1" "pb_ok (pbuf s1)" "wqp s1 = wqp s" "shm s1 = shm s"
    "rx_loop E s1 = Some s2" "shift_ack E s2 = Some s3" "tx_process E s3 = Some s4"
    "s' = congestion_control s4 \<or> s' = reset_stats (congestion_control s4)"
    "local_queue s1 = local_queue s" "PACKET_LOOPBACK s1 = PACKET_LOOPBACK s"
    "current_switch_window_limit s1 = current_switch_window_limit s"
proof -
  define s1 where "s1 = snd (get_time_stamp now s)\<lparr>global_ts := fst (get_time_stamp now s) - base\<rparr>"
  have so1: "same_ok s s1" "pb_ok (pbuf s1)" "wqp s1 = wqp s" "shm s1 = shm s"
    and io1: "local_queue s1 = local_queue s" "PACKET_LOOPBACK s1 = PACKET_LOOPBACK s"
      "current_switch_window_limit s1 = current_switch_window_limit s"
    using okD(4)[OF ok] by (simp_all add: s1_def get_time_stamp_def Let_def same_ok_def same_window_def same_core_def)
  have eq: "worker_turn E base now (l, s) = Option.bind (rx_process E s1) (\<lambda>s. Option.bind (tx_process E s)
     (\<lambda>s. let s = congestion_control s in
       Some (if LOG_INTERVAL < global_ts s - l then (global_ts s, reset_stats s) else (l, s))))"
    by (cases "get_time_stamp now s") (simp add: worker_turn_def s1_def Let_def)
  from ret show thesis unfolding eq
    by (auto simp: rx_process_def Let_def split: bind_splits if_splits intro: that[OF so1 _ _ _ _ io1])
qed

text \<open>
  One turn: some packets of the window become acknowledged (the window is then \<open>w\<close>), the
  acknowledged packets at its front leave it and their sub-operations' answers are queued, and new
  packets are made of the work at hand and put at its end.
\<close>

lemma turn_effect:
  assumes ret: "worker_turn E base now (l, s) = Some (l', s')" and ok: "ok s" and u: "uniform E (set (work s))"
  shows "\<exists>w new. ok s' \<and> list_all2 (\<lambda>x y. seg_of y = seg_of x \<and> (acked x \<longrightarrow> acked y)) (window s) w
    \<and> window s' = dropWhile acked w @ new \<and> todo s = map seg_of new @ todo s'
    \<and> sq.answers (wqp s') = sq.answers (wqp s) @ map ps_sub_op (filter is_last (takeWhile acked w))
    \<and> set (work s') \<subseteq> set (work s)"
proof -
  from turn_cases[OF ret ok] obtain s1 s2 s3' s4 where so1: "same_ok s s1" "pb_ok (pbuf s1)" "wqp s1 = wqp s"
    and s2: "rx_loop E s1 = Some s2" and s3': "shift_ack E s2 = Some s3'" and s4': "tx_process E s3' = Some s4"
    and s': "s' = congestion_control s4 \<or> s' = reset_stats (congestion_control s4)" by metis
  note S1 = same_ok_ok[OF so1(1,2)]
  note R = rx_loop_effect[OF s2 S1(1)[OF ok]]
  obtain s3 where s3: "shift_ack E s2 = Some s3" "ok s3" "window s3 = dropWhile acked (window s2)"
    "sq.answers (wqp s3) = sq.answers (wqp s2) @ map ps_sub_op (filter is_last (takeWhile acked (window s2)))"
    "wq (wqp s3) = wq (wqp s2)" "todo s3 = todo s2"
    using shift_ack_effect[of s2] R by blast
  have s4: "tx_process E s3 = Some s4" using s3(1) s3' s4' by simp
  have wq: "wqp s2 = wqp s" using R so1(3) by (simp add: rx_rel_def)
  have u3: "uniform E (set (work s3))" using u s3(5) wq by simp
  from tx_process_effect[OF s4 s3(2) u3] obtain new where new: "ok s4" "window s4 = window s3 @ new"
    "todo s3 = map seg_of new @ todo s4" "cq (wqp s4) = cq (wqp s3)" "set (work s4) \<subseteq> set (work s3)" by blast
  note C = congestion_control_ok[OF new(1)]
  have so5: "same_ok (congestion_control s4) s'" "pb_ok (pbuf s')"
    using s' okD(4)[of "congestion_control s4"] C
    by (auto simp: same_ok_def same_window_def same_core_def reset_stats_def pb_ok_def)
  note S5 = same_ok_ok[OF so5]
  have sw: "same_window s4 s'" using C so5(1) by (auto simp: same_ok_def intro: same_window_trans)
  have w': "window s' = window s4" "todo s' = todo s4" "wqp s' = wqp s4"
    using same_window_invariants(2,3)[OF sw] sw by (simp_all add: same_window_def same_core_def)
  have l2: "list_all2 (\<lambda>x y. seg_of y = seg_of x \<and> (acked x \<longrightarrow> acked y)) (window s) (window s2)"
    using R S1(2)[symmetric] unfolding rx_rel_def by metis
  have "ok s'" using S5(1) C by blast
  moreover have "window s' = dropWhile acked (window s2) @ new" using w'(1) new(2) s3(3) by simp
  moreover have "todo s = map seg_of new @ todo s'" using new(3) s3(6) R S1(3) w'(2) by simp
  moreover have "sq.answers (wqp s') = sq.answers (wqp s) @ map ps_sub_op (filter is_last (takeWhile acked (window s2)))"
    using s3(4) new(4) w'(3) wq by simp
  moreover have "set (work s') \<subseteq> set (work s)" using new(5) w'(3) s3(5) wq by simp
  ultimately show ?thesis using l2 by blast
qed

end

end
