(* ===== verification/Setup.thy ===== *)
theory Setup
  imports WorkerSend
begin

text \<open>
  \<open>server/backend/main.cpp\<close> and the constructors of \<open>server/backend/common.hpp\<close>: the processors the
  backend runs on, the rules that steer the switch's answers to the workers' queues, the packet
  headers filled in once, and the state a worker starts in. Setting up DPDK's ports and pools and opening the
  shared memory are calls of libraries whose result is asserted; the command line is in \<open>ArgParser\<close>.
\<close>

subsection \<open>Processors\<close>

definition cpu_list_on_node :: "nat list \<Rightarrow> int \<Rightarrow> int \<Rightarrow> nat list option" where
  "cpu_list_on_node socket_list node thread_cnt = do {
     cpu_list \<leftarrow> get_cpu_list_by_socket socket_list node;
     c_assert (cpu_list \<noteq> []);
     c_assert (thread_cnt \<le> int (length cpu_list) \<and> 0 < thread_cnt);
     Some (take (nat thread_cnt) (rev cpu_list))
   }"

definition cpu_list_to_string :: "nat list \<Rightarrow> string" where
  "cpu_list_to_string cpu_list = join_strings (map to_string cpu_list) '',''"

definition lcores_arg :: "nat list \<Rightarrow> string" where
  "lcores_arg cpu_list = ''(0-'' @ to_string (length cpu_list - 1) @ '')@('' @ cpu_list_to_string cpu_list @ '')''"

subsection \<open>Flow rules\<close>

datatype flow_action = FLOW_DROP | FLOW_QUEUE u16

text \<open>A rule: its priority, the IPv4 item's spec and mask (\<open>None\<close>: the pattern has no item), its action.\<close>

record flow_rule =
  flow_priority :: u32
  flow_ipv4 :: "(ip_hdr \<times> ip_hdr) option"
  flow_act :: flow_action

text \<open>DPDK's two calls, over the state of the card; whether they succeed.\<close>

record 'd flow_ops =
  rte_flow_validate :: "flow_rule \<Rightarrow> 'd \<Rightarrow> bool"
  rte_flow_create :: "flow_rule \<Rightarrow> 'd \<Rightarrow> bool \<times> 'd"

definition flow_create :: "'d flow_ops \<Rightarrow> flow_rule \<Rightarrow> 'd \<Rightarrow> bool \<times> 'd" where
  "flow_create F r d = (if rte_flow_validate F r d then rte_flow_create F r d else (False, d))"

definition zero_ip :: ip_hdr where
  "zero_ip = \<lparr>version_ihl = 0, type_of_service = 0, total_length = 0, packet_id = 0, fragment_offset = 0,
     time_to_live = 0, next_proto_id = 0, hdr_checksum = 0, ip_src_addr = 0, ip_dst_addr = 0\<rparr>"

definition drop_rule :: flow_rule where
  "drop_rule = \<lparr>flow_priority = 1, flow_ipv4 = None, flow_act = FLOW_DROP\<rparr>"

definition queue_rule :: "u16 \<Rightarrow> flow_rule" where
  "queue_rule q = \<lparr>flow_priority = 0,
     flow_ipv4 = Some (zero_ip\<lparr>type_of_service := htobe_store (push_bit 2 (ucast q :: u32)),
         next_proto_id := htobe_store IPPROTO_NETCCL\<rparr>,
       zero_ip\<lparr>type_of_service := htobe_store (0xfc :: u32), next_proto_id := htobe_store (0xff :: u32)\<rparr>),
     flow_act = FLOW_QUEUE q\<rparr>"

text \<open>\<open>flow_init_queue\<close>; the first component of the state is its static flag \<open>drop\<close>.\<close>

definition flow_init_queue :: "'d flow_ops \<Rightarrow> u16 \<Rightarrow> bool \<times> 'd \<Rightarrow> bool \<times> bool \<times> 'd" where
  "flow_init_queue F q = (\<lambda>(drop, d).
     let d = (if drop then snd (flow_create F drop_rule d) else d);
         (created, d) = flow_create F (queue_rule q) d
     in (created, False, d))"

fun flow_init_from :: "'d flow_ops \<Rightarrow> nat \<Rightarrow> nat \<Rightarrow> bool \<times> 'd \<Rightarrow> int \<times> bool \<times> 'd" where
  "flow_init_from F q 0 s = (0, s)"
| "flow_init_from F q (Suc n) s = (case flow_init_queue F (of_nat q) s of
     (False, s) \<Rightarrow> (- 1, s)
   | (True, s) \<Rightarrow> flow_init_from F (Suc q) n s)"

definition flow_init :: "'d flow_ops \<Rightarrow> u16 \<Rightarrow> bool \<times> 'd \<Rightarrow> int \<times> bool \<times> 'd" where
  "flow_init F nqueue = flow_init_from F 0 (unat nqueue)"

subsection \<open>Packet headers\<close>

text \<open>
  The headers every packet of worker \<open>w\<close> starts with. \<open>smac\<close> and \<open>dmac\<close> are what DPDK returns for
  the card's address and parses of \<open>SWITCH_MAC\<close>, \<open>raw\<close> is the buffer as it comes from the pool.
\<close>

definition prefill_header :: "u32 \<Rightarrow> ip_hdr" where
  "prefill_header addr = \<lparr>version_ihl = htobe 0x45,
     type_of_service = htobe 0, total_length = htobe 0, packet_id = htobe 0,
     fragment_offset = htobe 0x4000, time_to_live = htobe 0x40, next_proto_id = htobe IPPROTO_NETCCL,
     hdr_checksum = htobe 0, ip_src_addr = htobe addr, ip_dst_addr = htobe 0\<rparr>"

text \<open>In the loop over the workers the type of service is filled in.\<close>

definition prefill_ip :: "u32 \<Rightarrow> nat \<Rightarrow> ip_hdr" where
  "prefill_ip addr w = (prefill_header addr)\<lparr>type_of_service := htobe (ucast (push_bit 2 (of_nat w :: u32) OR 1))\<rparr>"

definition RTE_ETHER_TYPE_IPV4 :: u16 where "RTE_ETHER_TYPE_IPV4 = 0x0800"

definition prefill_pkt :: "u8 list \<Rightarrow> u8 list \<Rightarrow> u32 \<Rightarrow> nat \<Rightarrow> mbuf \<Rightarrow> mbuf" where
  "prefill_pkt dmac smac addr w raw = raw\<lparr>
     eth := \<lparr>eth_dst = dmac, eth_src = smac, ether_type = htobe RTE_ETHER_TYPE_IPV4\<rparr>,
     ip := prefill_ip addr w\<rparr>"

subsection \<open>The state of a new worker\<close>

text \<open>
  The constructor of \<open>window_t\<close> and the zero initialised thread-locals; \<open>prefill\<close> fills in the headers
  of the \<open>MAX_WIN_LEN\<close> buffers \<open>raws\<close> of the worker's pool.
\<close>

definition new_slot :: "mbuf \<Rightarrow> pkt_state_t" where
  "new_slot m = \<lparr>acked = False, ps_sub_op = 0, ps_data = 0, ps_size = 0, ps_psn = 0, is_last = False, ps_pkt = m\<rparr>"

definition zero_stats :: stats_t where
  "zero_stats = \<lparr>cwnd_inc_cnt = 0, cwnd_dec_cnt = 0, shift_send_cnt = 0, shift_ack_cnt = 0,
     total_shift_send_cnt = 0, total_shift_ack_cnt = 0, fast_retrans_trigger_cnt = 0, fast_retrans_pkt_cnt = 0,
     full_retrans_trigger_cnt = 0, full_retrans_pkt_cnt = 0, in_range_reduntant_ack_cnt = 0,
     out_range_reduntant_ack_cnt = 0\<rparr>"

definition new_worker :: "(mbuf \<Rightarrow> mbuf) \<Rightarrow> mbuf list \<Rightarrow> 'q \<Rightarrow> 'n \<Rightarrow> memory \<Rightarrow> ('q, 'n) worker option" where
  "new_worker prefill raws q n m = do {
     pb \<leftarrow> queue_process_buffer (of_nat MAX_PKT_BURST) (of_nat MAX_PKT_BURST);
     Some \<lparr>wqp = empty_pair q, pbuf = pb, card_st = n, group_psn = (\<lambda>_. 0), shm = m,
       last_ack_time_stamp = 0, to_send = 0, to_ack = 0, left_psn = 0, right_psn = 0, cc = cc_init,
       win = map (new_slot \<circ> prefill) raws, PACKET_LOOPBACK = False, local_queue = [], global_ts = 0, ts_cnt = 0,
       ts_cache = 0, current_switch_window_limit = of_nat CC_CWND_MIN, current_group_id = 0, tos_minitor = 0,
       pkt_loss_flag = False, traffic_todo = False, cwnd_achieved = False, ack_cnt = 0, prev_ack_cnt = 0,
       prev_ack_cnt_cc = 0, win_cnt = replicate MAX_WIN_LEN 0, stats = zero_stats, pkt_sent = 0, start_psn = 0,
       pkt_cnt = 0, cur_sub = None\<rparr>
   }"

text \<open>The start of \<open>worker_loop\<close>: the base of the time stamps, and the variable that asks for loopback.\<close>

definition worker_loop_init :: "u32 \<Rightarrow> bool \<Rightarrow> ('q, 'n) worker \<Rightarrow> u32 \<times> ('q, 'n) worker" where
  "worker_loop_init now loopback s =
     get_time_stamp now (if loopback then s\<lparr>PACKET_LOOPBACK := True\<rparr> else s)"

subsection \<open>What is set up\<close>

lemma htobe_store_u8 [simp]: "(htobe_store x :: u8) = ucast x"
  by (simp add: htobe_store_def)

text \<open>DPDK matches a header against an item member by member, under the mask.\<close>

definition ipv4_matches :: "ip_hdr \<times> ip_hdr \<Rightarrow> ip_hdr \<Rightarrow> bool" where
  "ipv4_matches = (\<lambda>(spec, mask) h.
     version_ihl h AND version_ihl mask = version_ihl spec AND version_ihl mask
   \<and> type_of_service h AND type_of_service mask = type_of_service spec AND type_of_service mask
   \<and> total_length h AND total_length mask = total_length spec AND total_length mask
   \<and> packet_id h AND packet_id mask = packet_id spec AND packet_id mask
   \<and> fragment_offset h AND fragment_offset mask = fragment_offset spec AND fragment_offset mask
   \<and> time_to_live h AND time_to_live mask = time_to_live spec AND time_to_live mask
   \<and> next_proto_id h AND next_proto_id mask = next_proto_id spec AND next_proto_id mask
   \<and> hdr_checksum h AND hdr_checksum mask = hdr_checksum spec AND hdr_checksum mask
   \<and> ip_src_addr h AND ip_src_addr mask = ip_src_addr spec AND ip_src_addr mask
   \<and> ip_dst_addr h AND ip_dst_addr mask = ip_dst_addr spec AND ip_dst_addr mask)"

definition steered :: "flow_rule \<Rightarrow> ip_hdr \<Rightarrow> bool" where
  "steered r h = (case flow_ipv4 r of None \<Rightarrow> True | Some item \<Rightarrow> ipv4_matches item h)"

lemma tos_bits:
  "(ucast (push_bit 2 (x :: u32)) :: u8) AND 0xfc = push_bit 2 (ucast x)"
  "(ucast (push_bit 2 (x :: u32) OR 1) :: u8) AND 0xfc = push_bit 2 (ucast x)"
proof -
  have m: "(0xfc :: u8) = push_bit 2 (mask 6)" by (simp add: push_bit_eq_mult mask_eq_exp_minus_1)
  have b: "bit (0xfc :: u8) n \<longleftrightarrow> 2 \<le> n \<and> n < 8" for n
    unfolding m bit_push_bit_iff bit_mask_iff by auto
  have c: "bit (y AND 0xfc :: u8) n \<longleftrightarrow> bit y n \<and> 2 \<le> n \<and> n < 8" for y n
    by (simp only: bit_and_iff b)
  show "(ucast (push_bit 2 x) :: u8) AND 0xfc = push_bit 2 (ucast x)"
    "(ucast (push_bit 2 x OR 1) :: u8) AND 0xfc = push_bit 2 (ucast x)"
    by (rule bit_word_eqI, simp only: c, auto simp: bit_or_iff bit_ucast_iff bit_push_bit_iff bit_1_iff)+
qed

lemma push2_eq_iff: "(push_bit 2 (x :: u8) = push_bit 2 y) \<longleftrightarrow> unat x mod 64 = unat y mod 64"
proof -
  have u: "unat (push_bit 2 z :: u8) = 4 * (unat z mod 64)" for z :: u8
    using mult_mod_right[of 4 "unat z" 64] by (simp add: push_bit_eq_mult unat_word_ariths(2) mult.commute)
  show ?thesis unfolding word_unat_eq_iff u by simp
qed

lemma steered_iff:
  assumes "type_of_service h = ucast (push_bit 2 (of_nat w :: u32) OR 1)" "next_proto_id h = IPPROTO_NETCCL"
    and "q < 2 ^ 16" "w < 2 ^ 31"
  shows "steered (queue_rule (of_nat q)) h \<longleftrightarrow> q mod 64 = w mod 64"
proof -
  have "unat (ucast (of_nat q :: u16) :: u32) = q"
    using assms(3) by (simp add: unsigned_ucast_eq take_bit_nat_eq_self unat_of_nat_small)
  then have q: "unat (ucast (ucast (of_nat q :: u16) :: u32) :: u8) = q mod 256"
    by (subst unsigned_ucast_eq) (simp add: take_bit_eq_mod)
  have w: "unat (ucast (of_nat w :: u32) :: u8) = w mod 256"
    using assms(4) by (simp add: unsigned_ucast_eq take_bit_eq_mod unat_of_nat_small)
  have "steered (queue_rule (of_nat q)) h \<longleftrightarrow>
      (push_bit 2 (ucast (of_nat w :: u32)) :: u8) = push_bit 2 (ucast (ucast (of_nat q :: u16) :: u32))"
    using assms(1,2) tos_bits
    by (simp add: steered_def queue_rule_def ipv4_matches_def zero_ip_def IPPROTO_NETCCL_def)
  also have "\<dots> \<longleftrightarrow> q mod 64 = w mod 64"
    unfolding push2_eq_iff q w by (auto simp: mod_mod_cancel)
  finally show ?thesis .
qed

subsection \<open>Properties\<close>

text \<open>
  The backend runs on exactly \<open>thread_cnt\<close> processors of the card's node, no processor twice, and
  on those with the highest numbers.
\<close>

theorem cpu_list_on_node_picks:
  assumes "cpu_list_on_node socket_list (int node) thread_cnt = Some l"
  shows "int (length l) = thread_cnt \<and> distinct l \<and> (\<forall>c\<in>set l. c < length socket_list \<and> socket_list ! c = node)
    \<and> (\<forall>c<length socket_list. socket_list ! c = node \<and> c \<notin> set l \<longrightarrow> (\<forall>d\<in>set l. c < d))"
proof -
  have ne: "socket_list \<noteq> []"
    using assms by (auto simp: cpu_list_on_node_def get_cpu_list_by_socket_def get_cpu_list_with_socket_index_def)
  define cs where "cs = filter (\<lambda>c. socket_list ! c = node) [0..<length socket_list]"
  define k where "k = length cs - nat thread_cnt"
  have a: "thread_cnt \<le> int (length cs)" "0 < thread_cnt" "l = take (nat thread_cnt) (rev cs)"
    using assms get_cpu_list_by_socket_eq[OF ne, of node]
    by (auto simp: cpu_list_on_node_def cs_def split: if_splits)
  have l: "l = rev (drop k cs)" using a by (simp add: take_rev k_def)
  have s: "sorted_wrt (<) cs" unfolding cs_def by (rule sorted_wrt_filter) (simp add: strict_sorted_iff)
  then have d: "distinct cs" by (simp add: strict_sorted_iff)
  have less: "c < e" if "c \<in> set cs" "c \<notin> set (drop k cs)" "e \<in> set (drop k cs)" for c e
  proof -
    have "c \<in> set (take k cs)" using that(1,2) by (metis Un_iff append_take_drop_id set_append)
    moreover have "sorted_wrt (<) (take k cs @ drop k cs)" using s by simp
    ultimately show ?thesis using that(3) unfolding sorted_wrt_append by blast
  qed
  have in_cs: "set (drop k cs) \<subseteq> set cs" by (rule set_drop_subset)
  have "int (length l) = thread_cnt" using a by simp
  moreover have "distinct l" using d l by simp
  moreover have "\<forall>c\<in>set l. c < length socket_list \<and> socket_list ! c = node"
    using in_cs l by (auto simp: cs_def)
  moreover have "\<forall>c<length socket_list. socket_list ! c = node \<and> c \<notin> set l \<longrightarrow> (\<forall>d\<in>set l. c < d)"
    using less l by (auto simp: cs_def)
  ultimately show ?thesis by blast
qed

theorem cpu_list_on_node_picks_witness:
  "cpu_list_on_node [0, 1, 0, 1, 0, 0] (int 0) 2 = Some [5, 4] \<and> distinct [5, 4 :: nat]"
proof -
  have c: "cpu_list_on_node [0, 1, 0, 1, 0, 0] (int 0) 2 = Some [5, 4]"
    using get_cpu_list_by_socket_eq[of "[0, 1, 0, 1, 0, 0]" 0]
    by (simp add: cpu_list_on_node_def upt_rec numeral_2_eq_2)
  with cpu_list_on_node_picks[OF c] show ?thesis by blast
qed

text \<open>
  With at most 64 workers the rules steer the switch's answers: of the rules for queues below 64
  exactly that of queue \<open>w\<close> takes a packet that has the type of service and the protocol the packets of worker \<open>w\<close>
  are filled in with.
\<close>

theorem flow_rules_steer:
  assumes "q < 64" and "w < 64" and "h = prefill_ip addr w"
  shows "steered (queue_rule (of_nat q)) h \<longleftrightarrow> q = w"
proof -
  have "steered (queue_rule (of_nat q)) h \<longleftrightarrow> q mod 64 = w mod 64"
    using assms by (intro steered_iff) (simp_all add: prefill_ip_def prefill_header_def IPPROTO_NETCCL_def)
  then show ?thesis using assms by simp
qed

theorem flow_rules_steer_witness:
  "steered (queue_rule (of_nat 3)) (prefill_ip 0 3) \<and> \<not> steered (queue_rule (of_nat 2)) (prefill_ip 0 3)"
  using flow_rules_steer[OF _ _ refl, of 3 3 0] flow_rules_steer[OF _ _ refl, of 2 3 0] by simp

text \<open>
  \<open>flow_init\<close> creates the drop rule first and then the rule of each queue in order, and reports
  failure at the first rule the card refuses.
\<close>

theorem flow_init_creates:
  assumes "\<forall>r d. flow_create F r d = (ok r, d @ [r])" and "\<forall>q<unat n. ok (queue_rule (of_nat q))" and "0 < unat n"
  shows "flow_init F n (True, []) = (0, False, drop_rule # map (\<lambda>q. queue_rule (of_nat q)) [0..<unat n])"
proof -
  have later: "flow_init_from F q k (False, d) = (0, False, d @ map (\<lambda>q. queue_rule (of_nat q)) [q..<q + k])"
    if "q + k = unat n" for q k d
    using that
  proof (induction k arbitrary: q d)
    case (Suc k)
    have "ok (queue_rule (of_nat q))" using Suc.prems assms(2) by simp
    moreover have "[q..<q + Suc k] = q # [Suc q..<Suc q + k]" by (simp add: upt_conv_Cons)
    ultimately show ?case using Suc.IH[of "Suc q"] Suc.prems by (simp add: flow_init_queue_def assms(1) del: upt_Suc)
  qed simp
  obtain k where k: "unat n = Suc k" using assms(3) by (cases "unat n") auto
  have "flow_init_from F 0 (Suc k) (True, []) = flow_init_from F 1 k (False, [drop_rule, queue_rule 0])"
    using assms(2,3) by (auto simp: flow_init_queue_def assms(1))
  also have "\<dots> = (0, False, [drop_rule, queue_rule 0] @ map (\<lambda>q. queue_rule (of_nat q)) [1..<1 + k])"
    by (rule later) (simp add: k)
  also have "\<dots> = (0, False, drop_rule # map (\<lambda>q. queue_rule (of_nat q)) [0..<Suc k])"
    by (simp add: upt_conv_Cons del: upt_Suc)
  finally show ?thesis by (simp add: flow_init_def k)
qed

definition log_flows :: "flow_rule list flow_ops" where
  "log_flows = \<lparr>rte_flow_validate = (\<lambda>_ _. True), rte_flow_create = (\<lambda>r d. (True, d @ [r]))\<rparr>"

theorem flow_init_creates_witness:
  "flow_init log_flows 2 (True, []) = (0, False, [drop_rule, queue_rule 0, queue_rule 1])"
proof -
  have u: "[0..<unat (2 :: u16)] = [0, 1]" by (simp add: upt_rec)
  have "\<forall>r d. flow_create log_flows r d = (True, d @ [r])" by (simp add: flow_create_def log_flows_def)
  from flow_init_creates[OF this, of 2] u show ?thesis by simp
qed

text \<open>
  C39: The type of service has 6 bits for the worker: of the rules \<open>flow_init\<close> makes for \<open>n\<close> queues, on a card that accepts
  them, those that take the packets of worker \<open>w\<close> are the rules of all queues equal to \<open>w\<close> modulo 64, and the
  first of them sends to queue \<open>w mod 64\<close>. From 65 workers on that is another worker's queue.
\<close>

theorem flow_rules_collide:
  assumes "\<forall>r d. flow_create F r d = (ok r, d @ [r])" and "\<forall>q<unat n. ok (queue_rule (of_nat q))"
    and "flow_init F n (True, []) = (x, dr, rules)" and "w < unat n" and "h = prefill_ip addr w"
  shows "filter (\<lambda>r. flow_priority r = 0 \<and> steered r h) rules
      = map (\<lambda>q. queue_rule (of_nat q)) (filter (\<lambda>q. q mod 64 = w mod 64) [0..<unat n])
    \<and> flow_act (hd (filter (\<lambda>r. flow_priority r = 0 \<and> steered r h) rules)) = FLOW_QUEUE (of_nat (w mod 64))"
proof -
  have n: "unat n < 2 ^ 16" using u16_bound[of n] by simp
  have st: "steered (queue_rule (of_nat q)) h \<longleftrightarrow> q mod 64 = w mod 64" if "q < unat n" for q
    using that n assms(4) by (intro steered_iff) (simp_all add: assms(5) prefill_ip_def prefill_header_def IPPROTO_NETCCL_def)
  have rules: "rules = drop_rule # map (\<lambda>q. queue_rule (of_nat q)) [0..<unat n]"
    using flow_init_creates[OF assms(1,2)] assms(3,4) by simp
  have "filter ((\<lambda>r. flow_priority r = 0 \<and> steered r h) \<circ> (\<lambda>q. queue_rule (of_nat q))) [0..<unat n]
    = filter (\<lambda>q. q mod 64 = w mod 64) [0..<unat n]"
    using st by (intro filter_cong) (auto simp: queue_rule_def)
  then have f: "filter (\<lambda>r. flow_priority r = 0 \<and> steered r h) rules
      = map (\<lambda>q. queue_rule (of_nat q)) (filter (\<lambda>q. q mod 64 = w mod 64) [0..<unat n])"
    by (simp add: rules drop_rule_def filter_map)
  have m: "w mod 64 < unat n" using assms(4) mod_less_eq_dividend[of w 64] by linarith
  then have "[0..<unat n] = [0..<w mod 64] @ (w mod 64) # [Suc (w mod 64)..<unat n]"
    using upt_add_eq_append[of 0 "w mod 64" "unat n - w mod 64"] by (simp add: upt_conv_Cons)
  moreover have "filter (\<lambda>q. q mod 64 = w mod 64) [0..<w mod 64] = []"
    by (auto simp: filter_empty_conv)
  ultimately have "hd (filter (\<lambda>q. q mod 64 = w mod 64) [0..<unat n]) = w mod 64"
    "filter (\<lambda>q. q mod 64 = w mod 64) [0..<unat n] \<noteq> []" by simp_all
  with f show ?thesis by (simp add: hd_map queue_rule_def)
qed

theorem flow_rules_collide_witness:
  "filter (\<lambda>r. flow_priority r = 0 \<and> steered r (prefill_ip 0 64)) (snd (snd (flow_init log_flows 66 (True, []))))
    = [queue_rule 0, queue_rule 64]"
proof -
  have "\<forall>r d. flow_create log_flows r d = (True, d @ [r])" by (simp add: flow_create_def log_flows_def)
  moreover obtain x dr rules where "flow_init log_flows 66 (True, []) = (x, dr, rules)" by (metis prod_cases3)
  moreover have "filter (\<lambda>q. q mod 64 = 64 mod 64) [0..<unat (66 :: u16)] = [0, 64 :: nat]"
    by (simp add: upt_conv_Cons)
  ultimately show ?thesis using flow_rules_collide[of log_flows "\<lambda>_. True" 66 x dr rules 64 "prefill_ip 0 64" 0] by simp
qed

end
