(* ===== verification/WorkerSystem.thy ===== *)
theory WorkerSystem
  imports WorkerTurn Setup
begin

text \<open>
  The worker as a system: turns of its loop, between which the load balancer posts
  sub-operations and collects answers; and that no piece of work is lost, repeated or reordered.
\<close>

subsection \<open>The worker between the load balancer and the card\<close>

text \<open>
  A worker's life: turns of \<open>worker_loop\<close> at any times, between which the load balancer posts
  sub-operations to the worker's queue pair and collects the answers. \<open>posted\<close> and \<open>got\<close> record what the
  pair accepted and what was collected.
\<close>

record ('q, 'n) worker_sys =
  worker :: "('q, 'n) worker"
  log_ts :: u32
  posted :: "ptr list"
  got :: "ptr list"

inductive worker_step :: "('q, 'n) wenv \<Rightarrow> u32 \<Rightarrow> ('q, 'n) worker_sys \<Rightarrow> ('q, 'n) worker_sys \<Rightarrow> bool"
  for E :: "('q, 'n) wenv" and base :: u32 where
  turn: "worker_turn E base now (log_ts t, worker t) = Some (l, s) \<Longrightarrow>
    worker_step E base t (t\<lparr>worker := s, log_ts := l\<rparr>)"
| post: "push_req (sub_q E) QUEUE_SIZE a (wqp (worker t)) = Some (b, q) \<Longrightarrow>
    worker_step E base t (t\<lparr>worker := (worker t)\<lparr>wqp := q\<rparr>, posted := posted t @ (if b then [a] else [])\<rparr>)"
| collect: "front_resp (sub_q E) (wqp (worker t)) = Some a \<Longrightarrow> pop_resp (sub_q E) (wqp (worker t)) = Some q \<Longrightarrow>
    worker_step E base t (t\<lparr>worker := (worker t)\<lparr>wqp := q\<rparr>, got := got t @ [a]\<rparr>)"

inductive worker_reach :: "('q, 'n) wenv \<Rightarrow> u32 \<Rightarrow> ('q, 'n) worker \<Rightarrow> ('q, 'n) worker_sys \<Rightarrow> bool"
  for E :: "('q, 'n) wenv" and base :: u32 and s0 :: "('q, 'n) worker" where
  start: "worker_reach E base s0 \<lparr>worker = s0, log_ts = 0, posted = [], got = []\<rparr>"
| step: "worker_reach E base s0 t \<Longrightarrow> worker_step E base t t' \<Longrightarrow> worker_reach E base s0 t'"

definition pieces :: "('q, 'n) wenv \<Rightarrow> ptr list \<Rightarrow> seg list" where
  "pieces E subs = concat (map (\<lambda>a. segs a (sub_at E a)) subs)"

definition lasts :: "seg list \<Rightarrow> ptr list" where
  "lasts ps = map fst (filter (\<lambda>(_, _, _, l). l) ps)"

lemma lasts_append [simp]: "lasts (ps @ qs) = lasts ps @ lasts qs"
  by (simp add: lasts_def)

lemma lasts_seg_of: "lasts (map seg_of w) = map ps_sub_op (filter is_last w)"
  by (simp add: lasts_def filter_map comp_def seg_of_def)

lemma lasts_segs: "lasts (segs a sub) = [a]"
proof -
  have "filter (\<lambda>k. k + 1 = n) [0..<n] = [n - 1]" if "0 < n" for n :: nat
    using that by (induction n) (auto simp: filter_empty_conv)
  from this[of "seg_count sub"] show ?thesis
    by (simp add: lasts_def segs_def filter_map comp_def seg_at_def)
qed

lemma lasts_pieces: "lasts (pieces E subs) = subs"
  by (induction subs) (simp_all add: pieces_def lasts_segs, simp add: lasts_def)

text \<open>
  The ledger: the pieces of everything posted are those done, in order, then those in the window, then
  those to be made; what was answered are the sub-operations whose last piece is done.
\<close>

definition ledger :: "('q, 'n) wenv \<Rightarrow> ('q \<Rightarrow> ptr list) \<Rightarrow> ('q, 'n) worker_sys \<Rightarrow> seg list \<Rightarrow> bool" where
  "ledger E contents t finished \<longleftrightarrow>
     pieces E (posted t) = finished @ map seg_of (window (worker t)) @ rest E contents (worker t)
   \<and> got t @ contents (cq (wqp (worker t))) = lasts finished"

context worker_env begin

definition sys_ok :: "('q, 'n) worker_sys \<Rightarrow> bool" where
  "sys_ok t \<longleftrightarrow> ok (worker t) \<and> (\<exists>finished. ledger E contents t finished) \<and> set (work (worker t)) \<subseteq> set (posted t)"

lemma seg_map: "list_all2 (\<lambda>x y. seg_of y = seg_of x \<and> (acked x \<longrightarrow> acked y)) xs ys \<Longrightarrow> map seg_of ys = map seg_of xs"
  by (auto simp: list_all2_conv_all_nth intro!: nth_equalityI)

lemma uniform_mono: "uniform E A \<Longrightarrow> B \<subseteq> A \<Longrightarrow> uniform E B"
  unfolding uniform_def by blast

text \<open>A change of the queue pair by the load balancer.\<close>

lemma wqp_change_ok:
  assumes ok: "ok s" and q: "sq.ok h q" "h = length (filter is_last (window s))"
    and w: "contents (wq q) = work s @ es"
  shows "ok (s\<lparr>wqp := q\<rparr>)"
proof -
  have c: "cur_ok E contents (s\<lparr>wqp := q\<rparr>)"
    using okD(1)[OF ok] w by (auto simp: winv_def cur_ok_def hd_append)
  have n: "next_psn (s\<lparr>wqp := q\<rparr>) = next_psn s" by (simp add: next_psn_def split: option.split)
  have "winv E contents (in_flight s) (s\<lparr>wqp := q\<rparr>)"
  proof -
    have f: "to_ack (s\<lparr>wqp := q\<rparr>) = to_ack s" "win (s\<lparr>wqp := q\<rparr>) = win s" "wqp (s\<lparr>wqp := q\<rparr>) = q"
      "current_group_id (s\<lparr>wqp := q\<rparr>) = current_group_id s" by simp_all
    show ?thesis 
      using okD(1)[OF ok] c q(1) unfolding winv_def n q(2) slots_update f
      by (-, elim conjE, intro conjI) assumption+
  qed
  then show ?thesis using ok by (simp add: wok_def)
qed

lemma post_effect:
  assumes ok: "ok s" and p: "push_req (sub_q E) QUEUE_SIZE a (wqp s) = Some (b, q)"
  shows "ok (s\<lparr>wqp := q\<rparr>)" "todo (s\<lparr>wqp := q\<rparr>) = todo s @ pieces E (if b then [a] else [])"
    "contents (wq q) = work s @ (if b then [a] else [])" "cq q = cq (wqp s)"
proof -
  have "sq.ok (length (filter is_last (window s))) (wqp s)" using okD(1)[OF ok] by (simp add: winv_def)
  then obtain b' q' where p': "push_req (sub_q E) QUEUE_SIZE a (wqp s) = Some (b', q')"
    "sq.ok (length (filter is_last (window s))) q'"
    "cq q' = cq (wqp s)" "contents (wq q') = work s @ (if b' then [a] else [])"
    by (rule sq.push_req_total[of _ _ a])
  have eq: "b' = b" "q' = q" using p p'(1) by simp_all
  note p' = p'[unfolded eq]
  show "contents (wq q) = work s @ (if b then [a] else [])" "cq q = cq (wqp s)" by (rule p')+
  show "ok (s\<lparr>wqp := q\<rparr>)" by (rule wqp_change_ok[OF ok p'(2) refl p'(4)])
  show "todo (s\<lparr>wqp := q\<rparr>) = todo s @ pieces E (if b then [a] else [])"
  proof (cases "cur_sub s")
    case None
    then show ?thesis using p'(4) by (simp add: rest_def pieces_def)
  next
    case (Some c)
    have cur: "work s \<noteq> []" "hd (work s) = c" "unat (pkt_sent s) < seg_count (sub_at E c)"
      using okD(1)[OF ok] Some by (auto simp: winv_def cur_ok_def)
    then obtain es where es: "work s = c # es" by (cases "work s") auto
    show ?thesis using Some p'(4) es cur(3) by (simp add: rest_def pieces_def)
  qed
qed

lemma collect_effect_ok:
  assumes ok: "ok s" and f: "front_resp (sub_q E) (wqp s) = Some a" and p: "pop_resp (sub_q E) (wqp s) = Some q"
  shows "ok (s\<lparr>wqp := q\<rparr>)" "todo (s\<lparr>wqp := q\<rparr>) = todo s" "wq q = wq (wqp s)"
    "sq.answers (wqp s) = a # sq.answers q"
proof -
  have h: "sq.ok (length (filter is_last (window s))) (wqp s)" using okD(1)[OF ok] by (simp add: winv_def)
  obtain es where es: "sq.answers (wqp s) = a # es"
    using f by (auto simp: sq.front_resp_eq split: list.splits)
  from h es obtain q' where p': "pop_resp (sub_q E) (wqp s) = Some q'"
    "sq.ok (length (filter is_last (window s))) q'" "sq.answers q' = es" "wq q' = wq (wqp s)"
    by (rule sq.pop_resp_cons)
  have eq: "q' = q" using p'(1) p by simp
  note p' = p'[unfolded eq]
  have "contents (wq q) = work s @ []" using p'(4) by simp
  from wqp_change_ok[OF ok p'(2) refl this] show "ok (s\<lparr>wqp := q\<rparr>)" .
  show "todo (s\<lparr>wqp := q\<rparr>) = todo s" using p'(4) by (simp add: rest_def Let_def split: option.split)
  show "wq q = wq (wqp s)" "sq.answers (wqp s) = a # sq.answers q" using p' es by simp_all
qed

lemma step_ok:
  assumes "worker_step E base t t'" "sys_ok t" "uniform E (set (posted t'))"
  shows "sys_ok t'"
  using assms(1)
proof cases
  case (turn now l s)
  have ok: "ok (worker t)" using assms(2) by (simp add: sys_ok_def)
  obtain fin where fin: "ledger E contents t fin" using assms(2) by (auto simp: sys_ok_def)
  have u: "uniform E (set (work (worker t)))"
  proof -
    have "posted t' = posted t" using turn(1) by simp
    moreover have "set (work (worker t)) \<subseteq> set (posted t)" using assms(2) unfolding sys_ok_def by blast
    ultimately show ?thesis using uniform_mono[OF assms(3)] by metis
  qed
  from turn_effect[OF turn(2) ok u] obtain w new where e: "ok s"
    "list_all2 (\<lambda>x y. seg_of y = seg_of x \<and> (acked x \<longrightarrow> acked y)) (window (worker t)) w"
    "window s = dropWhile acked w @ new" "todo (worker t) = map seg_of new @ todo s"
    "sq.answers (wqp s) = sq.answers (wqp (worker t)) @ map ps_sub_op (filter is_last (takeWhile acked w))"
    "set (work s) \<subseteq> set (work (worker t))" by blast
  have "map seg_of (window (worker t)) = map seg_of (takeWhile acked w) @ map seg_of (dropWhile acked w)"
    using seg_map[OF e(2)] by (metis map_append takeWhile_dropWhile_id)
  then have "ledger E contents t' (fin @ map seg_of (takeWhile acked w))"
    using fin e(3-5) turn(1) by (simp add: ledger_def lasts_seg_of)
  then show ?thesis using e(1,6) assms(2) turn(1) by (auto simp: sys_ok_def)
next
  case (post a b q)
  have ok: "ok (worker t)" using assms(2) by (simp add: sys_ok_def)
  note Q = post_effect[OF ok post(2)]
  obtain fin where fin: "ledger E contents t fin" using assms(2) by (auto simp: sys_ok_def)
  have "ledger E contents t' fin"
    using fin Q(2,4) post(1) by (auto simp: ledger_def pieces_def)
  then show ?thesis using Q(1,3) assms(2) post(1) by (auto simp: sys_ok_def)
next
  case (collect a q)
  have ok: "ok (worker t)" using assms(2) by (simp add: sys_ok_def)
  note Q = collect_effect_ok[OF ok collect(2,3)]
  obtain fin where fin: "ledger E contents t fin" using assms(2) by (auto simp: sys_ok_def)
  have "ledger E contents t' fin"
    using fin Q(2,4) collect(1) by (auto simp: ledger_def)
  then show ?thesis using Q(1,3) assms(2) collect(1) by (auto simp: sys_ok_def)
qed

lemma start_ok:
  assumes "new_worker prefill raws q n m = Some s" "length raws = MAX_WIN_LEN" "contents q = []"
    and s': "s' = snd (worker_loop_init now lb s)"
  shows "ok s' \<and> in_flight s' = 0 \<and> todo s' = [] \<and> work s' = [] \<and> sq.answers (wqp s') = [] \<and> cur_sub s' = None"
proof -
  obtain pb :: "pkt process_buffer" where pb: "queue_process_buffer (of_nat MAX_PKT_BURST) (of_nat MAX_PKT_BURST) = Some pb" "pb_ok pb"
    by (rule pb_ok_init[of "of_nat MAX_PKT_BURST" "of_nat MAX_PKT_BURST"]) (simp_all add: MAX_PKT_BURST_def)
  have cc: "cc_ok cc_init" by (rule cc_init_ok)
  have s: "to_ack s' = 0" "to_send s' = 0" "wqp s' = empty_pair q" "pbuf s' = pb" "cc s' = cc_init"
    "cur_sub s' = None" "cwnd_achieved s' = False" "length (win s') = MAX_WIN_LEN"
    using assms(1,2) pb(1) by (auto simp: new_worker_def s' worker_loop_init_def get_time_stamp_def Let_def)
  have "winv E contents 0 s'"
    using s assms(3) by (simp add: winv_def cur_ok_def empty_pair_def qp_ok_def MAX_WIN_LEN_def)
  then show ?thesis using s pb(2) cc assms(3)
    by (simp add: wok_def rest_def empty_pair_def MAX_WIN_LEN_def)
qed

lemma posted_grows: "worker_step E base t t' \<Longrightarrow> set (posted t) \<subseteq> set (posted t')"
  by (auto elim: worker_step.cases)

lemma reach_ok:
  assumes "worker_reach E base s0 t" "uniform E (set (posted t))"
    and "new_worker prefill raws q n m = Some s" "length raws = MAX_WIN_LEN" "contents q = []"
    and "(base', s0) = worker_loop_init now lb s"
  shows "sys_ok t"
  using assms(1,2)
proof induction
  case start
  have "s0 = snd (worker_loop_init now lb s)" using assms(6) by (metis snd_conv)
  from start_ok[OF assms(3-5) this] show ?case
    by (simp add: sys_ok_def ledger_def pieces_def lasts_def)
next
  case (step t t')
  have "uniform E (set (posted t))" using uniform_mono[OF step.prems posted_grows[OF step.hyps(2)]] .
  then have "sys_ok t" by (rule step.IH)
  then show ?case by (rule step_ok[OF step.hyps(2) _ step.prems])
qed

end

end
