(* ===== verification/WorkerBooks.thy ===== *)
theory WorkerBooks
  imports WorkerSystem
begin

text \<open>
  What a turn of a worker does to the memory, and what of the environment its state depends on: the
  facts about a worker that its neighbours need.
\<close>

subsection \<open>The bytes a turn may write\<close>

text \<open>\<open>x\<close> is one of the \<open>n\<close> bytes from \<open>d\<close> on.\<close>

definition inside :: "u64 \<Rightarrow> u32 \<Rightarrow> u64 \<Rightarrow> bool" where
  "inside d n x \<longleftrightarrow> unat (x - d) < unat n"

definition writes_window :: "('q, 'n) worker \<Rightarrow> ('q, 'n) worker \<Rightarrow> bool" where
  "writes_window s s' \<longleftrightarrow> (\<forall>x. shm s' x \<noteq> shm s x \<longrightarrow> (\<exists>st\<in>set (window s). inside (ps_data st) (ps_size st) x))"

lemma store_payload_inside: "store_payload op st pkt m x \<noteq> m x \<Longrightarrow> inside (ps_data st) (ps_size st) x"
  by (auto simp: store_payload_def mem_write_def inside_def split: if_splits)

lemma writes_window_refl: "shm s' = shm s \<Longrightarrow> writes_window s s'"
  by (simp add: writes_window_def)

lemma rx_rel_slot:
  assumes "rx_rel s s'" "st \<in> set (window s')"
  obtains st0 where "st0 \<in> set (window s)" "seg_of st0 = seg_of st"
  using assms unfolding rx_rel_def list_all2_conv_all_nth by (metis in_set_conv_nth)

lemma writes_window_trans:
  assumes "writes_window s s1" "writes_window s1 s2" "rx_rel s s1"
  shows "writes_window s s2"
  unfolding writes_window_def
proof (intro allI impI)
  fix x assume x: "shm s2 x \<noteq> shm s x"
  show "\<exists>st\<in>set (window s). inside (ps_data st) (ps_size st) x"
  proof (cases "shm s1 x = shm s x")
    case True
    with x have "shm s2 x \<noteq> shm s1 x" by simp
    with assms(2) obtain st where st: "st \<in> set (window s1)" "inside (ps_data st) (ps_size st) x"
      unfolding writes_window_def by blast
    from assms(3) st(1) obtain st0 where "st0 \<in> set (window s)" "seg_of st0 = seg_of st" by (rule rx_rel_slot)
    moreover from this(2) st(2) have "inside (ps_data st0) (ps_size st0) x" by (simp add: seg_of_def)
    ultimately show ?thesis by blast
  next
    case False
    with assms(1) show ?thesis unfolding writes_window_def by blast
  qed
qed

context worker_env begin

lemma rx_one_writes:
  assumes "ok s" "rx_process_one E pkt s = Some s'"
  shows "writes_window s s'"
proof (cases "\<exists>i. answer_for s pkt i")
  case True
  then obtain i where i: "answer_for s pkt i" by blast
  have "window s ! i \<in> set (window s)" using i by (intro nth_mem) (simp add: answer_for_def)
  moreover have "shm s' = shm s \<or> shm s' = store_payload (op_of (window s ! i)) (window s ! i) pkt (shm s)"
    using rx_one_hit[OF assms(1) i assms(2)] by presburger
  then have "inside (ps_data (window s ! i)) (ps_size (window s ! i)) x" if "shm s' x \<noteq> shm s x" for x
    using that store_payload_inside[of _ "window s ! i" pkt "shm s" x] by (elim disjE) simp_all
  ultimately show ?thesis unfolding writes_window_def by blast
next
  case False
  with rx_one_miss[OF assms(1) _ assms(2)] show ?thesis by (blast intro: writes_window_refl)
qed

lemma rx_loop_writes:
  assumes "rx_loop E s = Some s'" "ok s"
  shows "writes_window s s'"
proof -
  have "E = E \<longrightarrow> ok s \<longrightarrow> writes_window s s'"
  proof (rule rx_loop.raw_induct[where P = "\<lambda>E' s s'. E' = E \<longrightarrow> ok s \<longrightarrow> writes_window s s'", OF _ assms(1)], intro impI)
    fix rl :: "('q, 'n) wenv \<Rightarrow> ('q, 'n) worker \<Rightarrow> ('q, 'n) worker option" and E' s s'
    assume IH: "\<And>E' s s'. rl E' s = Some s' \<Longrightarrow> E' = E \<longrightarrow> ok s \<longrightarrow> writes_window s s'"
      and eq: "(case poll E' s of
        (None, s) \<Rightarrow> Some s
      | (Some p, s) \<Rightarrow> Option.bind (rx_process_one E' (contents_of s p) s) (\<lambda>s.
          let s = s\<lparr>pbuf := drop_pkt (pbuf s)\<rparr> in
          if rx_sw_buffered_pkt_cnt (pbuf s) = 0
             \<and> rx_hw_buffered_pkt_cnt (net E') (card_st s) < of_nat MAX_PKT_BURST
          then Some s else rl E' s)) = Some s'"
      and E: "E' = E" and ok: "ok s"
    obtain r s1 where p: "poll E s = (r, s1)" by fastforce
    note P = poll_effect[OF p okD(4)[OF ok]]
    have 1: "ok s1" "rx_rel s s1" "writes_window s s1"
      using P same_ok_ok(1)[of s s1] ok same_ok_rx_rel[of s s1] writes_window_refl[of s1 s] by blast+
    show "writes_window s s'"
    proof (cases r)
      case None
      with eq p E 1 show ?thesis by simp
    next
      case (Some q)
      with eq p E obtain s2 where s2: "rx_process_one E (contents_of s1 q) s1 = Some s2"
        by (auto split: bind_splits)
      let ?s3 = "s2\<lparr>pbuf := drop_pkt (pbuf s2)\<rparr>"
      have 2: "ok s2" "rx_rel s s2" "writes_window s s2"
        using rx_one_effect[OF 1(1) s2] rx_rel_trans[OF 1(2)] writes_window_trans[OF 1(3) rx_one_writes[OF 1(1) s2] 1(2)] by blast+
      note D = drop_same_ok[OF 2(1)]
      have 3: "ok ?s3" "rx_rel s ?s3" "writes_window s ?s3"
        using D same_ok_ok(1)[of s2 ?s3] 2 same_ok_rx_rel[of s2 ?s3] rx_rel_trans[OF 2(2)]
          writes_window_trans[OF 2(3) writes_window_refl[of ?s3 s2] 2(2)] by (blast, blast, simp)
      have "s' = ?s3 \<or> rl E ?s3 = Some s'"
        using eq p E Some s2 by (auto simp: Let_def split: if_splits)
      then show ?thesis
      proof
        assume "s' = ?s3" with 3 show ?thesis by simp
      next
        assume "rl E ?s3 = Some s'"
        from IH[OF this] 3(1) have "writes_window ?s3 s'" by simp
        from writes_window_trans[OF 3(3) this 3(2)] show ?thesis .
      qed
    qed
  qed
  with assms(2) show ?thesis by simp
qed

lemma turn_writes:
  assumes ret: "worker_turn E base now (l, s) = Some (l', s')" and ok: "ok s" and u: "uniform E (set (work s))"
  shows "writes_window s s'"
proof -
  from turn_cases[OF ret ok] obtain s1 s2 s3' s4 where so1: "same_ok s s1" "pb_ok (pbuf s1)" "wqp s1 = wqp s" "shm s1 = shm s"
    and s2: "rx_loop E s1 = Some s2" and s3': "shift_ack E s2 = Some s3'" and s4': "tx_process E s3' = Some s4"
    and s': "s' = congestion_control s4 \<or> s' = reset_stats (congestion_control s4)" by metis
  note S1 = same_ok_ok[OF so1(1,2)]
  note R = rx_loop_effect[OF s2 S1(1)[OF ok]]
  obtain s3 where s3: "shift_ack E s2 = Some s3" "ok s3" "wq (wqp s3) = wq (wqp s2)"
    and eq3: "s3 = s2\<lparr>wqp := wqp s3, stats := stats s3, to_ack := to_ack s3, left_psn := left_psn s3\<rparr>"
    using shift_ack_effect[of s2] R by blast
  have s4: "tx_process E s3 = Some s4" using s3(1) s3' s4' by simp
  have "work s3 = work s" using R s3(3) so1(3) by (simp add: rx_rel_def)
  then have "uniform E (set (work s3))" using u by simp
  from tx_process_effect[OF s4 s3(2) this] have s5: "ok s4" "shm s4 = shm s3" by blast+
  have "shm s' = shm s4"
    using s' congestion_control_ok[OF s5(1)] by (auto simp: reset_stats_def)
  also have "\<dots> = shm s2" using s5(2) by (subst (asm) eq3) simp
  finally have "shm s' = shm s2" .
  moreover have "writes_window s s2"
    using rx_loop_writes[OF s2 S1(1)[OF ok]] so1(4) S1(2) by (simp add: writes_window_def)
  ultimately show ?thesis by (simp add: writes_window_def)
qed

end

subsection \<open>What of the environment matters\<close>

text \<open>Two environments that agree on the sub-operations \<open>A\<close> and the operations they belong to.\<close>

definition agree :: "('q, 'n) wenv \<Rightarrow> ('q, 'n) wenv \<Rightarrow> ptr set \<Rightarrow> bool" where
  "agree E E' A \<longleftrightarrow> (\<forall>a\<in>A. sub_at E' a = sub_at E a \<and> op_at E' (sub_op (sub_at E a)) = op_at E (sub_op (sub_at E a)))"

lemma agree_mono: "agree E E' A \<Longrightarrow> B \<subseteq> A \<Longrightarrow> agree E E' B"
  by (auto simp: agree_def)

lemma wok_agree:
  assumes ok: "wok E contents s" and a: "agree E E' (set (contents (wq (wqp s))))"
  shows "wok E' contents s"
proof -
  have "cur_ok E' contents s" if "cur_ok E contents s"
    unfolding cur_ok_def
  proof (intro allI impI)
    fix c assume c: "cur_sub s = Some c"
    with that have h: "contents (wq (wqp s)) \<noteq> []" "hd (contents (wq (wqp s))) = c" by (simp_all add: cur_ok_def)
    then have "c \<in> set (contents (wq (wqp s)))" by (metis hd_in_set)
    with a have "sub_at E' c = sub_at E c" "sub_group E' c = sub_group E c" by (simp_all add: agree_def sub_group_def)
    with that c h show "contents (wq (wqp s)) \<noteq> [] \<and> hd (contents (wq (wqp s))) = c \<and> sub_group E' c = current_group_id s
      \<and> pkt_cnt s = of_nat (seg_count (sub_at E' c)) \<and> unat (pkt_sent s) < seg_count (sub_at E' c)
      \<and> group_psn s (current_group_id s) = start_psn s + pkt_cnt s" by (simp add: cur_ok_def)
  qed
  with ok show ?thesis by (simp add: wok_def winv_def)
qed

lemma pieces_agree: "agree E E' (set xs) \<Longrightarrow> pieces E' xs = pieces E xs"
  by (simp add: pieces_def agree_def cong: map_cong)

lemma rest_pieces: "rest E contents s = (let todo = pieces E (contents (wq (wqp s)))
    in case cur_sub s of None \<Rightarrow> todo | Some a \<Rightarrow> drop (unat (pkt_sent s)) todo)"
  by (simp add: rest_def pieces_def)

lemma rest_agree: "agree E E' (set (contents (wq (wqp s)))) \<Longrightarrow> rest E' contents s = rest E contents s"
  by (simp add: rest_pieces pieces_agree)

subsection \<open>The books of a worker\<close>

text \<open>What the worker has taken out and not answered: the sub-operations whose last packet is in the window.\<close>

definition held_subs :: "('q, 'n) worker \<Rightarrow> ptr list" where
  "held_subs s = map ps_sub_op (filter is_last (window s))"

definition owed_by :: "('q \<Rightarrow> ptr list) \<Rightarrow> ('q, 'n) worker \<Rightarrow> ptr list" where
  "owed_by contents s = contents (cq (wqp s)) @ held_subs s @ contents (wq (wqp s))"

text \<open>
  The pieces of what a worker owes are those done, then those in the window, then those to be made;
  the answers that wait are those whose last piece is done.
\<close>

definition books_ok :: "('q, 'n) wenv \<Rightarrow> ('q \<Rightarrow> ptr list) \<Rightarrow> ('q, 'n) worker \<Rightarrow> bool" where
  "books_ok E contents s \<longleftrightarrow> (\<exists>fin. pieces E (owed_by contents s) = fin @ map seg_of (window s) @ rest E contents s
     \<and> lasts fin = contents (cq (wqp s)))"

lemma held_lasts: "held_subs s = lasts (map seg_of (window s))"
  by (simp add: held_subs_def lasts_seg_of)

lemma lasts_drop_segs:
  assumes "k < seg_count sub"
  shows "lasts (drop k (segs a sub)) = [a]"
proof -
  have "filter (\<lambda>i. i + 1 = n) [k..<n] = [n - 1]" if "k < n" for k n :: nat
    using that by (induction n) (auto simp: filter_empty_conv le_less_Suc_eq)
  from this[OF assms] show ?thesis
    by (simp add: lasts_def segs_def drop_map filter_map comp_def seg_at_def)
qed

lemma pieces_Cons [simp]: "pieces E (a # as) = segs a (sub_at E a) @ pieces E as"
  by (simp add: pieces_def)

lemma pieces_Nil [simp]: "pieces E [] = []"
  by (simp add: pieces_def)

lemma pieces_append [simp]: "pieces E (as @ bs) = pieces E as @ pieces E bs"
  by (simp add: pieces_def)

text \<open>Taking the oldest answer away takes the pieces of its sub-operation away.\<close>

lemma done_head:
  assumes eq: "segs a sub @ xs = fin @ ys" and l: "lasts fin = a # as"
  obtains fin' where "xs = fin' @ ys" "lasts fin' = as"
proof -
  from eq obtain us where "fin = segs a sub @ us \<and> xs = us @ ys \<or> segs a sub = fin @ us \<and> us @ xs = ys"
    by (auto simp: append_eq_append_conv2)
  then show ?thesis
  proof (elim disjE conjE)
    assume "fin = segs a sub @ us" "xs = us @ ys"
    with l show ?thesis by (intro that[of us]) (simp_all add: lasts_segs)
  next
    assume s: "segs a sub = fin @ us" "us @ xs = ys"
    have "a # as @ lasts us = [a]" using arg_cong[OF s(1), of lasts] l by (simp add: lasts_segs)
    then have u: "as = []" "lasts us = []" by simp_all
    have "us = drop (length fin) (segs a sub)" using s(1) by simp
    then have "us = []" using u(2) lasts_drop_segs[of "length fin" sub a] by (cases "length fin < seg_count sub") simp_all
    with s u show ?thesis by (intro that[of "[]"]) (simp_all add: lasts_def)
  qed
qed

text \<open>A piece lies within its slice.\<close>

lemma piece_inside:
  assumes "(a, d, z, l) \<in> set (segs a' sub)" "inside d z x"
  shows "inside (sub_data sub) (sub_size sub) x"
proof -
  from assms(1) obtain k where s: "k < seg_count sub" "(a, d, z, l) = seg_at a' sub k" by (auto simp: segs_def)
  then have k: "k < seg_count sub" "d = sub_data sub + of_nat (PAYLOAD_SIZE * k)"
    "z = of_nat (min PAYLOAD_SIZE (unat (sub_size sub) - PAYLOAD_SIZE * k))" by (simp_all add: seg_at_def)
  have z: "unat z = min PAYLOAD_SIZE (unat (sub_size sub) - PAYLOAD_SIZE * k)"
    unfolding k(3) by (intro unat_of_nat_small) (simp add: const_defs)
  note b = seg_offset_bound[OF k(1)]
  have o: "unat (of_nat (PAYLOAD_SIZE * k) :: u64) = PAYLOAD_SIZE * k"
    using b u32_bound[of "sub_size sub"] by (intro unat_of_nat_small) simp
  have lt: "unat (x - d) + PAYLOAD_SIZE * k < unat (sub_size sub)" using assms(2) z by (simp add: inside_def less_diff_conv)
  have "x - sub_data sub = (x - d) + of_nat (PAYLOAD_SIZE * k)" by (simp add: k(2))
  also have "unat \<dots> = unat (x - d) + PAYLOAD_SIZE * k"
    using lt u32_bound[of "sub_size sub"] o by (subst unat_add_small) simp_all
  finally show ?thesis using lt by (simp add: inside_def)
qed

lemma window_inside:
  assumes b: "books_ok E contents s" and st: "st \<in> set (window s)" and x: "inside (ps_data st) (ps_size st) x"
  obtains a where "a \<in> set (owed_by contents s)" "inside (sub_data (sub_at E a)) (sub_size (sub_at E a)) x"
proof -
  have "seg_of st \<in> set (pieces E (owed_by contents s))" using b st by (auto simp: books_ok_def)
  then obtain a where "a \<in> set (owed_by contents s)" "seg_of st \<in> set (segs a (sub_at E a))"
    by (auto simp: pieces_def)
  with piece_inside[of "ps_sub_op st" "ps_data st" "ps_size st" "is_last st"] x show ?thesis
    by (intro that[of a]) (simp_all add: seg_of_def)
qed

lemma books_agree:
  assumes "books_ok E contents s" "agree E E' (set (owed_by contents s))"
  shows "books_ok E' contents s"
proof -
  have "agree E E' (set (contents (wq (wqp s))))" using assms(2) by (rule agree_mono) (auto simp: owed_by_def)
  with assms show ?thesis by (simp add: books_ok_def pieces_agree rest_agree)
qed

context worker_env begin

lemma lasts_rest:
  assumes "ok s"
  shows "lasts (todo s) = work s"
proof (cases "cur_sub s")
  case None
  then show ?thesis by (simp add: rest_pieces lasts_pieces)
next
  case (Some c)
  have cur: "work s \<noteq> []" "hd (work s) = c" "unat (pkt_sent s) < seg_count (sub_at E c)"
    using okD(1)[OF assms] Some by (auto simp: winv_def cur_ok_def)
  then obtain es where es: "work s = c # es" by (cases "work s") auto
  with Some cur(3) show ?thesis by (simp add: rest_pieces lasts_pieces lasts_drop_segs)
qed

text \<open>New work at the end of the queue comes after everything that is to be made.\<close>

lemma rest_more:
  assumes "ok s" "contents (wq q) = work s @ es"
  shows "todo (s\<lparr>wqp := q\<rparr>) = todo s @ pieces E es"
proof (cases "cur_sub s")
  case None
  then show ?thesis using assms(2) by (simp add: rest_pieces)
next
  case (Some c)
  have cur: "work s \<noteq> []" "hd (work s) = c" "unat (pkt_sent s) < seg_count (sub_at E c)"
    using okD(1)[OF assms(1)] Some by (auto simp: winv_def cur_ok_def)
  then obtain cs where "work s = c # cs" by (cases "work s") auto
  with Some cur(3) assms(2) show ?thesis by (simp add: rest_pieces)
qed

text \<open>A turn, seen by the load balancer: the worker owes what it owed, with more of it answered.\<close>

lemma turn_books:
  assumes ret: "worker_turn E base now (l, s) = Some (l', s')" and ok: "ok s" and u: "uniform E (set (work s))"
    and b: "books_ok E contents s"
  shows "ok s' \<and> owed_by contents s' = owed_by contents s \<and> books_ok E contents s'"
proof -
  from turn_effect[OF ret ok u] obtain w new where e: "ok s'"
    "list_all2 (\<lambda>x y. seg_of y = seg_of x \<and> (acked x \<longrightarrow> acked y)) (window s) w"
    "window s' = dropWhile acked w @ new" "todo s = map seg_of new @ todo s'"
    "sq.answers (wqp s') = sq.answers (wqp s) @ map ps_sub_op (filter is_last (takeWhile acked w))" by blast
  have w: "map seg_of (window s) = map seg_of (takeWhile acked w) @ map seg_of (dropWhile acked w)"
    using seg_map[OF e(2)] by (metis map_append takeWhile_dropWhile_id)
  have "work s = lasts (map seg_of new) @ work s'"
    using lasts_rest[OF ok] lasts_rest[OF e(1)] unfolding e(4) by simp
  then have "held_subs s @ work s = lasts (map seg_of (takeWhile acked w)) @ held_subs s' @ work s'"
    using e(3) w by (simp add: held_lasts)
  with e(5) have o: "owed_by contents s' = owed_by contents s" by (simp add: owed_by_def lasts_seg_of)
  from b obtain fin where fin: "pieces E (owed_by contents s) = fin @ map seg_of (window s) @ todo s"
    "lasts fin = sq.answers (wqp s)" by (auto simp: books_ok_def)
  have "books_ok E contents s'"
    unfolding books_ok_def o using fin e(3-5) w
    by (intro exI[of _ "fin @ map seg_of (takeWhile acked w)"]) (simp add: lasts_seg_of)
  with e(1) o show ?thesis by blast
qed

text \<open>The load balancer hands in a sub-operation, and takes an answer out.\<close>

lemma give_books:
  assumes ok: "ok s" and b: "books_ok E contents s" and q: "sq.ok (length (held_subs s)) q"
    and c: "cq q = cq (wqp s)" "contents (wq q) = work s @ es"
  shows "ok (s\<lparr>wqp := q\<rparr>) \<and> owed_by contents (s\<lparr>wqp := q\<rparr>) = owed_by contents s @ es \<and> books_ok E contents (s\<lparr>wqp := q\<rparr>)"
proof -
  have h: "held_subs (s\<lparr>wqp := q\<rparr>) = held_subs s" by (simp add: held_subs_def)
  have "ok (s\<lparr>wqp := q\<rparr>)" using wqp_change_ok[OF ok q _ c(2)] by (simp add: held_subs_def)
  moreover have "owed_by contents (s\<lparr>wqp := q\<rparr>) = owed_by contents s @ es" using c h by (simp add: owed_by_def)
  moreover from this b have "books_ok E contents (s\<lparr>wqp := q\<rparr>)"
    using rest_more[OF ok c(2)] c(1) by (auto simp: books_ok_def)
  ultimately show ?thesis by blast
qed

lemma collect_books:
  assumes ok: "ok s" and b: "books_ok E contents s" and q: "sq.ok (length (held_subs s)) q"
    and c: "wq q = wq (wqp s)" "sq.answers (wqp s) = a # contents (cq q)"
  shows "ok (s\<lparr>wqp := q\<rparr>) \<and> owed_by contents s = a # owed_by contents (s\<lparr>wqp := q\<rparr>) \<and> books_ok E contents (s\<lparr>wqp := q\<rparr>)"
proof -
  have h: "held_subs (s\<lparr>wqp := q\<rparr>) = held_subs s" by (simp add: held_subs_def)
  have w: "contents (wq q) = work s @ []" using c(1) by simp
  have "ok (s\<lparr>wqp := q\<rparr>)" using wqp_change_ok[OF ok q _ w] by (simp add: held_subs_def)
  moreover have o: "owed_by contents s = a # owed_by contents (s\<lparr>wqp := q\<rparr>)" using c h by (simp add: owed_by_def)
  moreover have "books_ok E contents (s\<lparr>wqp := q\<rparr>)"
  proof -
    from b o obtain fin where "segs a (sub_at E a) @ pieces E (owed_by contents (s\<lparr>wqp := q\<rparr>))
        = fin @ (map seg_of (window s) @ todo s)" "lasts fin = a # contents (cq q)"
      using c(2) by (auto simp: books_ok_def)
    from done_head[OF this] obtain fin' where "pieces E (owed_by contents (s\<lparr>wqp := q\<rparr>)) = fin' @ map seg_of (window s) @ todo s"
      "lasts fin' = contents (cq q)" by blast
    then show ?thesis using rest_more[OF ok w] by (auto simp: books_ok_def)
  qed
  ultimately show ?thesis by blast
qed

end

end
