(* ===== verification/WorkerLive.thy ===== *)
theory WorkerLive
  imports WorkerSystem
begin

text \<open>
  The handlers return: with a card that does not refuse forever, or in loopback, sending and handling an
  answer end; in loopback a whole turn does.
\<close>

subsection \<open>The handlers return\<close>

text \<open>What a worker needs for its transmissions to return: loopback, or a card that does not refuse forever.\<close>

definition can_send :: "('q, 'n) wenv \<Rightarrow> ('q, 'n) worker \<Rightarrow> bool" where
  "can_send E s \<longleftrightarrow> PACKET_LOOPBACK s \<or> (\<forall>p pb n. pb_ok pb \<longrightarrow> send (net E) p (pb, n) \<noteq> None)"

lemma can_send_live: "live_nic (net E) sent delivered patience \<Longrightarrow> can_send E s"
  using live_nic.send_ends by (fastforce simp: can_send_def)

lemma can_send_loopback: "PACKET_LOOPBACK s \<Longrightarrow> can_send E s"
  by (simp add: can_send_def)

definition unacked :: "('q, 'n) worker \<Rightarrow> nat" where
  "unacked s = length (filter (Not \<circ> acked) (window s))"

context worker_env begin

lemma can_send_cong: "PACKET_LOOPBACK s' = PACKET_LOOPBACK s \<Longrightarrow> can_send E s' = can_send E s"
  by (simp add: can_send_def)

lemma transmit_total: "can_send E s \<Longrightarrow> pb_ok (pbuf s) \<Longrightarrow> \<exists>s'. transmit E p s = Some s'"
  by (auto simp: can_send_def transmit_def)

lemma transmit_range_total:
  assumes "unat b = ring_add a j" "unat e = ring_add a (j + m)" "m < MAX_WIN_LEN" "a < MAX_WIN_LEN"
    "pb_ok (pbuf s)" "can_send E s"
  shows "\<exists>s'. transmit_range E b e s = Some s'"
  using assms
proof (induction m arbitrary: b j s)
  case 0
  then have "b = e" by (simp add: word_unat_eq_iff)
  then show ?case by (simp add: transmit_range.simps[of E])
next
  case (Suc m)
  obtain s1 where s1: "transmit E b s = Some s1" using transmit_total[OF Suc.prems(6,5)] by blast
  note T = transmit_effect[OF s1 Suc.prems(5)]
  have pb: "pb_ok (pbuf s1)" "can_send E s1"
    using T Suc.prems(6) can_send_cong[of s1 s] by (simp_all add: emits_def)
  have nx: "unat (get_next_position b) = ring_add a (Suc j)"
    using unat_next[of b] Suc.prems(1) by simp
  have e: "unat e = ring_add a (Suc j + m)" "m < MAX_WIN_LEN" using Suc.prems(2,3) by simp_all
  from Suc.IH[OF nx e Suc.prems(4) pb] s1 show ?case
    by (auto simp: transmit_range.simps[of E b])
qed

lemma transmit_unacked_total:
  assumes "unat b = ring_add a j" "unat e = ring_add a (j + m)" "m < MAX_WIN_LEN" "a < MAX_WIN_LEN"
    "pb_ok (pbuf s)" "can_send E s"
  shows "\<exists>r. transmit_unacked E b e c s = Some r"
  using assms
proof (induction m arbitrary: b j c s)
  case 0
  then have "b = e" by (simp add: word_unat_eq_iff)
  then show ?case by (simp add: transmit_unacked.simps[of E])
next
  case (Suc m)
  obtain s1 where s1: "transmit E b s = Some s1" using transmit_total[OF Suc.prems(6,5)] by blast
  note T = transmit_effect[OF s1 Suc.prems(5)]
  have pb: "pb_ok (pbuf s1)" "can_send E s1"
    using T Suc.prems(6) can_send_cong[of s1 s] by (simp_all add: emits_def)
  have nx: "unat (get_next_position b) = ring_add a (Suc j)"
    using unat_next[of b] Suc.prems(1) by simp
  have e: "unat e = ring_add a (Suc j + m)" "m < MAX_WIN_LEN" using Suc.prems(2,3) by simp_all
  from Suc.IH[OF nx e Suc.prems(4) pb, of "c + 1"] Suc.IH[OF nx e Suc.prems(4-6), of c] s1 show ?case
    by (auto simp: transmit_unacked.simps[of E b])
qed

lemma collect_total:
  assumes ok: "ok s" and i: "i < in_flight s" and p: "unat p = ring_add (unat (to_ack s)) i" and c: "can_send E s"
  shows "\<exists>s'. collect_retrans E p s = Some s'"
proof -
  let ?r = "lost_run s i" and ?a = "unat (to_ack s)"
  obtain q c where q: "retrans_start s p 0 = Some (q, c)" "unat q = ring_add ?a (i - ?r)" "?r \<le> i"
    using retrans_start_effect[OF ok i p] by blast
  let ?s3 = "s\<lparr>stats := (stats s)\<lparr>fast_retrans_pkt_cnt := fast_retrans_pkt_cnt (stats s) + c,
         fast_retrans_trigger_cnt := fast_retrans_trigger_cnt (stats s) + 1\<rparr>, pkt_loss_flag := True\<rparr>"
  have e: "unat p = ring_add ?a ((i - ?r) + ?r)" using p q(3) by simp
  have lt: "?r < MAX_WIN_LEN" "?a < MAX_WIN_LEN" "pb_ok (pbuf ?s3)"
    using q(3) i okD(2,4,6)[OF ok] by (linarith, simp_all)
  have "can_send E ?s3" using assms(4) can_send_cong[of ?s3 s] by simp
  from transmit_range_total[OF q(2) e lt this] q(1) show ?thesis by (simp add: collect_retrans_def)
qed

lemma rx_one_total:
  assumes ok: "ok s" and c: "can_send E s"
  shows "\<exists>s'. rx_process_one E pkt s = Some s'"
proof (cases "\<exists>i. answer_for s pkt i")
  case False
  then show ?thesis using rx_one_miss_eq[OF ok, of pkt] by auto
next
  case True
  then obtain i where hit: "answer_for s pkt i" by blast
  define s0 where "s0 = s\<lparr>tos_minitor := tos_minitor s OR type_of_service (ip pkt)\<rparr>"
  have so0: "same_ok s s0" by (simp add: s0_def same_ok_def same_window_def same_core_def)
  have pb0: "pb_ok (pbuf s0)" using okD(4)[OF ok] by (simp add: s0_def)
  note S0 = same_ok_ok[OF so0 pb0]
  have ok0: "ok s0" using S0(1) ok .
  have h: "i < in_flight s0" "get_group_id pkt = current_group_id s0" "get_psn pkt = ps_psn (window s0 ! i)"
    "\<not> acked (window s0 ! i)"
    using hit S0(2) by (simp_all add: answer_for_def s0_def)
  define p where "p = get_position pkt s0"
  have p: "unat p = ring_add (unat (to_ack s0)) i"
    unfolding p_def by (rule get_position_hit[OF ok0 h(1-3)])
  have pv: "p \<noteq> INVALID_POSITION" using p by (intro position_valid) simp
  have na: "\<not> has_acked s0 p" using h(1,4) p by (simp add: has_acked_def slots_nth)
  define s1 where "s1 = mark_acked p s0"
  note M = mark_acked_window[OF ok0 h(1) p, folded s1_def]
  define s2 where "s2 = (if need_rx (op_of (slot s1 p))
     then s1\<lparr>shm := store_payload (op_of (slot s1 p)) (slot s1 p) pkt (shm s1)\<rparr> else s1)"
  have so2: "same_ok s1 s2" by (simp add: s2_def same_ok_def same_window_def same_core_def)
  have io: "pbuf s2 = pbuf s0" "to_ack s2 = to_ack s0" "to_send s2 = to_send s0" "PACKET_LOOPBACK s2 = PACKET_LOOPBACK s"
    by (simp_all add: s2_def s1_def mark_acked_def set_slot_def s0_def)
  have ok2: "ok s2" using same_ok_ok(1)[OF so2] M(2) pb0 io(1) by simp
  have "can_send E s2" using c can_send_cong[OF io(4)] by simp
  then obtain s3 where "collect_retrans E p s2 = Some s3"
    using collect_total[OF ok2, of i p] h(1) p io by auto
  then show ?thesis
    by (simp only: rx_process_one_def Let_def s0_def[symmetric] p_def[symmetric] s1_def[symmetric]
        s2_def[symmetric] pv na if_False) simp
qed

lemma full_retrans_total:
  assumes "ok s" "can_send E s"
  shows "\<exists>s'. full_retrans E s = Some s'"
proof (cases "to_ack s = to_send s")
  case True
  then show ?thesis by (simp add: full_retrans_def)
next
  case False
  note D = okD[OF assms(1)]
  let ?s1 = "s\<lparr>last_ack_time_stamp := global_ts s,
          stats := (stats s)\<lparr>full_retrans_trigger_cnt := full_retrans_trigger_cnt (stats s) + 1\<rparr>\<rparr>"
  have a0: "unat (to_ack s) = ring_add (unat (to_ack s)) 0" "unat (to_send s) = ring_add (unat (to_ack s)) (0 + in_flight s)"
    using D(2,8) by simp_all
  have pb: "pb_ok (pbuf ?s1)" "can_send E ?s1" using D(4) assms(2) can_send_cong[of ?s1 s] by simp_all
  from transmit_unacked_total[OF a0 D(6,2) pb, of 0] False show ?thesis
    by (auto simp: full_retrans_def)
qed

lemma gen_total:
  assumes "win_inv n s" "Suc n < MAX_WIN_LEN" "unat t = ring_add (unat (to_ack s)) n"
    "\<forall>a\<in>set (work s). sub_agg_len (sub_at E a) \<noteq> 0" "burst_ok E contents n s"
  shows "\<exists>r. gen_pkt E t s = Some r"
  by (rule gen_effect[OF assms]) auto

lemma loop_total:
  assumes "win_inv n s" "unat len = n" "unat t = ring_add (unat (to_ack s)) n" "unat expect < MAX_WIN_LEN"
    and "\<forall>a\<in>set (work s). sub_agg_len (sub_at E a) \<noteq> 0"
    and "one_group n s" "pb_ok (pbuf s)" "0 < n \<longrightarrow> left_psn s = ps_psn (slots s (unat (to_ack s)) n ! 0)"
    and "can_send E s"
  shows "\<exists>r. shift_send_loop E expect t len s = Some r"
  using assms
proof (induction "unat expect - unat len" arbitrary: n t len s rule: less_induct)
  case less
  show ?case
  proof (cases "len < expect")
    case False
    then show ?thesis by (simp add: shift_send_loop.simps[of E])
  next
    case True
    then have lt: "unat len < unat expect" by (simp add: word_less_nat_alt)
    have room: "Suc n < MAX_WIN_LEN" using lt less.prems(2,4) by simp
    have inc: "unat (len + 1) = Suc n" using lt less.prems(2) u32_bound[of expect] by (simp add: unat_inc)
    have len0: "len = 0 \<longleftrightarrow> n = 0" using less.prems(2) by (auto simp: unat_eq_0)
    obtain b s1 where g: "gen_pkt E t s = Some (b, s1)"
      using gen_total[OF less.prems(1) room less.prems(3,5) one_group_burst[OF less.prems(6)]] by auto
    show ?thesis
    proof (cases b)
      case False
      with True g show ?thesis by (simp add: shift_send_loop.simps[of E])
    next
      case b: True
      let ?s2 = "if n = 0 then s1\<lparr>left_psn := get_psn (ps_pkt (slot s1 (to_ack s1)))\<rparr> else s1"
      have g': "gen_pkt E t s = Some (True, s1)" using g b by simp
      have "PACKET_LOOPBACK s1 = PACKET_LOOPBACK s \<and> pbuf s1 = pbuf s"
        by (rule gen_effect[OF less.prems(1) room less.prems(3,5) one_group_burst[OF less.prems(6)]])
          (use g' in \<open>auto simp: gen_frame_def\<close>)
      then have pb: "PACKET_LOOPBACK ?s2 = PACKET_LOOPBACK s" "pb_ok (pbuf ?s2)" using less.prems(7) by simp_all
      then obtain s3 where s3: "transmit E t ?s2 = Some s3"
        using transmit_total[of ?s2 t] less.prems(9) can_send_cong[OF pb(1)] by auto
      let ?s4 = "s3\<lparr>stats := (stats s3)\<lparr>shift_send_cnt := shift_send_cnt (stats s3) + 1\<rparr>\<rparr>"
      have eq: "shift_send_loop E expect t len s = shift_send_loop E expect (get_next_position t) (len + 1) ?s4"
        using True g b len0 s3 by (simp add: shift_send_loop.simps[of E expect t])
      from less.prems(1) room less.prems(3,5,6,7,8) g' s3 obtain st where
        st: "burst s n ?s4 [st]" "one_group (Suc n) ?s4"
        by (rule loop_one)
      have B: "win_inv (Suc n) ?s4" "to_ack ?s4 = to_ack s" "set (work ?s4) \<subseteq> set (work s)"
        "pb_ok (pbuf ?s4)" "0 < Suc n \<longrightarrow> left_psn ?s4 = ps_psn (slots ?s4 (unat (to_ack ?s4)) (Suc n) ! 0)"
        "PACKET_LOOPBACK ?s4 = PACKET_LOOPBACK s"
        using st(1) by (auto simp: burst_def Let_def send_frame_def emits_def)
      have a: "unat t < MAX_WIN_LEN" using less.prems(3) by simp
      have t: "unat (get_next_position t) = ring_add (unat (to_ack ?s4)) (Suc n)"
        using B(2) unat_next[OF a] less.prems(3) by simp
      have m: "unat expect - unat (len + 1) < unat expect - unat len" using lt inc less.prems(2) by linarith
      have agg4: "\<forall>a\<in>set (work ?s4). sub_agg_len (sub_at E a) \<noteq> 0" using B(3) less.prems(5) by blast
      have cs: "can_send E ?s4" using less.prems(9) can_send_cong[OF B(6)] by simp
      from less.hyps[OF m B(1) inc t less.prems(4) agg4 st(2) B(4,5) cs] eq show ?thesis by simp
    qed
  qed
qed

lemma tx_process_total:
  assumes ok: "ok s" and u: "uniform E (set (work s))" and c: "can_send E s"
  shows "\<exists>s'. tx_process E s = Some s'"
proof -
  define s1 where "s1 = (if ack_cnt s \<noteq> prev_ack_cnt s
               then s\<lparr>prev_ack_cnt := ack_cnt s, last_ack_time_stamp := global_ts s\<rparr> else s)"
  have so1: "same_ok s s1" "pb_ok (pbuf s1)" "wqp s1 = wqp s" "PACKET_LOOPBACK s1 = PACKET_LOOPBACK s"
    using okD(4)[OF ok] by (simp_all add: s1_def same_ok_def same_window_def same_core_def)
  have ok1: "ok s1" using same_ok_ok(1)[OF so1(1,2) ok] .
  have c1: "can_send E s1" using c can_send_cong[OF so1(4)] by simp
  obtain s2 where s2: "(if TIMEOUT_TIME \<le> global_ts s1 - last_ack_time_stamp s1 then full_retrans E s1 else Some s1) = Some s2"
    "ok s2" "wqp s2 = wqp s1" "can_send E s2"
  proof (cases "TIMEOUT_TIME \<le> global_ts s1 - last_ack_time_stamp s1")
    case True
    obtain s2 where f: "full_retrans E s1 = Some s2" using full_retrans_total[OF ok1 c1] by blast
    have "PACKET_LOOPBACK s2 = PACKET_LOOPBACK s1"
      using full_retrans_effect[OF f ok1] by (auto simp: emits_def)
    with f True full_retrans_effect[OF f ok1] c1 can_send_cong[of s2 s1] show ?thesis
      by (intro that[of s2]) (simp_all add: same_window_def same_core_def)
  next
    case False
    with ok1 c1 show ?thesis by (intro that[of s1]) simp_all
  qed
  note D = okD[OF s2(2)]
  have u2: "uniform E (set (work s2))" using u s2(3) so1(3) by simp
  have agg: "\<forall>a\<in>set (work s2). sub_agg_len (sub_at E a) \<noteq> 0" using u2 by (simp add: uniform_def)
  have left: "0 < in_flight s2 \<longrightarrow> left_psn s2 = ps_psn (slots s2 (unat (to_ack s2)) (in_flight s2) ! 0)"
    using s2(2) by (simp add: wok_def)
  obtain r where "shift_send_loop E (expect_win_len s2) (to_send s2) (window_len s2) s2 = Some r"
    using loop_total[OF D(1,5) D(8)[symmetric] expect_bound(1)[OF s2(2)] agg uniform_one_group[OF u2 s2(2)] D(4) left s2(4)]
    by blast
  then have "\<exists>s3. shift_send E s2 = Some s3" by (cases r) (simp add: shift_send_def Let_def)
  then show ?thesis using s2(1) unfolding tx_process_def s1_def[symmetric] by (auto simp: Let_def)
qed

text \<open>
  In loopback the receive loop ends: an answer the window waits for acknowledges one more packet, and
  any other leaves the thread's queue one shorter.
\<close>

lemma unacked_update:
  assumes "i < length w" "\<not> acked (w ! i)"
  shows "length (filter (Not \<circ> acked) (w[i := (w ! i)\<lparr>acked := True\<rparr>])) < length (filter (Not \<circ> acked) w)"
proof -
  have "w = take i w @ w ! i # drop (Suc i) w" using assms(1) by (rule id_take_nth_drop)
  then have "length (filter (Not \<circ> acked) w)
      = length (filter (Not \<circ> acked) (take i w @ w ! i # drop (Suc i) w))" by simp
  moreover have "w[i := (w ! i)\<lparr>acked := True\<rparr>] = take i w @ (w ! i)\<lparr>acked := True\<rparr> # drop (Suc i) w"
    using assms(1) by (rule upd_conv_take_nth_drop)
  ultimately show ?thesis using assms(2) by simp
qed

lemma rx_loop_total:
  assumes "ok s" "PACKET_LOOPBACK s"
  shows "\<exists>s'. rx_loop E s = Some s' \<and> PACKET_LOOPBACK s'"
  using assms
proof (induction s rule: wf_induct_rule[OF wf_measures[of "[unacked, length \<circ> local_queue]"]])
  case (1 s)
  note IH = "1.IH" and ok = "1.prems"(1) and lb = "1.prems"(2)
  show ?case
  proof (cases "local_queue s")
    case Nil
    then show ?thesis using lb by (simp add: rx_loop.simps[of E s] poll_def local_receive_def)
  next
    case (Cons m ms)
    define s1 where "s1 = s\<lparr>local_queue := ms\<rparr>"
    have p: "poll E s = (Some (Arrived m), s1)" using lb Cons by (simp add: poll_def local_receive_def s1_def)
    have so: "same_ok s s1" "pb_ok (pbuf s1)"
      using okD(4)[OF ok] by (simp_all add: s1_def same_ok_def same_window_def same_core_def)
    have ok1: "ok s1" "window s1 = window s" using same_ok_ok(1,2)[OF so] ok by simp_all
    have lb1: "PACKET_LOOPBACK s1" using lb by (simp add: s1_def)
    obtain s2 where s2: "rx_process_one E m s1 = Some s2" using rx_one_total[OF ok1(1) can_send_loopback[OF lb1]] by blast
    define s3 where "s3 = s2\<lparr>pbuf := drop_pkt (pbuf s2)\<rparr>"
    have ok2: "ok s2" using rx_one_effect[OF ok1(1) s2] by blast
    have so3: "same_ok s2 s3" "pb_ok (pbuf s3)" using drop_same_ok[OF ok2] by (simp_all add: s3_def)
    have ok3: "ok s3" "window s3 = window s2" using same_ok_ok(1,2)[OF so3] ok2 by simp_all
    have less: "(s3, s) \<in> measures [unacked, length \<circ> local_queue] \<and> PACKET_LOOPBACK s2"
    proof (cases "\<exists>i. answer_for s1 m i")
      case True
      then obtain i where i: "answer_for s1 m i" by blast
      have "i < length (window s1)" "\<not> acked (window s1 ! i)" using i by (simp_all add: answer_for_def)
      then have "unacked s3 < unacked s"
        using unacked_update[of i "window s1"] rx_one_hit[OF ok1(1) i s2] ok3(2) ok1(2)
        unfolding unacked_def by metis
      then show ?thesis using rx_one_hit[OF ok1(1) i s2] lb1 by (auto simp: emits_def)
    next
      case False
      then have m: "\<forall>i. \<not> answer_for s1 m i" by blast
      note R = rx_one_miss[OF ok1(1) m s2]
      have "window s2 = window s1" using R same_ok_ok(2)[of s1 s2] by (simp add: emits_def)
      then have "unacked s3 = unacked s" unfolding unacked_def using ok3(2) ok1(2) by metis
      moreover have "local_queue s3 = ms" using R lb1 by (simp add: emits_def s3_def s1_def)
      ultimately show ?thesis using R lb1 Cons by (simp add: emits_def)
    qed
    have lb3: "PACKET_LOOPBACK s3" using less by (simp add: s3_def)
    have eq: "rx_loop E s = (if rx_sw_buffered_pkt_cnt (pbuf s3) = 0
             \<and> rx_hw_buffered_pkt_cnt (net E) (card_st s3) < of_nat MAX_PKT_BURST then Some s3 else rx_loop E s3)"
      using p s2 by (subst rx_loop.simps) (simp add: contents_of_def s3_def Let_def)
    show ?thesis using IH[of s3] less ok3(1) lb3 eq by simp
  qed
qed

lemma turn_total:
  assumes ok: "ok s" and u: "uniform E (set (work s))" and lb: "PACKET_LOOPBACK s"
  shows "worker_turn E base now (l, s) \<noteq> None"
proof -
  define s1 where "s1 = snd (get_time_stamp now s)\<lparr>global_ts := fst (get_time_stamp now s) - base\<rparr>"
  have so1: "same_ok s s1" "pb_ok (pbuf s1)" "wqp s1 = wqp s" "PACKET_LOOPBACK s1"
    using okD(4)[OF ok] lb by (simp_all add: s1_def get_time_stamp_def Let_def same_ok_def same_window_def same_core_def)
  have ok1: "ok s1" using same_ok_ok(1)[OF so1(1,2) ok] .
  obtain s2 where s2: "rx_loop E s1 = Some s2" "PACKET_LOOPBACK s2" using rx_loop_total[OF ok1 so1(4)] by blast
  note R = rx_loop_effect[OF s2(1) ok1]
  obtain s3 where s3: "shift_ack E s2 = Some s3" "ok s3" "wq (wqp s3) = wq (wqp s2)"
    and eq3: "s3 = s2\<lparr>wqp := wqp s3, stats := stats s3, to_ack := to_ack s3, left_psn := left_psn s3\<rparr>"
    using shift_ack_effect[of s2] R by blast
  have lb3: "PACKET_LOOPBACK s3" using s2(2) by (subst eq3) simp
  have "work s3 = work s" using R s3(3) so1(3) by (simp add: rx_rel_def)
  then have "uniform E (set (work s3))" using u by simp
  from tx_process_total[OF s3(2) this can_send_loopback[OF lb3]] obtain s4 where "tx_process E s3 = Some s4" by blast
  then show ?thesis using s2(1) s3(1)
    by (cases "get_time_stamp now s") (simp add: worker_turn_def rx_process_def s1_def Let_def)
qed

end

end
