(* ===== verification/WorkerDemo.thy ===== *)
theory WorkerDemo
  imports WorkerLive
begin

text \<open>
  A small worker whose run can be computed: it shows that the hypotheses of the worker properties
  can hold, and what a run of the model looks like.
\<close>

subsection \<open>A worker at work\<close>

text \<open>
  A worker in loopback whose sub-operation 9 receives 8 bytes of a broadcast: posted, sent as one
  packet without payload in the first turn, answered in the second, collected.
\<close>

definition demo_bcast :: op_t where
  "demo_bcast = \<lparr>op_code = OP_BROADCAST, op_root = 1, op_size = 8, shm_buffer = 1000,
     op_group = \<lparr>group_id = 7, group_size = 2, group_rank = 0, group_agg_addr = 0, group_agg_len = 100,
       switch_ip = 0x0a000001\<rparr>, op_with_fut = 0\<rparr>"

definition demo_sub :: sub_op_t where
  "demo_sub = \<lparr>sub_op = 5, sub_data = 1000, sub_size = 8, sub_agg_addr = 0, sub_agg_len = 100\<rparr>"

definition demo_env :: "(ptr list, pkt card) wenv" where
  "demo_env = \<lparr>sub_q = fifo_ops QUEUE_SIZE, net = card_ops, sub_at = (\<lambda>_. demo_sub), op_at = (\<lambda>_. demo_bcast)\<rparr>"

interpretation demo_worker: worker_env demo_env "\<lambda>q. q" on_wire handed
  by (rule worker_env.intro) (simp_all add: demo_env_def fifo_pair.queue_pair_impl_axioms sim_card.nic_axioms)

definition demo_raw :: mbuf where
  "demo_raw = \<lparr>data_len = 0, pkt_len = 0, eth = \<lparr>eth_dst = [], eth_src = [], ether_type = 0\<rparr>, ip = zero_ip,
     inc = mk_inc 0 0 0 0 0 0, payload = replicate PAYLOAD_SIZE 3\<rparr>"

definition demo_raws :: "mbuf list" where "demo_raws = replicate MAX_WIN_LEN demo_raw"

lemma demo_raws: "length demo_raws = MAX_WIN_LEN" "demo_raws ! 0 = demo_raw"
  by (simp_all add: demo_raws_def MAX_WIN_LEN_def)

definition no_card :: "pkt card" where "no_card = \<lparr>on_wire = [], handed = [], inbox = [], busy = 0\<rparr>"

definition demo_new :: "(ptr list, pkt card) worker" where
  "demo_new = the (new_worker id demo_raws [] no_card (\<lambda>_. 0))"

definition demo_w0 :: "(ptr list, pkt card) worker" where
  "demo_w0 = snd (worker_loop_init 0 True demo_new)"

definition demo_w1 :: "(ptr list, pkt card) worker" where
  "demo_w1 = demo_w0\<lparr>wqp := \<lparr>wq = [9], cq = [], num_in_queue = 1\<rparr>\<rparr>"

lemma demo_new: "new_worker id demo_raws [] no_card (\<lambda>_. 0) = Some demo_new"
  by (simp add: demo_new_def new_worker_def queue_process_buffer_def MAX_PKT_BURST_def)

lemma demo_init: "worker_loop_init 0 True demo_new = (0, demo_w0)"
  by (simp add: demo_w0_def worker_loop_init_def get_time_stamp_def demo_new_def new_worker_def
      queue_process_buffer_def MAX_PKT_BURST_def)

lemma cwnd_trunc_init: "cwnd_trunc cc_init = 10"
  by (simp add: cwnd_trunc_def cc_init_def CC_CWND_MIN_def)

definition demo_pkt :: mbuf where
  "demo_pkt = demo_raw\<lparr>data_len := 44, pkt_len := 44,
     ip := zero_ip\<lparr>total_length := htobe 30, ip_dst_addr := htobe 0x0a000001\<rparr>,
     inc := mk_inc OP_BROADCAST 7 0 1 0 0\<rparr>"

definition demo_slot :: pkt_state_t where
  "demo_slot = \<lparr>acked = False, ps_sub_op = 9, ps_data = 1000, ps_size = 8, ps_psn = 0, is_last = True, ps_pkt = demo_pkt\<rparr>"

lemmas demo_defs = demo_env_def demo_sub_def demo_bcast_def fifo_ops_def

lemma demo_gen:
  assumes "cur_sub s = None" "wq (wqp s) = [9]" "to_ack s = to_send s" "win s = map new_slot demo_raws" "group_psn s 7 = 0"
  shows "gen_pkt demo_env 0 s = Some (True, s\<lparr>current_group_id := 7, current_switch_window_limit := 50,
      traffic_todo := True, start_psn := 0, pkt_cnt := 1, pkt_sent := 1, group_psn := (group_psn s)(7 := 1),
      win := (win s)[0 := demo_slot], wqp := (wqp s)\<lparr>wq := []\<rparr>, cur_sub := None\<rparr>)"
proof -
  have sz: "sizeof_netccl_pkt = 300" "sizeof_rte_ether_hdr = 14" "PAYLOAD_SIZE = 256"
    by (simp_all add: const_defs)
  have sl: "win s ! 0 = new_slot demo_raw"
    using assms(4) demo_raws by (simp add: MAX_WIN_LEN_def)
  show ?thesis
    using assms(1-3,5) sl
    by (simp add: gen_pkt_def pick_sub_op_def demo_defs front_req_def pop_req_def window_tx_empty_def Let_def
        fill_pkt_def need_tx_def op_codes set_slot_def sz demo_slot_def demo_pkt_def new_slot_def demo_raw_def)
qed


lemma demo_gen_idle: "cur_sub s = None \<Longrightarrow> wq (wqp s) = [] \<Longrightarrow> gen_pkt demo_env p s = Some (False, s\<lparr>traffic_todo := False\<rparr>)"
  by (simp add: gen_pkt_def pick_sub_op_def demo_defs front_req_def)

lemma demo_send:
  assumes "cur_sub s = None" "wq (wqp s) = [9]" "to_ack s = 0" "to_send s = 0" "win s = map new_slot demo_raws"
    "group_psn s 7 = 0" "cc s = cc_init" "PACKET_LOOPBACK s" "current_switch_window_limit s = 10"
  shows "shift_send demo_env s = Some (s\<lparr>current_group_id := 7, current_switch_window_limit := 50,
      traffic_todo := False, start_psn := 0, pkt_cnt := 1, pkt_sent := 1, group_psn := (group_psn s)(7 := 1),
      win := (win s)[0 := demo_slot], wqp := (wqp s)\<lparr>wq := []\<rparr>, cur_sub := None,
      left_psn := 0, local_queue := local_queue s @ [demo_pkt],
      stats := (stats s)\<lparr>shift_send_cnt := shift_send_cnt (stats s) + 1\<rparr>, to_send := 1, right_psn := 0\<rparr>)"
proof -
  have len: "length (win s) = 1024" using assms(5) demo_raws by (simp add: MAX_WIN_LEN_def)
  have e: "expect_win_len s = 10"
    using assms by (simp add: expect_win_len_def window_len_def cwnd_trunc_init const_defs)
  have p: "get_psn demo_pkt = 0" "ps_pkt demo_slot = demo_pkt"
    by (simp_all add: get_psn_def demo_pkt_def mk_inc_def demo_slot_def)
  have n: "get_next_position 0 = 1" "get_prev_position 1 = 0"
    by (simp_all add: get_next_position_def get_prev_position_def MAX_WIN_LEN_def)
  show ?thesis
    using assms len
    by (simp add: shift_send_def e window_len_def shift_send_loop.simps[of demo_env] demo_gen demo_gen_idle
        transmit_def local_send_def n p cwnd_trunc_init window_tx_empty_def Let_def word_le_nat_alt)
qed


lemma demo_w1_fields:
  "cur_sub demo_w1 = None" "wqp demo_w1 = \<lparr>wq = [9], cq = [], num_in_queue = 1\<rparr>" "to_ack demo_w1 = 0" "to_send demo_w1 = 0"
  "win demo_w1 = map new_slot demo_raws" "group_psn demo_w1 = (\<lambda>_. 0)" "cc demo_w1 = cc_init" "PACKET_LOOPBACK demo_w1"
  "current_switch_window_limit demo_w1 = 10" "local_queue demo_w1 = []" "left_psn demo_w1 = 0" "right_psn demo_w1 = 0"
  "ack_cnt demo_w1 = 0" "prev_ack_cnt demo_w1 = 0" "last_ack_time_stamp demo_w1 = 0" "ts_cnt demo_w1 = 1" "ts_cache demo_w1 = 0"
  "global_ts demo_w1 = 0" "current_group_id demo_w1 = 0" "shm demo_w1 = (\<lambda>_. 0)" "card_st demo_w1 = no_card"
  "rx_iter (pbuf demo_w1) = 0" "rx_nb (pbuf demo_w1) = 0" "traffic_todo demo_w1 = False" "tos_minitor demo_w1 = 0"
  by (simp_all add: demo_w1_def demo_w0_def worker_loop_init_def get_time_stamp_def demo_new_def new_worker_def
      queue_process_buffer_def MAX_PKT_BURST_def CC_CWND_MIN_def Let_def)

definition demo_w2 :: "(ptr list, pkt card) worker" where
  "demo_w2 = demo_w1\<lparr>ts_cnt := 2, current_group_id := 7, current_switch_window_limit := 50,
      start_psn := 0, pkt_cnt := 1, pkt_sent := 1, group_psn := (\<lambda>_. 0)(7 := 1),
      win := (map new_slot demo_raws)[0 := demo_slot], wqp := \<lparr>wq = [], cq = [], num_in_queue = 1\<rparr>,
      local_queue := [demo_pkt], stats := (stats demo_w1)\<lparr>shift_send_cnt := shift_send_cnt (stats demo_w1) + 1\<rparr>,
      to_send := 1\<rparr>"

lemma ccnow: "global_ts s - prev_decrease_ts (cc s) = 0 \<Longrightarrow> congestion_control s = s"
  by (simp add: congestion_control_def CC_REACTION_TIME_def)

lemma demo_turn1: "worker_turn demo_env 0 0 (0, demo_w1) = Some (0, demo_w2)"
proof -
  let ?s1 = "demo_w1\<lparr>ts_cnt := 2\<rparr>"
  have g: "get_time_stamp 0 demo_w1 = (0, ?s1)"
    by (simp add: get_time_stamp_def demo_w1_fields)
  have s1: "?s1\<lparr>global_ts := 0\<rparr> = ?s1"
    using demo_w1_fields(18) by (cases demo_w1) simp
  have rx: "rx_process demo_env ?s1 = Some ?s1"
    using demo_w1_fields(11)
    by (cases demo_w1) (simp add: rx_process_def rx_loop.simps[of demo_env] poll_def local_receive_def demo_w1_fields
        shift_ack_def shift_ack_loop.simps[of demo_env] window_tx_empty_def Let_def)
  have tx: "tx_process demo_env ?s1 = Some demo_w2"
    by (simp add: tx_process_def demo_w1_fields TIMEOUT_TIME_def demo_send window_tx_empty_def Let_def demo_w2_def)
  have cc: "congestion_control demo_w2 = demo_w2"
    by (rule ccnow) (simp add: demo_w2_def demo_w1_fields cc_init_def)
  show ?thesis
    by (simp add: worker_turn_def g s1 rx tx cc Let_def LOG_INTERVAL_def) (simp add: demo_w2_def demo_w1_fields)
qed


text \<open>The second turn takes the answer, writes its bytes and answers the sub-operation.\<close>

definition demo_w2r :: "(ptr list, pkt card) worker" where
  "demo_w2r = demo_w2\<lparr>ts_cnt := 3, local_queue := [], ack_cnt := 1,
      win := (map new_slot demo_raws)[0 := demo_slot\<lparr>acked := True\<rparr>],
      shm := mem_write (\<lambda>_. 0) 1000 (replicate 8 3), pbuf := drop_pkt (pbuf demo_w2)\<rparr>"

lemma demo_pkt_fields: "get_psn demo_pkt = 0" "get_group_id demo_pkt = 7" "type_of_service (ip demo_pkt) = 0"
  "ps_pkt demo_slot = demo_pkt" "payload demo_pkt = replicate 256 3"
  by (simp_all add: get_psn_def get_group_id_def demo_pkt_def mk_inc_def demo_slot_def zero_ip_def demo_raw_def const_defs)

lemma demo_w2_fields:
  "cur_sub demo_w2 = None" "to_ack demo_w2 = 0" "to_send demo_w2 = 1" "left_psn demo_w2 = 0" "right_psn demo_w2 = 0"
  "current_group_id demo_w2 = 7" "PACKET_LOOPBACK demo_w2" "local_queue demo_w2 = [demo_pkt]" "ack_cnt demo_w2 = 0"
  "win demo_w2 = (map new_slot demo_raws)[0 := demo_slot]" "shm demo_w2 = (\<lambda>_. 0)" "tos_minitor demo_w2 = 0"
  "rx_iter (pbuf demo_w2) = 0" "rx_nb (pbuf demo_w2) = 0" "card_st demo_w2 = no_card" "global_ts demo_w2 = 0"
  "ts_cnt demo_w2 = 2" "ts_cache demo_w2 = 0"
  by (simp_all add: demo_w2_def demo_w1_fields)

lemma demo_rx: 
  "rx_process_one demo_env demo_pkt (demo_w2\<lparr>ts_cnt := 3, local_queue := []\<rparr>)
    = Some (demo_w2\<lparr>ts_cnt := 3, local_queue := [], win := (map new_slot demo_raws)[0 := demo_slot\<lparr>acked := True\<rparr>],
        ack_cnt := 1, shm := mem_write (\<lambda>_. 0) 1000 (replicate 8 3)\<rparr>)"
proof -
  let ?s = "demo_w2\<lparr>ts_cnt := 3, local_queue := []\<rparr>"
  have tos: "?s\<lparr>tos_minitor := tos_minitor ?s OR 0\<rparr> = ?s"
    using demo_w2_fields(12) by (cases demo_w2) simp
  have pos: "get_position demo_pkt ?s = 0"
    by (simp add: get_position_def window_tx_empty_def demo_w2_fields demo_pkt_fields Let_def MAX_WIN_LEN_def)
  have len: "length demo_raws = 1024" using demo_raws(1) by (simp add: MAX_WIN_LEN_def)
  have sp: "store_payload demo_bcast (demo_slot\<lparr>acked := True\<rparr>) demo_pkt (\<lambda>_. 0) = mem_write (\<lambda>_. 0) 1000 (replicate 8 3)"
    by (simp add: store_payload_def is_aggregated_def demo_bcast_def op_codes demo_slot_def demo_pkt_fields
        take_replicate)
  have f: "acked demo_slot = False" "ps_sub_op demo_slot = 9" by (simp_all add: demo_slot_def)
  have nr: "need_rx demo_bcast" "sub_op demo_sub = 5" by (simp_all add: need_rx_def demo_bcast_def op_codes demo_sub_def)
  show ?thesis
    unfolding rx_process_one_def demo_pkt_fields tos
    using len by (simp add: pos Let_def has_acked_def mark_acked_def set_slot_def demo_w2_fields demo_env_def sp nr f
        INVALID_POSITION_def)
qed

definition demo_w3 :: "(ptr list, pkt card) worker" where
  "demo_w3 = demo_w2r\<lparr>wqp := \<lparr>wq = [], cq = [9], num_in_queue = 1\<rparr>, to_ack := 1,
     stats := (stats demo_w2)\<lparr>shift_ack_cnt := shift_ack_cnt (stats demo_w2) + 1\<rparr>, prev_ack_cnt := 1,
     traffic_todo := False, to_send := 1, right_psn := 0, last_ack_time_stamp := 0\<rparr>"

lemma demo_turn2: "worker_turn demo_env 0 0 (0, demo_w2) = Some (0, demo_w3)"
proof -
  let ?s = "demo_w2\<lparr>ts_cnt := 3\<rparr>"
  have g: "get_time_stamp 0 demo_w2 = (0, ?s)"
    by (simp add: get_time_stamp_def demo_w2_fields)
  have s1: "?s\<lparr>global_ts := 0\<rparr> = ?s"
    using demo_w2_fields(16) by (cases demo_w2) simp
  have hw: "rx_hw_buffered_pkt_cnt (net demo_env) no_card = 0"
    by (simp add: rx_hw_buffered_pkt_cnt_def demo_env_def card_ops_def no_card_def)
  have rx: "rx_loop demo_env ?s = Some demo_w2r"
    by (simp add: rx_loop.simps[of demo_env] poll_def local_receive_def demo_w2_fields contents_of_def demo_rx Let_def
        rx_sw_buffered_pkt_cnt_def hw drop_pkt_def)
      (simp add: demo_w2r_def drop_pkt_def demo_w2_fields MAX_PKT_BURST_def)
  define s3 where "s3 = demo_w2r\<lparr>wqp := \<lparr>wq = [], cq = [9], num_in_queue = 1\<rparr>, to_ack := 1,
     stats := (stats demo_w2)\<lparr>shift_ack_cnt := shift_ack_cnt (stats demo_w2) + 1\<rparr>\<rparr>"
  have n: "get_next_position 0 = 1"
    by (simp add: get_next_position_def MAX_WIN_LEN_def)
  have sl: "(map new_slot demo_raws)[0 := demo_slot\<lparr>acked := True\<rparr>] ! 0 = demo_slot\<lparr>acked := True\<rparr>"
    using demo_raws(1) by (simp add: MAX_WIN_LEN_def)
  have f: "ps_sub_op demo_slot = 9" "is_last demo_slot" by (simp_all add: demo_slot_def)
  have q: "wqp demo_w2 = \<lparr>wq = [], cq = [], num_in_queue = 1\<rparr>" by (simp add: demo_w2_def)
  have push: "push_resp (sub_q demo_env) 9 \<lparr>wq = [], cq = [], num_in_queue = 1\<rparr>
      = Some (True, \<lparr>wq = [], cq = [9], num_in_queue = 1\<rparr>)"
    by (simp add: push_resp_def demo_env_def fifo_ops_def QUEUE_SIZE_def)
  have len: "length demo_raws = 1024" using demo_raws(1) by (simp add: MAX_WIN_LEN_def)
  have sa: "shift_ack demo_env demo_w2r = Some s3"
    by (simp add: shift_ack_def shift_ack_loop.simps[of demo_env] demo_w2r_def demo_w2_fields has_acked_def len
        complete_pkt_def f q n push s3_def window_tx_empty_def Let_def)
  have s3: "cur_sub s3 = None" "wq (wqp s3) = []" "to_ack s3 = 1" "to_send s3 = 1" "ack_cnt s3 = 1"
    "prev_ack_cnt s3 = 0" "global_ts s3 = 0" "window_len s3 = 0"
    by (simp_all add: s3_def demo_w2r_def demo_w2_fields window_len_def) (simp add: demo_w2_def demo_w1_fields)
  let ?s4 = "s3\<lparr>prev_ack_cnt := 1, last_ack_time_stamp := 0\<rparr>"
  have "cc s3 = cc_init" "current_switch_window_limit s3 = 50"
    by (simp_all add: s3_def demo_w2r_def demo_w2_def demo_w1_fields)
  note c3 = this
  have e: "expect_win_len ?s4 = 10"
    using s3 c3 by (simp add: expect_win_len_def window_len_def cwnd_trunc_init const_defs)
  have send: "shift_send demo_env ?s4 = Some (?s4\<lparr>traffic_todo := False, to_send := 1, right_psn := 0\<rparr>)"
    unfolding shift_send_def e using s3 c3
    by (simp add: window_len_def shift_send_loop.simps[of demo_env] demo_gen_idle cwnd_trunc_init window_tx_empty_def Let_def
        word_le_nat_alt)
  have "tx_process demo_env s3 = Some (?s4\<lparr>traffic_todo := False, to_send := 1, right_psn := 0, last_ack_time_stamp := 0\<rparr>)"
    by (simp add: tx_process_def s3 TIMEOUT_TIME_def send window_tx_empty_def Let_def)
  also have "?s4\<lparr>traffic_todo := False, to_send := 1, right_psn := 0, last_ack_time_stamp := 0\<rparr> = demo_w3"
    by (simp add: s3_def demo_w3_def demo_w2r_def)
  finally have tx: "tx_process demo_env s3 = Some demo_w3" .
  have cc: "congestion_control demo_w3 = demo_w3"
    by (rule ccnow) (simp add: demo_w3_def demo_w2r_def demo_w2_def demo_w1_fields cc_init_def)
  show ?thesis
    by (simp add: worker_turn_def g s1 rx_process_def rx sa tx cc Let_def LOG_INTERVAL_def)
      (simp add: demo_w3_def demo_w2r_def demo_w2_fields)
qed

text \<open>The whole life of the sub-operation.\<close>

definition demo_sys :: "(ptr list, pkt card) worker_sys" where
  "demo_sys = \<lparr>worker = demo_w3\<lparr>wqp := \<lparr>wq = [], cq = [], num_in_queue = 0\<rparr>\<rparr>, log_ts = 0, posted = [9], got = [9]\<rparr>"

lemma demo_reach1: "worker_reach demo_env 0 demo_w0 \<lparr>worker = demo_w1, log_ts = 0, posted = [9], got = []\<rparr>"
proof -
  have "wqp demo_w0 = empty_pair []"
    by (simp add: demo_w0_def worker_loop_init_def get_time_stamp_def demo_new_def new_worker_def
        queue_process_buffer_def MAX_PKT_BURST_def Let_def)
  then have "push_req (sub_q demo_env) QUEUE_SIZE 9 (wqp demo_w0) = Some (True, \<lparr>wq = [9], cq = [], num_in_queue = 1\<rparr>)"
    by (simp add: push_req_def demo_env_def fifo_ops_def QUEUE_SIZE_def empty_pair_def)
  then have "worker_step demo_env 0 \<lparr>worker = demo_w0, log_ts = 0, posted = [], got = []\<rparr>
      \<lparr>worker = demo_w1, log_ts = 0, posted = [9], got = []\<rparr>"
    using worker_step.post[of demo_env 9 "\<lparr>worker = demo_w0, log_ts = 0, posted = [], got = []\<rparr>" True _ 0]
    by (simp add: demo_w1_def)
  with worker_reach.start show ?thesis by (rule worker_reach.step)
qed

lemma demo_reach2: "worker_reach demo_env 0 demo_w0 \<lparr>worker = demo_w2, log_ts = 0, posted = [9], got = []\<rparr>"
  using worker_reach.step[OF demo_reach1 worker_step.turn[of demo_env 0 0]] demo_turn1 by simp

lemma demo_reach3: "worker_reach demo_env 0 demo_w0 \<lparr>worker = demo_w3, log_ts = 0, posted = [9], got = []\<rparr>"
  using worker_reach.step[OF demo_reach2 worker_step.turn[of demo_env 0 0]] demo_turn2 by simp

lemma demo_reach: "worker_reach demo_env 0 demo_w0 demo_sys"
proof -
  have q: "wqp demo_w3 = \<lparr>wq = [], cq = [9], num_in_queue = 1\<rparr>" by (simp add: demo_w3_def)
  have "worker_step demo_env 0 \<lparr>worker = demo_w3, log_ts = 0, posted = [9], got = []\<rparr> demo_sys"
    unfolding demo_sys_def
    using worker_step.collect[of demo_env "\<lparr>worker = demo_w3, log_ts = 0, posted = [9], got = []\<rparr>" 9
        "\<lparr>wq = [], cq = [], num_in_queue = 0\<rparr>" 0]
    by (simp add: q front_resp_def pop_resp_def demo_env_def fifo_ops_def)
  with demo_reach3 show ?thesis by (rule worker_reach.step)
qed

lemma demo_uniform: "uniform demo_env A"
  by (simp add: uniform_def demo_env_def demo_sub_def sub_group_def)

lemma demo_wok: "wok demo_env (\<lambda>q. q) demo_w1" "wok demo_env (\<lambda>q. q) demo_w2"
  using demo_worker.reach_ok[OF demo_reach1 demo_uniform demo_new demo_raws(1) refl demo_init[symmetric]]
    demo_worker.reach_ok[OF demo_reach2 demo_uniform demo_new demo_raws(1) refl demo_init[symmetric]]
  by (simp_all add: demo_worker.sys_ok_def)

end
