(* ===== verification/WorkerProps.thy ===== *)
theory WorkerProps
  imports WorkerDemo
begin

text \<open>
  The properties of the worker, each with a witness on the demonstration worker.
\<close>

subsection \<open>Two groups in one burst\<close>








subsection \<open>Properties\<close>



text \<open>
  The load balancer gets the answers of its sub-operations in the order it posted them, each
  once.
\<close>

theorem worker_answers_in_order:
  assumes "worker_env E contents sent delivered"
    and "new_worker prefill raws q n m = Some s" and "length raws = MAX_WIN_LEN" and "contents q = []"
    and "worker_loop_init now lb s = (base, s0)"
    and "worker_reach E base s0 t" and "uniform E (set (posted t))"
  shows "\<exists>later. posted t = got t @ contents (cq (wqp (worker t))) @ later"
proof -
  obtain fin where fin: "pieces E (posted t) = fin @ map seg_of (window (worker t)) @ rest E contents (worker t)"
    "got t @ contents (cq (wqp (worker t))) = lasts fin"
    using worker_env.reach_ok[OF assms(1,6,7,2-4) assms(5)[symmetric]]
    by (auto simp: worker_env.sys_ok_def[OF assms(1)] ledger_def)
  have "posted t = lasts (pieces E (posted t))" by (simp add: lasts_pieces)
  then show ?thesis unfolding fin(1) lasts_append fin(2)[symmetric] by auto
qed

theorem worker_answers_in_order_witness:
  "\<exists>later. posted demo_sys = [9] @ [] @ later"
  using worker_answers_in_order[OF demo_worker.worker_env_axioms demo_new demo_raws(1) _ demo_init demo_reach demo_uniform]
  by (simp add: demo_sys_def)

text \<open>
  C9: In every state a worker can reach with sub-operations of one group, each with an aggregator at least, the invariant holds; in particular its window has
  less than 1024 packets, of the current group, numbered consecutively from \<open>left_psn\<close>, and the
  congestion window is between 10 and 2040.
\<close>

theorem worker_invariant:
  assumes "worker_env E contents sent delivered"
    and "new_worker prefill raws q n m = Some s" and "length raws = MAX_WIN_LEN" and "contents q = []"
    and "worker_loop_init now lb s = (base, s0)"
    and "worker_reach E base s0 t" and "uniform E (set (posted t))"
  shows "wok E contents (worker t)
    \<and> unat (window_len (worker t)) = in_flight (worker t) \<and> in_flight (worker t) < MAX_WIN_LEN
    \<and> (\<forall>i<in_flight (worker t). get_psn (ps_pkt (window (worker t) ! i)) = left_psn (worker t) + of_nat i
      \<and> get_group_id (ps_pkt (window (worker t) ! i)) = current_group_id (worker t))
    \<and> 10 \<le> cwnd (cc (worker t)) \<and> cwnd (cc (worker t)) \<le> 2040"
proof (intro conjI)
  show ok: "wok E contents (worker t)"
    using worker_env.reach_ok[OF assms(1,6,7,2-4) assms(5)[symmetric]]
    by (simp add: worker_env.sys_ok_def[OF assms(1)])
  note D = worker_env.okD[OF assms(1) ok]
  show "unat (window_len (worker t)) = in_flight (worker t)" "in_flight (worker t) < MAX_WIN_LEN"
    by (rule D(5), rule D(6))
  show "\<forall>i<in_flight (worker t). get_psn (ps_pkt (window (worker t) ! i)) = left_psn (worker t) + of_nat i
      \<and> get_group_id (ps_pkt (window (worker t) ! i)) = current_group_id (worker t)"
  proof (intro allI impI)
    fix i assume i: "i < in_flight (worker t)"
    then have "window (worker t) ! i \<in> set (window (worker t))" by (intro nth_mem) simp
    with D(1) worker_env.window_psn(1)[OF assms(1) ok i]
    show "get_psn (ps_pkt (window (worker t) ! i)) = left_psn (worker t) + of_nat i
      \<and> get_group_id (ps_pkt (window (worker t) ! i)) = current_group_id (worker t)"
      by (simp add: winv_def)
  qed
  show "10 \<le> cwnd (cc (worker t))" "cwnd (cc (worker t)) \<le> 2040"
    using ok by (simp_all add: wok_def cc_ok_def)
qed

theorem worker_invariant_witness:
  "wok demo_env (\<lambda>q. q) demo_w2 \<and> in_flight demo_w2 = 1 \<and> get_psn (ps_pkt (window demo_w2 ! 0)) = left_psn demo_w2
    \<and> cwnd (cc demo_w2) \<le> 2040"
proof -
  note T = worker_invariant[OF demo_worker.worker_env_axioms demo_new demo_raws(1) refl demo_init demo_reach2 demo_uniform]
  have "in_flight demo_w2 = 1" by (simp add: demo_w2_fields ring_dist_def MAX_WIN_LEN_def)
  with T show ?thesis by simp
qed

text \<open>
  C11: \<open>get_position\<close> is exact: an answer of the current group that carries the number of the
  \<open>i\<close>-th packet of the window gets that packet's slot, across the wrap of the numbers and of the ring;
  any other packet gets \<open>INVALID_POSITION\<close>.
\<close>

theorem get_position_exact:
  assumes "worker_env E contents sent delivered" and "wok E contents s"
  shows "(\<forall>i<in_flight s. get_group_id pkt = current_group_id s \<and> get_psn pkt = get_psn (ps_pkt (window s ! i))
      \<longrightarrow> unat (get_position pkt s) = (unat (to_ack s) + i) mod MAX_WIN_LEN)
    \<and> ((\<forall>i<in_flight s. get_group_id pkt \<noteq> current_group_id s \<or> get_psn pkt \<noteq> get_psn (ps_pkt (window s ! i)))
      \<longrightarrow> get_position pkt s = INVALID_POSITION)"
proof (intro conjI)
  have psn: "get_psn (ps_pkt (window s ! i)) = ps_psn (window s ! i)" if "i < in_flight s" for i
    using worker_env.okD(1)[OF assms] nth_mem[of i "window s"] that by (simp add: winv_def)
  show "\<forall>i<in_flight s. get_group_id pkt = current_group_id s \<and> get_psn pkt = get_psn (ps_pkt (window s ! i))
      \<longrightarrow> unat (get_position pkt s) = (unat (to_ack s) + i) mod MAX_WIN_LEN"
    using worker_env.get_position_hit[OF assms, of _ pkt] psn by (simp add: ring_add_def)
  show "(\<forall>i<in_flight s. get_group_id pkt \<noteq> current_group_id s \<or> get_psn pkt \<noteq> get_psn (ps_pkt (window s ! i)))
      \<longrightarrow> get_position pkt s = INVALID_POSITION"
    using worker_env.get_position_miss[OF assms, of pkt] psn by metis
qed

theorem get_position_exact_witness:
  "unat (get_position demo_pkt demo_w2) = 0 \<and> get_position (demo_pkt\<lparr>inc := mk_inc OP_BROADCAST 7 0 1 0 1\<rparr>) demo_w2 = INVALID_POSITION"
proof -
  note T = get_position_exact[OF demo_worker.worker_env_axioms demo_wok(2)]
  have w: "in_flight demo_w2 = 1" "window demo_w2 ! 0 = demo_slot"
    using demo_raws(1) by (simp_all add: demo_w2_fields ring_dist_def MAX_WIN_LEN_def slots_nth ring_add_def)
  have "betoh (inc_psn (inc demo_pkt)) = 0" using demo_pkt_fields(1) by (simp add: get_psn_def)
  then show ?thesis
    using T[of demo_pkt] T[of "demo_pkt\<lparr>inc := mk_inc OP_BROADCAST 7 0 1 0 1\<rparr>"] w
    by (simp add: demo_pkt_fields demo_w2_fields get_psn_def mk_inc_def)
qed

text \<open>
  C10: An answer the window waits for is taken: the packet is acknowledged, its bytes and no others
  are written when the operation receives, and exactly the unacknowledged packets just before it in the
  window are sent again, oldest first; the work to do and the queue pair stay.
\<close>

theorem answer_taken:
  assumes "worker_env E contents sent delivered" and "wok E contents s"
    and "answer_for s pkt i" and "rx_process_one E pkt s = Some s'"
  shows "wok E contents s' \<and> window s' = (window s)[i := (window s ! i)\<lparr>acked := True\<rparr>]
    \<and> (let st = window s ! i; op = op_at E (sub_op (sub_at E (ps_sub_op st))) in
        shm s' = (if need_rx op then store_payload op st pkt (shm s) else shm s))
    \<and> (\<exists>es. emits sent delivered s s' es
        \<and> map (unat \<circ> fst) es = positions (unat (to_ack s)) (i - lost_run s i) (lost_run s i)
        \<and> map snd es = map ps_pkt (take (lost_run s i) (drop (i - lost_run s i) (window s))))
    \<and> rest E contents s' = rest E contents s \<and> wqp s' = wqp s"
  using worker_env.rx_one_hit[OF assms(1-4)] unfolding Let_def by blast

theorem answer_taken_witness:
  "\<exists>s'. rx_process_one demo_env demo_pkt demo_w2 = Some s' \<and> wok demo_env (\<lambda>q. q) s'
    \<and> window s' = [demo_slot\<lparr>acked := True\<rparr>] \<and> wqp s' = wqp demo_w2"
proof -
  have w: "in_flight demo_w2 = 1" "window demo_w2 = [demo_slot]"
    using demo_raws(1) by (simp_all add: demo_w2_fields ring_dist_def MAX_WIN_LEN_def slots_def ring_add_def)
  have a: "answer_for demo_w2 demo_pkt 0"
    unfolding answer_for_def unfolding w(2) unfolding w(1) nth_Cons_0
    by (simp add: demo_pkt_fields demo_w2_fields) (simp add: demo_slot_def)
  obtain s' where s': "rx_process_one demo_env demo_pkt demo_w2 = Some s'"
    using demo_worker.rx_one_total[OF demo_wok(2) can_send_loopback[OF demo_w2_fields(7)]] by blast
  from answer_taken[OF demo_worker.worker_env_axioms demo_wok(2) a s'] s' w show ?thesis by simp
qed

text \<open>
  C17: Any other packet, be it late, repeated, of another group or numbered outside the window, is ignored:
  neither the window nor the shared memory nor the queue pair changes, and nothing is sent.
\<close>

theorem answer_ignored:
  assumes "worker_env E contents sent delivered" and "wok E contents s"
    and "\<forall>i. \<not> answer_for s pkt i" and "rx_process_one E pkt s = Some s'"
  shows "wok E contents s' \<and> window s' = window s \<and> shm s' = shm s \<and> wqp s' = wqp s \<and> cc s' = cc s
    \<and> emits sent delivered s s' [] \<and> rest E contents s' = rest E contents s"
proof -
  note R = worker_env.rx_one_miss[OF assms]
  then have so: "same_ok s s'" "pb_ok (pbuf s')" by (simp_all add: emits_def)
  show ?thesis
    using R worker_env.same_ok_ok[OF assms(1) so] assms(2) by (simp add: same_ok_def same_window_def same_core_def)
qed

theorem answer_ignored_witness:
  "\<exists>s'. rx_process_one demo_env demo_pkt demo_w1 = Some s' \<and> window s' = [] \<and> shm s' = shm demo_w1 \<and> wqp s' = wqp demo_w1"
proof -
  have w: "in_flight demo_w1 = 0" by (simp add: demo_w1_fields)
  have a: "\<forall>i. \<not> answer_for demo_w1 demo_pkt i" by (simp add: answer_for_def w)
  obtain s' where s': "rx_process_one demo_env demo_pkt demo_w1 = Some s'"
    using demo_worker.rx_one_total[OF demo_wok(1) can_send_loopback[OF demo_w1_fields(8)]] by blast
  from answer_ignored[OF demo_worker.worker_env_axioms demo_wok(1) a s'] s' w show ?thesis by auto
qed

text \<open>
  C34: A full retransmission sends exactly the unacknowledged packets of the window again, each once and
  oldest first, and puts the congestion window back to its minimum; the window and the memory stay.
\<close>

theorem full_retrans_exact:
  assumes "worker_env E contents sent delivered" and "wok E contents s" and "full_retrans E s = Some s'"
  shows "wok E contents s' \<and> window s' = window s \<and> shm s' = shm s
    \<and> (\<exists>es. emits sent delivered s s' es
        \<and> map (unat \<circ> fst) es
          = map (ring_add (unat (to_ack s))) (filter (\<lambda>i. \<not> acked (window s ! i)) [0..<in_flight s])
        \<and> map snd es = map ps_pkt (filter (Not \<circ> acked) (window s)))
    \<and> cwnd (cc s') = (if window_tx_empty s then cwnd (cc s) else 10)"
proof -
  note R = worker_env.full_retrans_effect[OF assms(1,3,2)]
  have "same_window s s'" using R by blast
  then have "window s' = window s" by (simp add: same_window_def same_core_def slots_def)
  then show ?thesis
    using R worker_env.okD(7)[OF assms(1,2)] by (simp add: cc_reinit_def CC_CWND_MIN_def)
qed

theorem full_retrans_exact_witness:
  "\<exists>s'. full_retrans demo_env demo_w2 = Some s' \<and> window s' = [demo_slot] \<and> cwnd (cc s') = 10
    \<and> (\<exists>es. emits on_wire handed demo_w2 s' es \<and> map snd es = [demo_pkt])"
proof -
  have w: "window demo_w2 = [demo_slot]"
    using demo_raws(1) by (simp add: demo_w2_fields ring_dist_def MAX_WIN_LEN_def slots_def ring_add_def)
  have n: "\<not> acked demo_slot" "ps_pkt demo_slot = demo_pkt" by (simp_all add: demo_slot_def)
  have e: "\<not> window_tx_empty demo_w2" by (simp add: window_tx_empty_def demo_w2_fields)
  obtain s' where s': "full_retrans demo_env demo_w2 = Some s'"
    using demo_worker.full_retrans_total[OF demo_wok(2) can_send_loopback[OF demo_w2_fields(7)]] by blast
  note T = full_retrans_exact[OF demo_worker.worker_env_axioms demo_wok(2) s', unfolded w]
  obtain es where "emits on_wire handed demo_w2 s' es" "map snd es = map ps_pkt (filter (Not \<circ> acked) [demo_slot])"
    using T by blast
  then show ?thesis using s' T e n by auto
qed

text \<open>
  C35: When the sub-operations that wait are of one group, with an aggregator each at least, a call of \<open>shift_send\<close> puts the next packets of the work at hand, unacknowledged and in
  order, at the end of the window and sends them in that order. It stops at the smallest of
  1023 packets, half the aggregator memory, the congestion window and 32 new packets, and below that
  bound only when no sub-operation can be started.
\<close>

theorem shift_send_burst:
  assumes "worker_env E contents sent delivered" and "wok E contents s"
    and "uniform E (set (contents (wq (wqp s))))" and "shift_send E s = Some s'"
  shows "\<exists>new. wok E contents s' \<and> window s' = window s @ new
    \<and> rest E contents s = map seg_of new @ rest E contents s' \<and> (\<forall>x\<in>set new. \<not> acked x)
    \<and> (\<exists>es. emits sent delivered s s' es \<and> map snd es = map ps_pkt new
        \<and> map (unat \<circ> fst) es = positions (unat (to_ack s)) (in_flight s) (length new))
    \<and> in_flight s' \<le> max (in_flight s) (min 1023 (min (unat (current_switch_window_limit s))
        (min (unat (cwnd_trunc (cc s))) (in_flight s + 32))))
    \<and> (in_flight s' < unat (expect_win_len s) \<longrightarrow> cur_sub s' = None
         \<and> (contents (wq (wqp s')) = [] \<or> current_group_id s' \<noteq> sub_group E (hd (contents (wq (wqp s'))))))"
proof -
  have agg: "\<forall>a\<in>set (contents (wq (wqp s))). sub_agg_len (sub_at E a) \<noteq> 0"
    using assms(3) by (simp add: uniform_def)
  note b = worker_env.expect_bound(2)[OF assms(1,2)]
  have e: "unat (expect_win_len s) = min 1023 (min (unat (current_switch_window_limit s))
        (min (unat (cwnd_trunc (cc s))) (in_flight s + 32)))"
    unfolding b by (simp add: MAX_WIN_LEN_def MAX_PKT_BURST_def)
  from worker_env.shift_send_effect[OF assms(1,4,2) agg worker_env.uniform_one_group[OF assms(1,3,2)]]
  show ?thesis unfolding e by blast
qed

theorem shift_send_burst_witness:
  "\<exists>s' new. shift_send demo_env demo_w1 = Some s' \<and> window s' = new \<and> map seg_of new = [(9, 1000, 8, True)]"
proof -
  have s': "\<exists>s'. shift_send demo_env demo_w1 = Some s' \<and> cur_sub s' = None \<and> wq (wqp s') = []"
    by (subst demo_send) (simp_all add: demo_w1_fields)
  then obtain s' where s': "shift_send demo_env demo_w1 = Some s'" "cur_sub s' = None" "wq (wqp s') = []" by blast
  from shift_send_burst[OF demo_worker.worker_env_axioms demo_wok(1) demo_uniform s'(1)] obtain new where
    new: "window s' = window demo_w1 @ new" "rest demo_env (\<lambda>q. q) demo_w1 = map seg_of new @ rest demo_env (\<lambda>q. q) s'"
    by blast
  have "rest demo_env (\<lambda>q. q) s' = []" using s'(2,3) by (simp add: rest_def)
  moreover have "rest demo_env (\<lambda>q. q) demo_w1 = [(9, 1000, 8, True)]"
    by (simp add: rest_def demo_w1_fields demo_env_def demo_sub_def segs_def seg_count_def seg_at_def const_defs)
  moreover have "window demo_w1 = []" by (simp add: demo_w1_fields)
  ultimately show ?thesis using s'(1) new by auto
qed

text \<open>
  The packets of a sub-operation tile its slice: the \<open>k\<close>-th starts where the sizes before it end,
  none carries more than a payload, the sizes add up to the slice, and the last one and no other is
  marked last.
\<close>

theorem pieces_tile_slice:
  "map (\<lambda>(_, _, sz, _). unat sz) (segs a sub)
      = map (\<lambda>k. min 256 (unat (sub_size sub) - 256 * k)) [0..<seg_count sub]
    \<and> sum_list (map (\<lambda>(_, _, sz, _). unat sz) (segs a sub)) = unat (sub_size sub)
    \<and> map (\<lambda>(_, addr, _, _). addr) (segs a sub) = map (\<lambda>k. sub_data sub + of_nat (256 * k)) [0..<seg_count sub]
    \<and> map (\<lambda>(_, _, _, l). l) (segs a sub) = replicate (seg_count sub - 1) False @ [True]"
proof (intro conjI)
  show "map (\<lambda>(_, _, sz, _). unat sz) (segs a sub)
      = map (\<lambda>k. min 256 (unat (sub_size sub) - 256 * k)) [0..<seg_count sub]"
  proof (rule nth_equalityI)
    fix k assume "k < length (map (\<lambda>(_, _, sz, _). unat sz) (segs a sub))"
    moreover have "unat (of_nat (min 256 (unat (sub_size sub) - 256 * k)) :: u32) = min 256 (unat (sub_size sub) - 256 * k)"
      by (rule unat_of_nat_small) simp
    ultimately show "map (\<lambda>(_, _, sz, _). unat sz) (segs a sub) ! k
        = map (\<lambda>k. min 256 (unat (sub_size sub) - 256 * k)) [0..<seg_count sub] ! k"
      by (simp add: segs_def seg_at_def const_defs)
  qed simp
  show "sum_list (map (\<lambda>(_, _, sz, _). unat sz) (segs a sub)) = unat (sub_size sub)"
    using segs_cover[of "seg_count sub" sub a] seg_count_full[of sub] by (simp add: min_def)
  show "map (\<lambda>(_, addr, _, _). addr) (segs a sub) = map (\<lambda>k. sub_data sub + of_nat (256 * k)) [0..<seg_count sub]"
    by (simp add: segs_def seg_at_def const_defs comp_def)
  show "map (\<lambda>(_, _, _, l). l) (segs a sub) = replicate (seg_count sub - 1) False @ [True]"
    by (rule nth_equalityI) (auto simp: segs_def seg_at_def nth_append)
qed

text \<open>
  Two packets of a window never use the same aggregator: numbers less than the aggregator
  length apart are mapped to different slots of the array, unless the 32-bit numbers wrap between
  them.
\<close>

definition agg_slot :: "sub_op_t \<Rightarrow> u32 \<Rightarrow> nat" where
  "agg_slot sub psn = unat (sub_agg_addr sub) + unat psn mod unat (sub_agg_len sub)"

lemma fill_pkt_slot:
  assumes "fill_pkt E m st = Some st'" "unat (sub_agg_addr sub) + unat (sub_agg_len sub) \<le> 2 ^ 16"
    and "sub = sub_at E (ps_sub_op st)"
  shows "unat (betoh (inc_agg_addr (inc (ps_pkt st')))) = agg_slot sub (ps_psn st)"
proof -
  have ne: "unat (sub_agg_len sub) \<noteq> 0" and i: "inc (ps_pkt st') = mk_inc (op_code (op_at E (sub_op sub)))
      (group_id (op_group (op_at E (sub_op sub)))) (group_rank (op_group (op_at E (sub_op sub)))) (op_root (op_at E (sub_op sub)))
      (of_nat (agg_slot sub (ps_psn st))) (ps_psn st)"
    using assms(1,3) by (auto simp: fill_pkt_def Let_def agg_slot_def unat_eq_0 split: if_splits)
  have "agg_slot sub (ps_psn st) < 2 ^ 16"
    using assms(2) ne mod_less_divisor[of "unat (sub_agg_len sub)" "unat (ps_psn st)"]
    unfolding agg_slot_def by linarith
  then show ?thesis by (simp add: i mk_inc_def unat_of_nat_small)
qed

theorem window_slots_distinct:
  assumes "0 < d" and "d < unat (sub_agg_len sub)" and "unat psn + d < 2 ^ 32"
  shows "agg_slot sub (psn + of_nat d) \<noteq> agg_slot sub psn"
proof
  assume eq: "agg_slot sub (psn + of_nat d) = agg_slot sub psn"
  have "unat (of_nat d :: u32) = d" using assms(3) by (intro unat_of_nat_small) simp
  then have u: "unat (psn + of_nat d) = unat psn + d" using assms(3) by (subst unat_add_small) simp_all
  from eq have "(unat psn + d) mod unat (sub_agg_len sub) = unat psn mod unat (sub_agg_len sub)"
    unfolding agg_slot_def u by (rule add_left_imp_eq)
  then have "unat (sub_agg_len sub) dvd (unat psn + d) - unat psn"
    by (metis mod_eq_dvd_iff_nat le_add1)
  then show False using assms(1,2) by (simp add: nat_dvd_not_less)
qed

theorem window_slots_distinct_witness:
  "agg_slot demo_sub (60 + of_nat 49) \<noteq> agg_slot demo_sub 60"
  by (rule window_slots_distinct) (simp_all add: demo_sub_def)

lemma mod_add_cancel: "(a + c) mod l = (b + c) mod l \<longleftrightarrow> a mod l = b mod l" for a b c l :: nat
  by (simp add: nat_mod_eq_iff)

lemma mod_of_difference:
  fixes n p d l :: nat
  assumes "n \<le> p + d"
  shows "(p + d - n) mod l = p mod l \<longleftrightarrow> d mod l = n mod l"
  using mod_add_cancel[of "p + d - n" n l p] mod_add_cancel[of d p l n] assms by (simp add: add.commute)

text \<open>
  C36: When two packets of one sub-operation, with sequence numbers less than the aggregator length apart, ask for the same
  aggregator: exactly when the 32-bit numbers wrap between them and their distance is \<open>2 ^ 32\<close> modulo
  that length. So never when the length is a power of two, and otherwise at the wrap.
\<close>

theorem aggregators_collide_at_wrap:
  assumes "fill_pkt E m st = Some st'" and "fill_pkt E m2 st2 = Some st2'"
    and "ps_sub_op st2 = ps_sub_op st" and "ps_psn st2 = ps_psn st + of_nat d"
    and "sub = sub_at E (ps_sub_op st)" and "unat (sub_agg_addr sub) + unat (sub_agg_len sub) \<le> 2 ^ 16"
    and "0 < d" and "d < unat (sub_agg_len sub)"
  shows "inc_agg_addr (inc (ps_pkt st2')) = inc_agg_addr (inc (ps_pkt st'))
    \<longleftrightarrow> 2 ^ 32 \<le> unat (ps_psn st) + d \<and> d = 2 ^ 32 mod unat (sub_agg_len sub)"
proof -
  have betoh_inj: "htobe (betoh x) = x" for x :: u16 by (rule betoh_htobe(2)) simp
  let ?L = "unat (sub_agg_len sub)" and ?p = "unat (ps_psn st)"
  have "inc_agg_addr (inc (ps_pkt st2')) = inc_agg_addr (inc (ps_pkt st'))
      \<longleftrightarrow> unat (betoh (inc_agg_addr (inc (ps_pkt st2')))) = unat (betoh (inc_agg_addr (inc (ps_pkt st'))))"
    by (metis betoh_inj word_unat_eq_iff)
  also have "\<dots> \<longleftrightarrow> agg_slot sub (ps_psn st + of_nat d) = agg_slot sub (ps_psn st)"
    using fill_pkt_slot[OF assms(1,6,5)] fill_pkt_slot[OF assms(2,6)] assms(3-5) by simp
  also have "\<dots> \<longleftrightarrow> 2 ^ 32 \<le> ?p + d \<and> d = 2 ^ 32 mod ?L"
  proof (cases "?p + d < 2 ^ 32")
    case True
    with window_slots_distinct[OF assms(7,8) True] show ?thesis by simp
  next
    case False
    have L: "?L < 2 ^ 32" using u16_bound[of "sub_agg_len sub"] by simp
    have "unat (of_nat d :: u32) = d" using assms(8) L by (intro unat_of_nat_small) simp
    then have "unat (ps_psn st + of_nat d) = (?p + d) mod 2 ^ 32" by (simp add: unat_word_ariths)
    also have "\<dots> = ?p + d - 2 ^ 32" 
      using False assms(8) L u32_bound[of "ps_psn st"] by (subst le_mod_geq) simp_all
    finally have u: "unat (ps_psn st + of_nat d) = ?p + d - 2 ^ 32" .
    have "agg_slot sub (ps_psn st + of_nat d) = agg_slot sub (ps_psn st) \<longleftrightarrow> (?p + d - 2 ^ 32) mod ?L = ?p mod ?L"
      by (simp add: agg_slot_def u)
    also have "\<dots> \<longleftrightarrow> d mod ?L = 2 ^ 32 mod ?L"
      using False mod_of_difference[of "2 ^ 32" ?p d ?L] by simp
    finally show ?thesis using False assms(8) by simp
  qed
  finally show ?thesis .
qed


theorem aggregators_collide_at_wrap_witness:
  "\<exists>st1 st2. fill_pkt (demo_env\<lparr>sub_at := \<lambda>_. demo_sub\<lparr>sub_agg_len := 3\<rparr>\<rparr>) (\<lambda>_. 0) (demo_slot\<lparr>ps_psn := - 1\<rparr>) = Some st1
    \<and> fill_pkt (demo_env\<lparr>sub_at := \<lambda>_. demo_sub\<lparr>sub_agg_len := 3\<rparr>\<rparr>) (\<lambda>_. 0) (demo_slot\<lparr>ps_psn := 0\<rparr>) = Some st2
    \<and> inc_agg_addr (inc (ps_pkt st2)) = inc_agg_addr (inc (ps_pkt st1))"
proof -
  let ?E = "demo_env\<lparr>sub_at := \<lambda>_. demo_sub\<lparr>sub_agg_len := 3\<rparr>\<rparr>"
  have "\<exists>st'. fill_pkt ?E (\<lambda>_. 0) st = Some st'" for st by (simp add: fill_pkt_def Let_def)
  then obtain st1 st2 where f: "fill_pkt ?E (\<lambda>_. 0) (demo_slot\<lparr>ps_psn := - 1\<rparr>) = Some st1" "fill_pkt ?E (\<lambda>_. 0) (demo_slot\<lparr>ps_psn := 0\<rparr>) = Some st2"
    by meson
  have "inc_agg_addr (inc (ps_pkt st2)) = inc_agg_addr (inc (ps_pkt st1))
    \<longleftrightarrow> 2 ^ 32 \<le> unat (- 1 :: u32) + 1 \<and> 1 = 2 ^ 32 mod unat (3 :: u16)"
    using aggregators_collide_at_wrap[OF f, of 1 "demo_sub\<lparr>sub_agg_len := 3\<rparr>"] by (simp add: demo_sub_def)
  then show ?thesis using f by (simp add: unsigned_minus_1_eq_mask mask_eq_exp_minus_1)
qed

text \<open>
  A worker in loopback never hangs: whatever is in its queues, a turn of its loop returns.
\<close>

theorem loopback_turn_returns:
  assumes "worker_env E contents sent delivered" and "wok E contents s"
    and "uniform E (set (contents (wq (wqp s))))" and "PACKET_LOOPBACK s"
  shows "worker_turn E base now (l, s) \<noteq> None"
  by (rule worker_env.turn_total[OF assms])

theorem loopback_turn_returns_witness:
  "worker_turn demo_env 0 0 (0, demo_w2) \<noteq> None"
  by (rule loopback_turn_returns[OF demo_worker.worker_env_axioms demo_wok(2) demo_uniform demo_w2_fields(7)])

text \<open>
  On a card that does not refuse packets forever, handling an answer and sending return.
\<close>

theorem handlers_return:
  assumes "worker_env E contents sent delivered" and "wok E contents s"
    and "uniform E (set (contents (wq (wqp s))))" and "live_nic (net E) sent delivered patience"
  shows "(\<exists>s'. rx_process_one E pkt s = Some s') \<and> (\<exists>s'. shift_ack E s = Some s') \<and> (\<exists>s'. tx_process E s = Some s')"
proof (intro conjI)
  note c = can_send_live[OF assms(4)]
  show "\<exists>s'. rx_process_one E pkt s = Some s'" by (rule worker_env.rx_one_total[OF assms(1,2) c])
  show "\<exists>s'. shift_ack E s = Some s'" using worker_env.shift_ack_effect[OF assms(1,2)] by blast
  show "\<exists>s'. tx_process E s = Some s'" by (rule worker_env.tx_process_total[OF assms(1-3) c])
qed

theorem handlers_return_witness:
  "(\<exists>s'. rx_process_one demo_env demo_pkt demo_w2 = Some s') \<and> (\<exists>s'. tx_process demo_env demo_w2 = Some s')"
proof -
  have "live_nic (net demo_env) on_wire handed busy" by (simp add: demo_env_def sim_card.live_nic_axioms)
  from handlers_return[OF demo_worker.worker_env_axioms demo_wok(2) demo_uniform this] show ?thesis by blast
qed


text \<open>
  C38: What a packet carries for an aggregated operation is what the memory held, in network order: a
  packet that comes back as it was sent puts the same bytes back where they came from.
\<close>

theorem payload_roundtrip:
  assumes "fill_pkt E m st = Some st'" and "op = op_at E (sub_op (sub_at E (ps_sub_op st)))" and "need_tx op"
    and "unat (ps_size st) \<le> PAYLOAD_SIZE" and "is_aggregated op \<longrightarrow> 4 dvd unat (ps_size st)"
  shows "mem_read (store_payload op st' (ps_pkt st') m') (ps_data st) (unat (ps_size st))
    = mem_read m (ps_data st) (unat (ps_size st))"
proof -
  let ?sz = "unat (ps_size st)" and ?mem = "mem_read m (ps_data st) (unat (ps_size st))"
  have s': "ps_data st' = ps_data st" "ps_size st' = ps_size st"
    using fill_pkt_effect(1)[OF assms(1)] by (simp_all add: seg_of_def)
  have dvd: "4 * (?sz div 4) = ?sz" if "is_aggregated op" using assms(5) that by simp
  have body: "take ?sz (payload (ps_pkt st'))
      = (if is_aggregated op then take ?sz (memcpy_htobe32 (payload (ps_pkt st)) ?mem ?sz) else ?mem)"
    using assms(1,3) dvd unfolding assms(2)
    by (auto simp: fill_pkt_def Let_def memcpy_htobe32_def split: if_splits)
  have "swap_words (?sz div 4) (payload (ps_pkt st')) = ?mem" if a: "is_aggregated op"
  proof -
    have d: "4 dvd ?sz" using assms(5) a by simp
    then have "take ?sz (payload (ps_pkt st')) = swap_words (?sz div 4) ?mem"
      using body a by (simp add: memcpy_htobe32_def)
    moreover have "swap_words (?sz div 4) (payload (ps_pkt st')) = swap_words (?sz div 4) (take ?sz (payload (ps_pkt st')))"
      using swap_words_take[of "?sz div 4" ?sz "payload (ps_pkt st')"] d by simp
    ultimately show ?thesis using swap_words_swap[of "?sz div 4" ?mem "[]"] d by simp
  qed
  moreover have "take ?sz (payload (ps_pkt st')) = ?mem" if "\<not> is_aggregated op" using body that by simp
  ultimately have "store_payload op st' (ps_pkt st') m' = mem_write m' (ps_data st) ?mem"
    by (simp add: store_payload_def s')
  moreover have "length ?mem < 2 ^ 64" using u32_bound[of "ps_size st"] by simp
  ultimately show ?thesis using mem_read_write[of ?mem m' "ps_data st"] by simp
qed

text \<open>A worker that sends the four bytes 1, 2, 3, 4 of an all-reduce.\<close>

definition sum_env :: "(ptr list, pkt card) wenv" where
  "sum_env = demo_env\<lparr>op_at := (\<lambda>_. demo_bcast\<lparr>op_code := OP_ALL_REDUCE\<rparr>)\<rparr>"

definition sum_mem :: memory where
  "sum_mem = mem_write (\<lambda>_. 0) 1000 [1, 2, 3, 4]"

theorem payload_roundtrip_witness:
  "\<exists>st'. fill_pkt sum_env sum_mem (demo_slot\<lparr>ps_size := 4\<rparr>) = Some st'
    \<and> mem_read (store_payload (demo_bcast\<lparr>op_code := OP_ALL_REDUCE\<rparr>) st' (ps_pkt st') (\<lambda>_. 0)) 1000 4 = [1, 2, 3, 4]"
proof -
  let ?st = "demo_slot\<lparr>ps_size := 4\<rparr>" and ?op = "demo_bcast\<lparr>op_code := OP_ALL_REDUCE\<rparr>"
  have "sub_agg_len (sub_at sum_env (ps_sub_op ?st)) \<noteq> 0"
    by (simp add: sum_env_def demo_env_def demo_sub_def)
  then obtain st' where st': "fill_pkt sum_env sum_mem ?st = Some st'" using fill_pkt_total by blast
  have op: "?op = op_at sum_env (sub_op (sub_at sum_env (ps_sub_op ?st)))" "need_tx ?op"
    by (simp_all add: sum_env_def need_tx_def)
  have m: "mem_read sum_mem 1000 4 = [1, 2, 3, 4]"
  proof -
    define bs where "bs = [1, 2, 3, 4 :: u8]"
    have "length bs = 4" by (simp add: bs_def)
    then show ?thesis using mem_read_write[of bs "\<lambda>_. 0" 1000] by (simp add: sum_mem_def bs_def[symmetric])
  qed
  have f: "ps_data ?st = 1000" "unat (ps_size ?st) = 4" by (simp_all add: demo_slot_def)
  have "unat (ps_size ?st) \<le> PAYLOAD_SIZE" "is_aggregated ?op \<longrightarrow> 4 dvd unat (ps_size ?st)"
    by (simp_all add: f const_defs)
  from payload_roundtrip[OF st' op this, of "\<lambda>_. 0"] st' m f show ?thesis by auto
qed

end
