(* ===== verification/HostSystem.thy ===== *)
theory HostSystem
  imports NodeSystem WorkerBooks WorkerProps
begin

text \<open>
  A whole host: the frontend, the load balancer, and the worker threads themselves, on any network. In
  \<open>NodeSystem\<close> a worker takes sub-operations and answers them in order; here a step of a worker is
  one turn of \<open>worker_loop\<close> on its own queue pair and the memory that all of them share. What a worker reads of a
  sub-operation and of its operation it reads from the heap and from \<open>op_buffer\<close> as they are at that
  moment.

  The network is not described: a card may deliver any packets at any time, and the device may
  write to the memory. The operations of a host belong to one group: a worker mixes up the packets of
  two (\<open>burst_mixes_groups\<close>).
\<close>

subsection \<open>Steps\<close>

text \<open>A worker comes with \<open>log_ts\<close>, the local of its loop.\<close>

record ('p, 'o, 's, 'c) host =
  h_front :: "('p, 'o) fe_sys"
  h_workers :: "(u32 \<times> ('s, 'c) worker) list"
  h_heap :: "ptr \<rightharpoonup> sub_op_t"
  h_next :: ptr
  h_mem :: memory

text \<open>The host as a node: what its workers hold are the sub-operations whose last packet is in their window.\<close>

definition host_node :: "('p, 'o, 's, 'c) host \<Rightarrow> ('p, 'o, 's) node" where
  "host_node s = \<lparr>front = h_front s, n_qps = map (\<lambda>(_, w). wqp w) (h_workers s), n_heap = h_heap s,
     n_next = h_next s, n_held = map (\<lambda>(_, w). held_subs w) (h_workers s)\<rparr>"

definition host_env :: "('s, ptr) spsc_ops \<Rightarrow> ('c, pkt) nic_ops \<Rightarrow> ('p, 'o, 's, 'c) host \<Rightarrow> ('s, 'c) wenv" where
  "host_env S N s = \<lparr>sub_q = S, net = N, sub_at = (\<lambda>a. the (h_heap s a)), op_at = node_ops (host_node s)\<rparr>"

definition host_put :: "('o, 's) lb_state \<Rightarrow> ptr list \<Rightarrow> ('p, 'o, 's, 'c) host \<Rightarrow> ('p, 'o, 's, 'c) host" where
  "host_put l hs s = s\<lparr>h_front := (h_front s)\<lparr>fe := (fe (h_front s))\<lparr>be_qp := shm_qp l\<rparr>, be_held := hs\<rparr>,
     h_workers := map2 (\<lambda>(t, w) q. (t, w\<lparr>wqp := q\<rparr>)) (h_workers s) (worker_qp l),
     h_heap := sub_heap l, h_next := next_sub l\<rparr>"

definition host_init :: "'p \<Rightarrow> 'o \<Rightarrow> ('s, 'c) worker list \<Rightarrow> (nat \<Rightarrow> op_t) \<Rightarrow> memory \<Rightarrow> ('p, 'o, 's, 'c) host" where
  "host_init p q ws m mem = \<lparr>h_front = fe_init p q m, h_workers = map (Pair 0) ws, h_heap = Map.empty, h_next = 0, h_mem = mem\<rparr>"

inductive host_step :: "('p, ptr) spsc_ops \<Rightarrow> ('o, ptr) spsc_ops \<Rightarrow> ('s, ptr) spsc_ops \<Rightarrow> ('c, pkt) nic_ops \<Rightarrow> fe_env
    \<Rightarrow> ('p, 'o, 's, 'c) host \<Rightarrow> ('p, 'o, 's, 'c) host \<Rightarrow> bool"
  for P :: "('p, ptr) spsc_ops" and Q :: "('o, ptr) spsc_ops" and S :: "('s, ptr) spsc_ops" and N :: "('c, pkt) nic_ops"
    and E :: fe_env where
  frontend: "fe_step P Q E (h_front s) t \<Longrightarrow> be_held t = be_held (h_front s) \<Longrightarrow> host_step P Q S N E s (s\<lparr>h_front := t\<rparr>)"
| device: "host_step P Q S N E s (s\<lparr>h_mem := m\<rparr>)"
| complete: "lb_try_complete_op Q S (node_lb (host_node s)) = Some (b, l) \<Longrightarrow>
    host_step P Q S N E s (host_put l (if b then tl (be_held (h_front s)) else be_held (h_front s)) s)"
| post: "lb_try_post_op Q S (node_ops (host_node s)) (node_lb (host_node s)) = Some (b, l) \<Longrightarrow>
    host_step P Q S N E s (host_put l
      (if b then be_held (h_front s) @ [the (front_req Q (node_qp (host_node s)))] else be_held (h_front s)) s)"
| turn: "k < length (h_workers s) \<Longrightarrow> h_workers s ! k = (lts, w) \<Longrightarrow>
    worker_turn (host_env S N s) base now (lts, w\<lparr>shm := h_mem s\<rparr>) = Some (lts', w') \<Longrightarrow>
    host_step P Q S N E s (s\<lparr>h_workers := (h_workers s)[k := (lts', w')], h_mem := shm w'\<rparr>)"

inductive host_reach :: "('p, ptr) spsc_ops \<Rightarrow> ('o, ptr) spsc_ops \<Rightarrow> ('s, ptr) spsc_ops \<Rightarrow> ('c, pkt) nic_ops \<Rightarrow> fe_env
    \<Rightarrow> ('p, 'o, 's, 'c) host \<Rightarrow> ('p, 'o, 's, 'c) host \<Rightarrow> bool"
  for P :: "('p, ptr) spsc_ops" and Q :: "('o, ptr) spsc_ops" and S :: "('s, ptr) spsc_ops" and N :: "('c, pkt) nic_ops"
    and E :: fe_env and s0 :: "('p, 'o, 's, 'c) host" where
  init: "host_reach P Q S N E s0 s0"
| step: "host_reach P Q S N E s0 s \<Longrightarrow> host_step P Q S N E s t \<Longrightarrow> host_reach P Q S N E s0 t"

text \<open>A worker as it starts its loop, and collectives of one group with an aggregator for every worker.\<close>

definition starts :: "'q \<Rightarrow> ('q, 'c) worker \<Rightarrow> bool" where
  "starts q w \<longleftrightarrow> (\<exists>prefill raws c m w0 now loop. new_worker prefill raws q c m = Some w0 \<and> length raws = MAX_WIN_LEN
     \<and> w = snd (worker_loop_init now loop w0))"

definition one_group_only :: "nat \<Rightarrow> post_args list \<Rightarrow> bool" where
  "one_group_only n as \<longleftrightarrow> (\<forall>a\<in>set as. n \<le> unat (group_agg_len (pa_group a)) \<and> (\<forall>b\<in>set as. group_id (pa_group a) = group_id (pa_group b)))"

lemma one_group_only_mono: "one_group_only n bs \<Longrightarrow> set as \<subseteq> set bs \<Longrightarrow> one_group_only n as"
  unfolding one_group_only_def by blast

lemma host_node_simps [simp]:
  "front (host_node s) = h_front s" "n_heap (host_node s) = h_heap s" "n_next (host_node s) = h_next s"
  "length (n_qps (host_node s)) = length (h_workers s)" "length (n_held (host_node s)) = length (h_workers s)"
  by (simp_all add: host_node_def)

lemma host_node_nth:
  assumes "k < length (h_workers s)" "h_workers s ! k = (t, w)"
  shows "n_qps (host_node s) ! k = wqp w" "n_held (host_node s) ! k = held_subs w"
    "owed scont (host_node s) k = owed_by scont w"
  using assms by (simp_all add: host_node_def owed_def owed_by_def)

lemma host_env_simps [simp]: "sub_q (host_env S N s) = S" "net (host_env S N s) = N"
  "sub_at (host_env S N s) a = the (h_heap s a)" "op_at (host_env S N s) = node_ops (host_node s)"
  by (simp_all add: host_env_def)

lemma held_subs_update [simp]: "held_subs (w\<lparr>wqp := q\<rparr>) = held_subs w" "held_subs (w\<lparr>shm := m\<rparr>) = held_subs w"
  by (simp_all add: held_subs_def slots_def)

lemma host_put_node:
  assumes "length (worker_qp l) = length (h_workers s)"
  shows "host_node (host_put l hs s) = node_put l hs (host_node s)"
proof -
  have "map (\<lambda>(_, w). wqp w) (map2 (\<lambda>(t, w) q. (t, w\<lparr>wqp := q\<rparr>)) (h_workers s) (worker_qp l)) = worker_qp l"
    using assms by (intro nth_equalityI) (auto split: prod.splits)
  moreover have "map (\<lambda>(_, w). held_subs w) (map2 (\<lambda>(t, w) q. (t, w\<lparr>wqp := q\<rparr>)) (h_workers s) (worker_qp l))
      = map (\<lambda>(_, w). held_subs w) (h_workers s)"
    using assms by (intro nth_equalityI) (auto split: prod.splits)
  ultimately show ?thesis by (simp add: host_node_def host_put_def node_put_def)
qed

lemma host_turn_node:
  assumes "k < length (h_workers s)"
  shows "host_node (s\<lparr>h_workers := (h_workers s)[k := (t, w)], h_mem := m\<rparr>)
    = (host_node s)\<lparr>n_qps := (n_qps (host_node s))[k := wqp w], n_held := (n_held (host_node s))[k := held_subs w]\<rparr>"
  by (simp add: host_node_def map_update)

subsection \<open>The invariant\<close>

context node_queues begin

text \<open>What a worker owes is live, and is its slice of an operation made for a segment.\<close>

lemma owed_live:
  assumes ok: "node_ok E n s" and k: "k < n" and a: "a \<in> set (owed scont s k)"
  obtains x r where "n_heap s a = Some (slice_for n k x)" "wf_op (snd x) \<in> set (be_held (front s))"
    "node_ops s (wf_op (snd x)) = fst x" "r \<in> set (given (front s))" "made_for r x"
  using ok
proof (rule node_okE)
  fix a' b d tc rc c' d' j prev
  let ?h = "created (front s)" and ?hs = "be_held (front s)"
  assume fok: "fq.fok E a' b d tc rc ?hs ?h (fe (front s))" and s: "bq.sys_ok (node_ops s) n c' d' (node_view ocont s)"
    and j: "j + length ?hs \<le> d"
    and at: "\<And>i. i < length ?hs \<Longrightarrow> ?hs ! i = wf_op (snd (?h ! (j + i)))"
      "\<And>i. i < length ?hs \<Longrightarrow> node_ops s (?hs ! i) = fst (?h ! (j + i))"
    and g: "given (front s) = prev @ todo (front s)" "list_all2 made_for prev ?h"
  have le: "d \<le> length ?h" using fok by (simp add: fe_ok_def fe_queues_ok_def)
  have m: "map (n_heap s) (owed scont s k) = map (\<lambda>p. Some (slice_of (node_ops s) n p k)) ?hs"
    using bq.sys_ok_live[OF s k] by (simp add: owed_outstanding)
  from a obtain i where i: "i < length (owed scont s k)" "a = owed scont s k ! i" by (auto simp: in_set_conv_nth)
  have il: "i < length ?hs" using arg_cong[OF m, of length] i(1) by simp
  have "n_heap s a = Some (slice_of (node_ops s) n (?hs ! i) k)"
    using arg_cong[OF m, of "\<lambda>l. l ! i"] i il by simp
  then have "n_heap s a = Some (slice_for n k (?h ! (j + i)))"
    using at(1)[OF il] at(2)[OF il] by (simp add: slice_of_def slice_for_def)
  moreover have "j + i < length ?h" using il j le by simp
  then have "prev ! (j + i) \<in> set (given (front s))" "made_for (prev ! (j + i)) (?h ! (j + i))"
    using g by (simp_all add: list_all2_conv_all_nth)
  moreover have "?hs ! i \<in> set ?hs" using il by simp
  ultimately show ?thesis using at(1)[OF il] at(2)[OF il] by (intro that[of "?h ! (j + i)" "prev ! (j + i)"]) simp_all
qed

text \<open>Which addresses are live, and for which operation, follows the queue pairs.\<close>

lemma owed_heap:
  assumes "node_ok E n s" "k < n"
  shows "map (n_heap s) (owed scont s k) = map (\<lambda>p. Some (slice_of (node_ops s) n p k)) (be_held (front s))"
proof -
  from assms(1) obtain c d where "bq.sys_ok (node_ops s) n c d (node_view ocont s)" by (auto simp: node_ok_def)
  from bq.sys_ok_live[OF this assms(2)] show ?thesis by (simp add: owed_outstanding)
qed

end

locale host_queues = nq: node_queues P pcont Q ocont S scont + card: nic N sent delivered
  for P :: "('p, ptr) spsc_ops" and pcont :: "'p \<Rightarrow> ptr list" and Q :: "('o, ptr) spsc_ops" and ocont :: "'o \<Rightarrow> ptr list"
    and S :: "('s, ptr) spsc_ops" and scont :: "'s \<Rightarrow> ptr list"
    and N :: "('c, pkt) nic_ops" and sent :: "'c \<Rightarrow> pkt option list" and delivered :: "'c \<Rightarrow> pkt option list"
begin

lemma env: "worker_env (host_env S N s) scont sent delivered"
  using nq.bq.sq.queue_pair_impl_axioms card.nic_axioms by (intro worker_env.intro) simp_all

definition worker_ok :: "('p, 'o, 's, 'c) host \<Rightarrow> ('s, 'c) worker \<Rightarrow> bool" where
  "worker_ok s w \<longleftrightarrow> wok (host_env S N s) scont w \<and> books_ok (host_env S N s) scont w"

definition host_ok :: "fe_env \<Rightarrow> nat \<Rightarrow> ('p, 'o, 's, 'c) host \<Rightarrow> bool" where
  "host_ok E n s \<longleftrightarrow> length (h_workers s) = n \<and> nq.node_ok E n (host_node s) \<and> (\<forall>(t, w)\<in>set (h_workers s). worker_ok s w)"

lemma host_okD:
  assumes "host_ok E n s" "k < n" "h_workers s ! k = (t, w)"
  shows "k < length (h_workers s)" "worker_ok s w" "(t, w) \<in> set (h_workers s)"
  using assms nth_mem[of k "h_workers s"] by (auto simp: host_ok_def)

lemma worker_ok_shm:
  assumes "worker_ok s w"
  shows "worker_ok s (w\<lparr>shm := m\<rparr>)"
proof -
  have so: "same_ok w (w\<lparr>shm := m\<rparr>)" by (simp add: same_ok_def same_window_def same_core_def)
  have "pb_ok (pbuf (w\<lparr>shm := m\<rparr>))" using assms by (simp add: worker_ok_def wok_def)
  note W = worker_env.same_ok_ok[OF env[of s] so this]
  have "owed_by scont (w\<lparr>shm := m\<rparr>) = owed_by scont w" by (simp add: owed_by_def)
  with W assms show ?thesis unfolding worker_ok_def books_ok_def by simp
qed

lemma worker_ok_agree:
  assumes "worker_ok s w" "agree (host_env S N s) (host_env S N t) (set (owed_by scont w))"
  shows "worker_ok t w"
proof -
  have "agree (host_env S N s) (host_env S N t) (set (scont (wq (wqp w))))"
    using assms(2) by (rule agree_mono) (auto simp: owed_by_def)
  with assms show ?thesis unfolding worker_ok_def using wok_agree books_agree by blast
qed

lemma owed_uniform:
  assumes ok: "host_ok E n s" and g: "one_group_only n (given (h_front s))" and n: "0 < n" and k: "k < n" "h_workers s ! k = (t, w)"
  shows "uniform (host_env S N s) (set (owed_by scont w))"
proof -
  have no: "nq.node_ok E n (host_node s)" using ok by (simp add: host_ok_def)
  have ow: "owed scont (host_node s) k = owed_by scont w" using host_node_nth(3)[OF host_okD(1)[OF ok k] k(2)] .
  have at: "sub_agg_len (sub_at (host_env S N s) a) \<noteq> 0
      \<and> (\<exists>r\<in>set (given (h_front s)). sub_group (host_env S N s) a = group_id (pa_group r))"
    if a: "a \<in> set (owed_by scont w)" for a
  proof -
    from nq.owed_live[OF no k(1), unfolded ow, OF a] obtain x r where x: "h_heap s a = Some (slice_for n k x)"
      "node_ops (host_node s) (wf_op (snd x)) = fst x" "r \<in> set (given (h_front s))" "made_for r x"
      unfolding host_node_simps .
    have grp: "op_group (fst x) = pa_group r" using x(4) by (simp add: made_for_def)
    have "n \<le> unat (group_agg_len (pa_group r))" using g x(3) by (simp add: one_group_only_def)
    then have "0 < unat (slice_agg_len n (op_group (fst x)))"
      using n by (simp add: unat_slice_agg_len grp div_greater_zero_iff)
    then have "slice_agg_len n (op_group (fst x)) \<noteq> 0" by auto
    moreover have "sub_group (host_env S N s) a = group_id (pa_group r)"
      using x(1,2) grp by (simp add: sub_group_def slice_for_def mk_sub_op_def)
    ultimately show ?thesis using x(1,3) by (auto simp: slice_for_def mk_sub_op_def)
  qed
  have "sub_group (host_env S N s) a = sub_group (host_env S N s) b" if "a \<in> set (owed_by scont w)" "b \<in> set (owed_by scont w)" for a b
  proof -
    from at[OF that(1)] at[OF that(2)] obtain r r' where "r \<in> set (given (h_front s))" "r' \<in> set (given (h_front s))"
      "sub_group (host_env S N s) a = group_id (pa_group r)" "sub_group (host_env S N s) b = group_id (pa_group r')" by blast
    with g show ?thesis unfolding one_group_only_def by metis
  qed
  with at show ?thesis unfolding uniform_def by blast
qed

text \<open>A move that leaves the live part of the heap and of \<open>op_buffer\<close> alone.\<close>

lemma host_agree:
  assumes no: "nq.node_ok E n (host_node s)" and k: "k < n"
    and h: "\<forall>a\<in>set (owed scont (host_node s) k). a \<in> A \<longrightarrow> h_heap t a = h_heap s a"
    and o: "\<forall>p\<in>set (be_held (h_front s)). node_ops (host_node t) p = node_ops (host_node s) p"
    and A: "A \<subseteq> set (owed scont (host_node s) k)"
  shows "agree (host_env S N s) (host_env S N t) A"
  unfolding agree_def
proof (intro ballI)
  fix a assume a: "a \<in> A"
  with A have a': "a \<in> set (owed scont (host_node s) k)" by blast
  from nq.owed_live[OF no k a'] obtain x where x: "h_heap s a = Some (slice_for n k x)"
    "wf_op (snd x) \<in> set (be_held (h_front s))" unfolding host_node_simps .
  have "h_heap t a = h_heap s a" using h a a' by blast
  moreover have "node_ops (host_node t) (wf_op (snd x)) = node_ops (host_node s) (wf_op (snd x))" using o x(2) by blast
  ultimately show "sub_at (host_env S N t) a = sub_at (host_env S N s) a
    \<and> op_at (host_env S N t) (sub_op (sub_at (host_env S N s) a)) = op_at (host_env S N s) (sub_op (sub_at (host_env S N s) a))"
    using x(1) by (simp add: slice_for_def mk_sub_op_def)
qed

end

subsection \<open>Every step keeps it\<close>

context host_queues begin

lemma host_put_nth:
  assumes "length (worker_qp l) = length (h_workers s)" "k < length (h_workers s)" "h_workers s ! k = (t, w)"
  shows "h_workers (host_put l hs s) ! k = (t, w\<lparr>wqp := worker_qp l ! k\<rparr>)"
  using assms by (simp add: host_put_def)

lemma workers_okI:
  assumes "length (h_workers s) = n" "nq.node_ok E n (host_node s)"
    and "\<And>k t w. k < n \<Longrightarrow> h_workers s ! k = (t, w) \<Longrightarrow> worker_ok s w"
  shows "host_ok E n s"
  using assms by (auto simp: host_ok_def in_set_conv_nth)

lemma node_len:
  assumes "nq.node_ok E n s"
  shows "length (n_qps s) = n" "length (n_held s) = n" "k < n \<Longrightarrow> nq.bq.sq.ok (length (n_held s ! k)) (n_qps s ! k)"
  using assms nq.bq.sys_okD(1,2,8) unfolding nq.node_ok_def by (metis node_view_simps)+

text \<open>The load balancer collects an answer of every worker, or gives every worker a slice.\<close>

lemma collect_ok:
  assumes ok: "host_ok E n s" and k: "k < n" "h_workers s ! k = (u, w)"
    and no: "nq.node_ok E n (host_node t)" and ops: "node_ops (host_node t) = node_ops (host_node s)"
    and q: "h_workers t ! k = (u, w\<lparr>wqp := q\<rparr>)"
    and held: "be_held (h_front s) = p # be_held (h_front t)"
    and qs: "wq q = wq (wqp w)" "scont (cq (wqp w)) \<noteq> []" "scont (cq q) = tl (scont (cq (wqp w)))"
  shows "worker_ok t (w\<lparr>wqp := q\<rparr>)"
proof -
  note W = host_okD[OF ok k]
  have kt: "k < length (h_workers t)" using node_len(1)[OF no] k(1) by simp
  have "nq.bq.sq.ok (length (held_subs w)) q"
    using node_len(3)[OF no k(1)] host_node_nth[OF kt q] by simp
  moreover obtain a where a: "scont (cq (wqp w)) = a # scont (cq q)" using qs(2,3) by (cases "scont (cq (wqp w))") simp_all
  ultimately have b: "wok (host_env S N s) scont (w\<lparr>wqp := q\<rparr>)" "owed_by scont w = a # owed_by scont (w\<lparr>wqp := q\<rparr>)"
    "books_ok (host_env S N s) scont (w\<lparr>wqp := q\<rparr>)"
    using worker_env.collect_books[OF env[of s], of w q a] W(2) qs(1) by (simp_all add: worker_ok_def)
  have ow: "owed scont (host_node s) k = a # owed_by scont (w\<lparr>wqp := q\<rparr>)" "owed scont (host_node t) k = owed_by scont (w\<lparr>wqp := q\<rparr>)"
    using host_node_nth(3)[OF W(1) k(2), of scont] host_node_nth(3)[OF kt q, of scont] b(2) by simp_all
  have ns: "nq.node_ok E n (host_node s)" using ok by (simp add: host_ok_def)
  have "map (h_heap t) (owed_by scont (w\<lparr>wqp := q\<rparr>)) = map (h_heap s) (owed_by scont (w\<lparr>wqp := q\<rparr>))"
    using nq.owed_heap[OF ns k(1)] nq.owed_heap[OF no k(1)] held unfolding ow ops by simp
  then have "agree (host_env S N s) (host_env S N t) (set (owed_by scont (w\<lparr>wqp := q\<rparr>)))"
    using ops by (intro host_agree[OF ns k(1)]) (simp_all add: ow subset_insertI)
  from worker_ok_agree[OF _ this] b show ?thesis by (simp add: worker_ok_def)
qed

lemma give_ok:
  assumes ok: "host_ok E n s" and k: "k < n" "h_workers s ! k = (u, w)"
    and no: "nq.node_ok E n (host_node t)" and ops: "node_ops (host_node t) = node_ops (host_node s)"
    and q: "h_workers t ! k = (u, w\<lparr>wqp := q\<rparr>)"
    and held: "be_held (h_front t) = be_held (h_front s) @ [p]"
    and qs: "cq q = cq (wqp w)" "scont (wq q) = scont (wq (wqp w)) @ [a]"
  shows "worker_ok t (w\<lparr>wqp := q\<rparr>)"
proof -
  note W = host_okD[OF ok k]
  have kt: "k < length (h_workers t)" using node_len(1)[OF no] k(1) by simp
  have "nq.bq.sq.ok (length (held_subs w)) q"
    using node_len(3)[OF no k(1)] host_node_nth[OF kt q] by simp
  then have ow: "owed_by scont (w\<lparr>wqp := q\<rparr>) = owed_by scont w @ [a]"
    using worker_env.give_books[OF env[of s], of w q "[a]"] W(2) qs by (simp add: worker_ok_def)
  have ns: "nq.node_ok E n (host_node s)" using ok by (simp add: host_ok_def)
  have os: "owed scont (host_node s) k = owed_by scont w" "owed scont (host_node t) k = owed_by scont w @ [a]"
    using host_node_nth(3)[OF W(1) k(2), of scont] host_node_nth(3)[OF kt q, of scont] ow by simp_all
  have "map (h_heap t) (owed_by scont w) = map (h_heap s) (owed_by scont w)"
    using nq.owed_heap[OF ns k(1)] nq.owed_heap[OF no k(1)] held unfolding os ops by simp
  then have "agree (host_env S N s) (host_env S N t) (set (owed_by scont w))"
    using ops by (intro host_agree[OF ns k(1)]) (simp_all add: os)
  from worker_ok_agree[OF W(2) this] have w: "worker_ok t w" .
  have "nq.bq.sq.ok (length (held_subs w)) q"
    using node_len(3)[OF no k(1)] host_node_nth[OF kt q] by simp
  with worker_env.give_books[OF env[of t], of w q "[a]"] w qs show ?thesis by (simp add: worker_ok_def)
qed

lemma host_lb_ok:
  assumes ok: "host_ok E n s" and t: "t = host_put l hs s" "host_node t = node_put l hs (host_node s)"
    and no: "nq.node_ok E n (host_node t)"
    and r: "host_node t = host_node s \<or>
      (\<exists>p. be_held (h_front s) = p # be_held (h_front t)) \<and> (\<forall>k<n. wq (worker_qp l ! k) = wq (n_qps (host_node s) ! k)
        \<and> scont (cq (n_qps (host_node s) ! k)) \<noteq> [] \<and> scont (cq (worker_qp l ! k)) = tl (scont (cq (n_qps (host_node s) ! k)))) \<or>
      (\<exists>p. be_held (h_front t) = be_held (h_front s) @ [p]) \<and> (\<forall>k<n. cq (worker_qp l ! k) = cq (n_qps (host_node s) ! k)
        \<and> scont (wq (worker_qp l ! k)) = scont (wq (n_qps (host_node s) ! k)) @ [n_next (host_node s) + k])"
  shows "host_ok E n t"
proof (rule workers_okI)
  have len: "length (worker_qp l) = n" using node_len(1)[OF no] t(2) by simp
  have len': "length (h_workers s) = n" using ok by (simp add: host_ok_def)
  then show "length (h_workers t) = n" using len by (simp add: t(1) host_put_def)
  show "nq.node_ok E n (host_node t)" by (rule no)
  fix k u v assume k: "k < n" "h_workers t ! k = (u, v)"
  obtain w where w: "h_workers s ! k = (u, w)" "v = w\<lparr>wqp := worker_qp l ! k\<rparr>"
    using k host_put_nth[of l s k _ _ hs] len len' unfolding t(1) by (metis prod.inject surj_pair)
  note W = host_okD[OF ok k(1) w(1)]
  have nw: "n_qps (host_node s) ! k = wqp w" using host_node_nth(1)[OF W(1) w(1)] .
  have ops: "node_ops (host_node t) = node_ops (host_node s)" using t(2) by simp
  have q: "h_workers t ! k = (u, w\<lparr>wqp := worker_qp l ! k\<rparr>)" using k(2) w(2) by simp
  from r show "worker_ok t v"
  proof (elim disjE conjE exE)
    assume same: "host_node t = host_node s"
    then have "n_qps (node_put l hs (host_node s)) ! k = wqp w" using t(2) nw by simp
    then have "v = w" using w(2) by simp
    moreover have "h_heap t = h_heap s" using same by (metis host_node_simps(2))
    then have "host_env S N t = host_env S N s" using same by (simp add: host_env_def)
    ultimately show ?thesis using W(2) by (simp add: worker_ok_def)
  next
    fix p assume "be_held (h_front s) = p # be_held (h_front t)"
    from collect_ok[OF ok k(1) w(1) no ops q this] show ?thesis if "\<forall>k<n. wq (worker_qp l ! k) = wq (n_qps (host_node s) ! k)
        \<and> scont (cq (n_qps (host_node s) ! k)) \<noteq> [] \<and> scont (cq (worker_qp l ! k)) = tl (scont (cq (n_qps (host_node s) ! k)))"
      using that[rule_format, OF k(1)] nw w(2) by simp
  next
    fix p assume "be_held (h_front t) = be_held (h_front s) @ [p]"
    from give_ok[OF ok k(1) w(1) no ops q this] show ?thesis if "\<forall>k<n. cq (worker_qp l ! k) = cq (n_qps (host_node s) ! k)
        \<and> scont (wq (worker_qp l ! k)) = scont (wq (n_qps (host_node s) ! k)) @ [n_next (host_node s) + k]"
      using that[rule_format, OF k(1)] nw w(2) by simp
  qed
qed

end

context host_queues begin

lemma host_turn_ok:
  assumes ok: "host_ok E n s" and g: "one_group_only n (given (h_front s))" and n: "0 < n"
    and k: "k < length (h_workers s)" "h_workers s ! k = (lts, w)"
    and ret: "worker_turn (host_env S N s) base now (lts, w\<lparr>shm := h_mem s\<rparr>) = Some (lts', w')"
  shows "host_ok E n (s\<lparr>h_workers := (h_workers s)[k := (lts', w')], h_mem := shm w'\<rparr>)" (is "host_ok E n ?t")
    and "writes_window (w\<lparr>shm := h_mem s\<rparr>) w'" and "worker_ok s (w\<lparr>shm := h_mem s\<rparr>)"
proof -
  have kn: "k < n" using ok k(1) by (simp add: host_ok_def)
  note W = host_okD[OF ok kn k(2)]
  show wk: "worker_ok s (w\<lparr>shm := h_mem s\<rparr>)" using worker_ok_shm[OF W(2)] .
  have sub: "set (scont (wq (wqp (w\<lparr>shm := h_mem s\<rparr>)))) \<subseteq> set (owed_by scont w)" by (auto simp: owed_by_def)
  have u: "uniform (host_env S N s) (set (scont (wq (wqp (w\<lparr>shm := h_mem s\<rparr>)))))"
    using worker_env.uniform_mono[OF env[of s] owed_uniform[OF ok g n kn k(2)] sub] .
  note wok = wk[unfolded worker_ok_def, THEN conjunct1] wk[unfolded worker_ok_def, THEN conjunct2]
  show "writes_window (w\<lparr>shm := h_mem s\<rparr>) w'" using worker_env.turn_writes[OF env ret wok(1) u] .
  note B = worker_env.turn_books[OF env ret wok(1) u wok(2)]
  have ow: "owed_by scont w' = owed_by scont w" using B by (simp add: owed_by_def)
  have nd: "host_node ?t = (host_node s)\<lparr>n_qps := (n_qps (host_node s))[k := wqp w'], n_held := (n_held (host_node s))[k := held_subs w']\<rparr>"
    using k(1) by (rule host_turn_node)
  have env_t: "host_env S N ?t = host_env S N s"
    by (simp add: host_env_def nd node_ops_def)
  have no: "nq.node_ok E n (host_node ?t)"
  proof -
    from ok obtain c d where s: "nq.bq.sys_ok (node_ops (host_node s)) n c d (node_view ocont (host_node s))"
      and f: "nq.fq.finv E (h_front s)" by (auto simp: host_ok_def nq.node_ok_def)
    have q: "nq.bq.sq.ok (length (held_subs w')) (wqp w')" using B by (simp add: wok_def winv_def held_subs_def)
    have "scont (cq (wqp w')) @ held_subs w' @ scont (wq (wqp w')) = owed scont (host_node s) k"
      using ow host_node_nth(3)[OF k] by (simp add: owed_by_def)
    from nq.worker_keeps[OF s kn q this] f nd show ?thesis by (intro nq.node_okI) (simp_all add: node_ops_def)
  qed
  show "host_ok E n ?t"
  proof (rule workers_okI[OF _ no])
    show "length (h_workers ?t) = n" using ok by (simp add: host_ok_def)
    fix i u v assume i: "i < n" "h_workers ?t ! i = (u, v)"
    show "worker_ok ?t v"
    proof (cases "i = k")
      case True
      show ?thesis unfolding worker_ok_def env_t using i k(1) B True by simp
    next
      case False
      with i have "h_workers s ! i = (u, v)" by simp
      from host_okD(2)[OF ok i(1) this] show ?thesis by (simp add: worker_ok_def env_t)
    qed
  qed
qed

lemma host_step_ok:
  assumes step: "host_step P Q S N E s t" and ok: "host_ok E n s" and n: "0 < n" and g: "one_group_only n (given (h_front t))"
    and ev: "even_sizes (given (h_front t))"
  shows "host_ok E n t \<and> (h_front t = h_front s \<or> fe_step P Q E (h_front s) (h_front t))"
proof -
  have no: "nq.node_ok E n (host_node s)" using ok by (simp add: host_ok_def)
  then obtain c d where v: "nq.bq.sys_ok (node_ops (host_node s)) n c d (node_view ocont (host_node s))"
    by (auto simp: nq.node_ok_def)
  from step show ?thesis
  proof (cases rule: host_step.cases)
    case (frontend u)
    have st: "node_step P Q S E (host_node s) ((host_node s)\<lparr>front := u\<rparr>)"
      using frontend by (intro node_step.frontend) simp_all
    have nd: "host_node t = (host_node s)\<lparr>front := u\<rparr>" using frontend(1) by (simp add: host_node_def)
    have nt: "nq.node_ok E n (host_node t)" using nq.node_step_ok[OF st no n] ev nd frontend(1) by simp
    have f: "nq.fq.finv E (h_front s)" using no by (simp add: nq.node_ok_def)
    have ops: "\<forall>p\<in>set (be_held (h_front s)). node_ops (host_node t) p = node_ops (host_node s) p"
      using nq.fe_step_held_ops[OF frontend(2) f frontend(3)] nd by (simp add: node_ops_def)
    have "host_ok E n t"
    proof (rule workers_okI[OF _ nt])
      show "length (h_workers t) = n" using ok frontend(1) by (simp add: host_ok_def)
      fix k x w assume k: "k < n" "h_workers t ! k = (x, w)"
      then have ks: "h_workers s ! k = (x, w)" using frontend(1) by simp
      note W = host_okD[OF ok k(1) ks]
      have "agree (host_env S N s) (host_env S N t) (set (owed_by scont w))"
        using frontend(1) ops host_node_nth(3)[OF W(1) ks, of scont] by (intro host_agree[OF no k(1)]) simp_all
      from worker_ok_agree[OF W(2) this] show "worker_ok t w" .
    qed
    with frontend show ?thesis by simp
  next
    case (device m)
    have e: "host_node t = host_node s" "host_env S N t = host_env S N s" "h_workers t = h_workers s"
      using device by (simp_all add: host_node_def host_env_def node_ops_def)
    with ok have "host_ok E n t" by (simp add: host_ok_def worker_ok_def)
    with device show ?thesis by simp
  next
    case (complete b l)
    from nq.lb_complete_ok[OF v n complete(2)] obtain c' nt where
      nt: "nt = node_put l (if b then tl (be_held (h_front s)) else be_held (h_front s)) (host_node s)"
        "nq.bq.sys_ok (node_ops nt) n c' d (node_view ocont nt)"
        "front nt = h_front s \<or> fe_step P Q E (h_front s) (front nt)"
        "nt = host_node s \<or> (\<exists>p. be_held (h_front s) = p # be_held (front nt)) \<and> (\<forall>k<n. wq (n_qps nt ! k) = wq (n_qps (host_node s) ! k)
          \<and> scont (cq (n_qps (host_node s) ! k)) \<noteq> [] \<and> scont (cq (n_qps nt ! k)) = tl (scont (cq (n_qps (host_node s) ! k))))"
      unfolding host_node_simps .
    have len: "length (worker_qp l) = length (h_workers s)"
      using nq.bq.sys_okD(1)[OF nt(2)] nt(1) ok by (simp add: host_ok_def)
    have nd: "host_node t = nt" using host_put_node[OF len] complete(1) nt(1) by simp
    have f: "h_front t = front nt" using nd by (metis host_node_simps(1))
    have "node_step P Q S E (host_node s) nt"
      using node_step.complete[OF complete(2), of P E] nt(1) by (simp only: host_node_simps(1))
    then have "nq.node_ok E n nt" using nq.node_step_ok[OF _ no n] ev f by simp
    then have no': "nq.node_ok E n (host_node t)" by (simp only: nd)
    have q: "n_qps nt = worker_qp l" using nt(1) by simp
    have "host_node t = host_node s \<or> (\<exists>p. be_held (h_front s) = p # be_held (h_front t)) \<and> (\<forall>k<n. wq (worker_qp l ! k) = wq (n_qps (host_node s) ! k)
        \<and> scont (cq (n_qps (host_node s) ! k)) \<noteq> [] \<and> scont (cq (worker_qp l ! k)) = tl (scont (cq (n_qps (host_node s) ! k))))"
      using nt(4) unfolding q f[symmetric] unfolding nd[symmetric] .
    then have "host_ok E n t" using nd[unfolded nt(1)] by (intro host_lb_ok[OF ok complete(1) _ no']) blast+
    with nt(3) f show ?thesis by simp
  next
    case (post b l)
    from nq.lb_post_ok[OF v n post(2)] obtain d' nt where
      nt: "nt = node_put l (if b then be_held (h_front s) @ [the (front_req Q (node_qp (host_node s)))] else be_held (h_front s)) (host_node s)"
        "nq.bq.sys_ok (node_ops nt) n c d' (node_view ocont nt)"
        "front nt = h_front s \<or> fe_step P Q E (h_front s) (front nt)"
        "nt = host_node s \<or> (\<exists>p. be_held (front nt) = be_held (h_front s) @ [p]) \<and> (\<forall>k<n. cq (n_qps nt ! k) = cq (n_qps (host_node s) ! k)
          \<and> scont (wq (n_qps nt ! k)) = scont (wq (n_qps (host_node s) ! k)) @ [n_next (host_node s) + k])"
      unfolding host_node_simps(1) .
    have len: "length (worker_qp l) = length (h_workers s)"
      using nq.bq.sys_okD(1)[OF nt(2)] nt(1) ok by (simp add: host_ok_def)
    have nd: "host_node t = nt" using host_put_node[OF len] post(1) nt(1) by simp
    have f: "h_front t = front nt" using nd by (metis host_node_simps(1))
    have "node_step P Q S E (host_node s) nt"
      using node_step.post[OF post(2), of P E] nt(1) by (simp only: host_node_simps(1))
    then have "nq.node_ok E n nt" using nq.node_step_ok[OF _ no n] ev f by simp
    then have no': "nq.node_ok E n (host_node t)" by (simp only: nd)
    have q: "n_qps nt = worker_qp l" using nt(1) by simp
    have "host_node t = host_node s \<or> (\<exists>p. be_held (h_front t) = be_held (h_front s) @ [p]) \<and> (\<forall>k<n. cq (worker_qp l ! k) = cq (n_qps (host_node s) ! k)
        \<and> scont (wq (worker_qp l ! k)) = scont (wq (n_qps (host_node s) ! k)) @ [n_next (host_node s) + k])"
      using nt(4) unfolding q f[symmetric] unfolding nd[symmetric] .
    then have "host_ok E n t" using nd[unfolded nt(1)] by (intro host_lb_ok[OF ok post(1) _ no']) blast+
    with nt(3) f show ?thesis by simp
  next
    case (turn k lts w base now lts' w')
    then have "one_group_only n (given (h_front s))" using g by simp
    from host_turn_ok(1)[OF ok this n turn(2-4)] turn(1) show ?thesis by simp
  qed
qed

lemma starts_ok:
  assumes "starts q w" "scont q = []"
  shows "wqp w = empty_pair q" "held_subs w = []" "worker_ok s w"
proof -
  from assms(1) obtain prefill raws c m w0 now lo where w: "new_worker prefill raws q c m = Some w0" "length raws = MAX_WIN_LEN"
    "w = snd (worker_loop_init now lo w0)" by (auto simp: starts_def)
  show e: "wqp w = empty_pair q"
    using w(1) by (auto simp: w(3) new_worker_def worker_loop_init_def get_time_stamp_def Let_def split: bind_splits)
  note S = worker_env.start_ok[OF env[of s] w(1,2) assms(2) w(3)]
  then show h: "held_subs w = []" by (simp add: held_subs_def)
  have "owed_by scont w = []" using h e assms(2) by (simp add: owed_by_def empty_pair_def)
  with S show "worker_ok s w" by (simp add: worker_ok_def books_ok_def lasts_def)
qed

lemma host_reach_ok:
  assumes r: "host_reach P Q S N E (host_init p q ws m mem) s" and e: "pcont p = []" "ocont q = []" "scont w0 = []"
    and ws: "ws \<noteq> []" "\<forall>w\<in>set ws. starts w0 w" and g: "one_group_only (length ws) (given (h_front s))"
    and ev: "even_sizes (given (h_front s))"
  shows "host_ok E (length ws) s \<and> fe_reach P Q E (fe_init p q m) (h_front s)"
  using r g ev
proof (induction rule: host_reach.induct)
  case init
  let ?s = "host_init p q ws m mem"
  have st: "\<And>w. w \<in> set ws \<Longrightarrow> wqp w = empty_pair w0 \<and> held_subs w = [] \<and> worker_ok ?s w"
    using ws(2) starts_ok[OF _ e(3)] by blast
  have "map wqp ws = replicate (length ws) (empty_pair w0)" "map held_subs ws = replicate (length ws) []"
    using st by (auto intro!: replicate_eqI simp: map_replicate_const[symmetric] cong: map_cong)
  then have "host_node ?s = node_init p q w0 (length ws) m"
    by (simp add: host_node_def host_init_def node_init_def comp_def)
  moreover have "nq.node_ok E (length ws) (node_init p q w0 (length ws) m)"
    using nq.node_reach_ok[OF node_reach.init e] ws(1) by (simp add: node_init_def fe_init_def even_sizes_def)
  ultimately have "host_ok E (length ws) ?s" using st by (auto simp: host_ok_def host_init_def)
  then show ?case by (simp add: host_init_def fe_reach.init)
next
  case (step s t)
  have "set (given (h_front s)) \<subseteq> set (given (h_front t))"
    using step.hyps(2) by (cases rule: host_step.cases) (auto simp: host_put_def dest: fe_step_given[THEN subsetD])
  note IH = step.IH[OF one_group_only_mono[OF step.prems(1) this] even_sizes_mono[OF step.prems(2) this]]
  from host_step_ok[OF step.hyps(2) conjunct1[OF IH] _ step.prems] ws(1) IH show ?case by (auto intro: fe_reach.step)
qed

end

subsection \<open>What a worker writes\<close>

lemma inside_offset:
  assumes "inside d n x" "unat (d - base) + unat n \<le> SHM_COPY_BUFFER_SIZE"
  shows "unat (d - base) \<le> unat (x - base)" "unat (x - base) < unat (d - base) + unat n"
proof -
  have "unat (x - d) < unat n" using assms(1) by (simp add: inside_def)
  moreover have "x - base = (d - base) + (x - d)" by simp
  moreover have "unat (d - base) + unat (x - d) < 2 ^ LENGTH(64)"
    using calculation(1) assms(2) by (simp add: SHM_COPY_BUFFER_SIZE_def FRONTEND_SEGMENT_SIZE_def)
  ultimately have "unat (x - base) = unat (d - base) + unat (x - d)" by (simp only: unat_add_small)
  with \<open>unat (x - d) < unat n\<close> show "unat (d - base) \<le> unat (x - base)" "unat (x - base) < unat (d - base) + unat n" by simp_all
qed

context host_queues begin

lemma inside_one:
  assumes no: "nq.node_ok E n (host_node s)" and n: "0 < n" "n < 2 ^ 31"
    and a: "h_heap s a = Some u" "inside (sub_data u) (sub_size u) x" and b: "h_heap s b = Some v" "inside (sub_data v) (sub_size v) x"
  shows "b = a"
proof (rule ccontr)
  assume ne: "b \<noteq> a"
  let ?o = "\<lambda>v. unat (sub_data v - copy_base E)" and ?l = "\<lambda>v. unat (sub_size v)"
  have "(?o u + ?l u \<le> ?o v \<or> ?o v + ?l v \<le> ?o u) \<and> ?o u + ?l u \<le> SHM_COPY_BUFFER_SIZE"
    using nq.node_apart[OF no n, of a u b v] a(1) b(1) ne by simp
  moreover have "?o v + ?l v \<le> SHM_COPY_BUFFER_SIZE"
    using nq.node_apart[OF no n, of b v a u] a(1) b(1) ne by simp
  ultimately show False
    using inside_offset[OF a(2), of "copy_base E"] inside_offset[OF b(2), of "copy_base E"] by linarith
qed

lemma turn_writes_own:
  assumes ok: "host_ok E n s" and g: "one_group_only n (given (h_front s))" and n: "0 < n" "n < 2 ^ 31"
    and k: "k < length (h_workers s)" "h_workers s ! k = (lts, w)"
    and ret: "worker_turn (host_env S N s) base now (lts, w\<lparr>shm := h_mem s\<rparr>) = Some (lts', w')" and x: "shm w' x \<noteq> h_mem s x"
  shows "\<exists>a\<in>set (owed scont (host_node s) k). \<exists>u. h_heap s a = Some u \<and> inside (sub_data u) (sub_size u) x
    \<and> (\<forall>b v. h_heap s b = Some v \<and> inside (sub_data v) (sub_size v) x \<longrightarrow> b = a)"
proof -
  note T = host_turn_ok[OF ok g n(1) k ret]
  have kn: "k < n" and no: "nq.node_ok E n (host_node s)" using ok k(1) by (simp_all add: host_ok_def)
  from T(2) x obtain st where st: "st \<in> set (window (w\<lparr>shm := h_mem s\<rparr>))" "inside (ps_data st) (ps_size st) x"
    unfolding writes_window_def by auto
  have "books_ok (host_env S N s) scont (w\<lparr>shm := h_mem s\<rparr>)" using T(3) by (simp add: worker_ok_def)
  from window_inside[OF this st] obtain a where a: "a \<in> set (owed_by scont (w\<lparr>shm := h_mem s\<rparr>))"
    "inside (sub_data (the (h_heap s a))) (sub_size (the (h_heap s a))) x" unfolding host_env_simps .
  have o: "a \<in> set (owed scont (host_node s) k)"
    using a(1) host_node_nth(3)[OF k, of scont] by (simp add: owed_by_def)
  from nq.owed_live[OF no kn o] obtain y where y: "h_heap s a = Some (slice_for n k y)" unfolding host_node_simps .
  with a(2) have i: "inside (sub_data (slice_for n k y)) (sub_size (slice_for n k y)) x" by simp
  from inside_one[OF no n y i] o y i show ?thesis by blast
qed

lemma host_frontend:
  "host_reach P Q S N E s0 s \<Longrightarrow> fe_step P Q E (h_front s) t \<Longrightarrow> be_held t = be_held (h_front s) \<Longrightarrow>
    host_reach P Q S N E s0 (s\<lparr>h_front := t\<rparr>)"
  by (blast intro: host_reach.step host_step.frontend)

lemma host_take:
  assumes r: "host_reach P Q S N E s0 s" and ok: "host_ok E n s" and n: "0 < n"
    and wf: "\<forall>p\<in>set (ocont (wq (node_qp (host_node s)))). op_wf (node_ops (host_node s) p)"
    and w: "ocont (wq (node_qp (host_node s))) = p # es"
  shows "\<exists>l hs. host_reach P Q S N E s0 (host_put l hs s) \<and> hs = be_held (h_front s) @ [p]"
proof -
  obtain c d where v: "nq.bq.sys_ok (node_ops (host_node s)) n c d (node_view ocont (host_node s))"
    using ok by (auto simp: host_ok_def nq.node_ok_def)
  have "op_wf (node_ops (host_node s) p)" using wf w by simp
  have w': "ocont (wq (shm_qp (lb (node_view ocont (host_node s))))) = p # es" using w by simp
  from nq.bq.post_keeps[OF v n w' \<open>op_wf _\<close>] obtain l where
    l: "lb_try_post_op Q S (node_ops (host_node s)) (node_lb (host_node s)) = Some (True, l)" unfolding node_view_simps .
  have f: "front_req Q (node_qp (host_node s)) = Some p" using w by (simp add: nq.fq.oq.front_req_eq)
  from host_reach.step[OF r host_step.post[OF l]] f show ?thesis by auto
qed

end

interpretation host_fifo: host_queues "fifo_ops QUEUE_SIZE" "\<lambda>q. q" "fifo_ops QUEUE_SIZE" "\<lambda>q. q"
  "fifo_ops QUEUE_SIZE" "\<lambda>q. q" card_ops on_wire handed
  by unfold_locales

subsection \<open>A run\<close>

text \<open>The frontend's run of two segments, with two workers in loopback.\<close>

definition host_demo0 :: "(ptr list, ptr list, ptr list, pkt card) host" where
  "host_demo0 = host_init [] [] [demo_w0, demo_w0] (\<lambda>_. \<lparr>op_code = 0, op_root = 0, op_size = 0, shm_buffer = 0,
     op_group = pa_group fe_demo_args, op_with_fut = 0\<rparr>) (\<lambda>_. 0)"

abbreviation "host_demo_reach \<equiv> host_reach (fifo_ops QUEUE_SIZE) (fifo_ops QUEUE_SIZE) (fifo_ops QUEUE_SIZE) card_ops fe_demo_env host_demo0"

lemma demo_starts: "\<forall>w\<in>set [demo_w0, demo_w0]. starts [] w"
proof -
  have "starts [] demo_w0"
    unfolding starts_def using demo_new demo_raws(1) demo_w0_def by (intro exI conjI)
  then show ?thesis by simp
qed

lemma demo_one_group: "given f = [fe_demo_seg 0, fe_demo_seg 1] \<Longrightarrow> one_group_only 2 (given f)"
  by (simp add: one_group_only_def fe_demo_seg_def segment_at_def Let_def fe_demo_args_def)

lemma host_demo_ok:
  assumes "host_demo_reach s" "given (h_front s) = [fe_demo_seg 0, fe_demo_seg 1]"
  shows "host_fifo.host_ok fe_demo_env 2 s"
proof -
  have "length [demo_w0, demo_w0] = 2" by simp
  with host_fifo.host_reach_ok[OF assms(1)[unfolded host_demo0_def] refl refl refl _ demo_starts] demo_one_group[OF assms(2)] fe_demo_even[OF assms(2)]
  show ?thesis by (metis list.distinct(1))
qed

lemma host_demo_front: "fe_demo_own\<^sup>*\<^sup>* fe_demo0 t \<Longrightarrow> host_demo_reach (host_demo0\<lparr>h_front := t\<rparr>)"
proof (induction rule: rtranclp_induct)
  case base
  have "host_demo0\<lparr>h_front := fe_demo0\<rparr> = host_demo0" by (simp add: host_demo0_def host_init_def fe_demo0_def)
  then show ?case by (simp add: host_reach.init)
next
  case (step t u)
  then show ?case using host_fifo.host_frontend[OF step.IH, of u] by simp
qed

lemma host_demo_taken: "\<exists>s w. host_demo_reach s \<and> given (h_front s) = [fe_demo_seg 0, fe_demo_seg 1]
   \<and> length (be_held (h_front s)) = 1 \<and> length (h_workers s) = 2 \<and> h_workers s ! 0 = (0, w) \<and> PACKET_LOOPBACK w"
proof -
  obtain t where t: "fe_demo_own\<^sup>*\<^sup>* fe_demo0 t" "given t = [fe_demo_seg 0, fe_demo_seg 1]" "be_held t = []" "wq (be_qp (fe t)) \<noteq> []"
    using fe_demo_submitted by blast
  let ?s = "host_demo0\<lparr>h_front := t\<rparr>"
  note r = host_demo_front[OF t(1)]
  have ok: "host_fifo.host_ok fe_demo_env 2 ?s" using host_demo_ok[OF r] t(2) by simp
  have q: "node_qp (host_node ?s) = be_qp (fe t)" by (simp add: node_qp_def)
  obtain p es where w: "wq (be_qp (fe t)) = p # es" using t(4) by (cases "wq (be_qp (fe t))") auto
  have "\<forall>p\<in>set (wq (node_qp (host_node ?s))). op_wf (node_ops (host_node ?s) p)"
    using node_fifo.waiting_wf[of fe_demo_env 2 "host_node ?s"] ok node_demo_whole[of t] t(2) by (simp add: host_fifo.host_ok_def)
  from host_fifo.host_take[OF r ok _ this] q w obtain l where
    l: "host_demo_reach (host_put l (be_held t @ [p]) ?s)" by auto
  let ?u = "host_put l (be_held t @ [p]) ?s"
  have g: "given (h_front ?u) = [fe_demo_seg 0, fe_demo_seg 1]" using t(2) by (simp add: host_put_def)
  have len: "length (h_workers ?u) = 2" using host_demo_ok[OF l g] by (simp add: host_fifo.host_ok_def)
  then have "2 \<le> length (worker_qp l)" by (simp add: host_put_def host_demo0_def host_init_def)
  then obtain q0 qs where "worker_qp l = q0 # qs" by (cases "worker_qp l") auto
  then have "h_workers ?u ! 0 = (0, demo_w0\<lparr>wqp := q0\<rparr>)" by (simp add: host_put_def host_demo0_def host_init_def)
  moreover have "PACKET_LOOPBACK demo_w0" using demo_w1_fields(8) by (simp add: demo_w1_def)
  ultimately show ?thesis using l g len t(3) by (intro exI[of _ ?u]) (simp add: host_put_def)
qed

lemma host_demo_turn: "\<exists>s w lts' w'. host_demo_reach s \<and> given (h_front s) = [fe_demo_seg 0, fe_demo_seg 1]
   \<and> length (be_held (h_front s)) = 1 \<and> 0 < length (h_workers s) \<and> h_workers s ! 0 = (0, w)
   \<and> worker_turn (host_env (fifo_ops QUEUE_SIZE) card_ops s) 0 0 (0, w\<lparr>shm := h_mem s\<rparr>) = Some (lts', w')"
proof -
  obtain s w where s: "host_demo_reach s" "given (h_front s) = [fe_demo_seg 0, fe_demo_seg 1]" "length (be_held (h_front s)) = 1"
    "length (h_workers s) = 2" "h_workers s ! 0 = (0, w)" "PACKET_LOOPBACK w" using host_demo_taken by blast
  note ok = host_demo_ok[OF s(1,2)]
  note W = host_fifo.worker_ok_shm[OF host_fifo.host_okD(2)[OF ok _ s(5)], of "h_mem s"]
  have "uniform (host_env (fifo_ops QUEUE_SIZE) card_ops s) (set (wq (wqp (w\<lparr>shm := h_mem s\<rparr>))))"
    by (rule worker_env.uniform_mono[OF host_fifo.env[of s] host_fifo.owed_uniform[OF ok demo_one_group[OF s(2)] _ _ s(5)]])
      (auto simp: owed_by_def)
  with worker_env.turn_total[OF host_fifo.env[of s]] W s(6) obtain r where
    "worker_turn (host_env (fifo_ops QUEUE_SIZE) card_ops s) 0 0 (0, w\<lparr>shm := h_mem s\<rparr>) = Some r"
    by (fastforce simp: host_fifo.worker_ok_def)
  with s show ?thesis by (cases r) auto
qed

subsection \<open>Properties\<close>

text \<open>
  C2: A host whose collectives are all of one group, with an aggregator for each worker, and of even sizes keeps the
  frontend's contract with its backend, whatever the network delivers, loses or repeats: with the real worker threads behind the load balancer, a run of the whole host is, seen from the
  frontend, a run against the backend that takes operations and answers them in order, so that
  everything shown of the frontend holds in the host. And each worker owes exactly its slices of a run
  of consecutive operations, in their order.
\<close>

theorem host_refines_frontend:
  assumes "host_queues P pcont Q ocont S scont N sent delivered"
    and "pcont p = []" and "ocont q = []" and "scont q' = []" and "ws \<noteq> []" and "\<forall>w\<in>set ws. starts q' w"
    and "host_reach P Q S N E (host_init p q ws m mem) s" and "one_group_only (length ws) (given (h_front s))"
    and "even_sizes (given (h_front s))"
  shows "fe_reach P Q E (fe_init p q m) (h_front s)
    \<and> (\<exists>j. j + length (be_held (h_front s)) \<le> length (created (h_front s))
        \<and> (\<forall>k<length ws. map (h_heap s) (owed scont (host_node s) k)
            = map (\<lambda>x. Some (slice_for (length ws) k x)) (take (length (be_held (h_front s))) (drop j (created (h_front s))))))"
proof -
  note H = host_queues.host_reach_ok[OF assms(1,7,2-6,8,9)]
  have "node_queues P pcont Q ocont S scont" using assms(1) by (simp add: host_queues_def)
  moreover have "node_queues.node_ok pcont ocont scont E (length ws) (host_node s)"
    using H host_queues.host_ok_def[OF assms(1)] by blast
  ultimately have "\<exists>j. j + length (be_held (front (host_node s))) \<le> length (created (front (host_node s)))
    \<and> (\<forall>k<length ws. map (n_heap (host_node s)) (owed scont (host_node s) k) = map (\<lambda>x. Some (slice_for (length ws) k x))
        (take (length (be_held (front (host_node s)))) (drop j (created (front (host_node s))))))"
    by (rule node_queues.node_slices)
  with H show ?thesis by simp
qed

theorem host_refines_frontend_witness:
  "\<exists>s. host_demo_reach s \<and> length (be_held (h_front s)) = 1 \<and> fe_demo_reach (h_front s)"
proof -
  obtain s where s: "host_demo_reach s" "given (h_front s) = [fe_demo_seg 0, fe_demo_seg 1]" "length (be_held (h_front s)) = 1"
    using host_demo_taken by blast
  have "one_group_only (length [demo_w0, demo_w0]) (given (h_front s))" using demo_one_group[OF s(2)] by (simp add: eval_nat_numeral)
  from host_refines_frontend[OF host_fifo.host_queues_axioms refl refl refl _ demo_starts s(1)[unfolded host_demo0_def] this fe_demo_even[OF s(2)]] s
  show ?thesis by (auto simp: fe_demo0_def)
qed

text \<open>
  C5: On a host whose collectives are all of one group, with an aggregator for each worker, and of even sizes, a turn of a worker writes to no byte of the shared memory but those of its own slices: a byte that changes
  lies in the slice of a sub-operation this worker owes, and in no other live slice, be it another
  worker's or another operation's. The worker threads of a host never race on a byte.
\<close>

theorem workers_write_own_bytes:
  assumes "host_queues P pcont Q ocont S scont N sent delivered"
    and "pcont p = []" and "ocont q = []" and "scont q' = []" and "ws \<noteq> []" and "length ws < 2 ^ 31" and "\<forall>w\<in>set ws. starts q' w"
    and "host_reach P Q S N E (host_init p q ws m mem) s" and "one_group_only (length ws) (given (h_front s))"
    and "even_sizes (given (h_front s))"
    and "k < length (h_workers s)" and "h_workers s ! k = (lts, w)"
    and "worker_turn (host_env S N s) base now (lts, w\<lparr>shm := h_mem s\<rparr>) = Some (lts', w')"
  shows "\<forall>x. shm w' x \<noteq> h_mem s x \<longrightarrow> (\<exists>a u. a \<in> set (owed scont (host_node s) k) \<and> h_heap s a = Some u
    \<and> inside (sub_data u) (sub_size u) x \<and> (\<forall>b v. h_heap s b = Some v \<and> inside (sub_data v) (sub_size v) x \<longrightarrow> b = a))"
proof -
  note H = host_queues.host_reach_ok[OF assms(1,8,2-5,7,9,10)]
  have "0 < length ws" using assms(5) by simp
  from host_queues.turn_writes_own[OF assms(1) conjunct1[OF H] assms(9) this assms(6,11-13)] show ?thesis by blast
qed

theorem workers_write_own_bytes_witness:
  "\<exists>s w lts' w'. host_demo_reach s \<and> length (be_held (h_front s)) = 1
     \<and> worker_turn (host_env (fifo_ops QUEUE_SIZE) card_ops s) 0 0 (0, w\<lparr>shm := h_mem s\<rparr>) = Some (lts', w')
     \<and> {x. shm w' x \<noteq> h_mem s x} \<subseteq> {x. \<exists>a u. a \<in> set (owed (\<lambda>q. q) (host_node s) 0) \<and> h_heap s a = Some u \<and> inside (sub_data u) (sub_size u) x}"
proof -
  obtain s w lts' w' where s: "host_demo_reach s" "given (h_front s) = [fe_demo_seg 0, fe_demo_seg 1]" "length (be_held (h_front s)) = 1"
    "0 < length (h_workers s)" "h_workers s ! 0 = (0, w)"
    "worker_turn (host_env (fifo_ops QUEUE_SIZE) card_ops s) 0 0 (0, w\<lparr>shm := h_mem s\<rparr>) = Some (lts', w')"
    using host_demo_turn by blast
  have "one_group_only (length [demo_w0, demo_w0]) (given (h_front s))" using demo_one_group[OF s(2)] by (simp add: eval_nat_numeral)
  moreover have ws: "[demo_w0, demo_w0] \<noteq> []" "length [demo_w0, demo_w0] < 2 ^ 31" by simp_all
  ultimately have "\<forall>x. shm w' x \<noteq> h_mem s x \<longrightarrow> (\<exists>a u. a \<in> set (owed (\<lambda>q. q) (host_node s) 0) \<and> h_heap s a = Some u
    \<and> inside (sub_data u) (sub_size u) x)"
    using workers_write_own_bytes[OF host_fifo.host_queues_axioms refl refl refl ws demo_starts s(1)[unfolded host_demo0_def] _ fe_demo_even[OF s(2)] s(4-6)]
    by blast
  with s(1,3,6) show ?thesis by blast
qed

end
