(* ===== verification/WorkerLimit.thy ===== *)
theory WorkerLimit
  imports WorkerSystem WorkerLive
begin

text \<open>
  The switch memory limit of the window, \<open>current_switch_window_limit\<close>: \<open>gen_pkt\<close> sets it, and nothing
  else does, when it makes the first packet of a sub-operation. What a turn makes of it, and what becomes
  of a worker whose group has too few aggregators.
\<close>

subsection \<open>Who sets the limit\<close>

definition sub_limit :: "sub_op_t \<Rightarrow> u32" where
  "sub_limit sub = ucast (sub_agg_len sub div 2)"

definition same_limit :: "('q, 'n) worker \<Rightarrow> ('q, 'n) worker \<Rightarrow> bool" where
  "same_limit s s' \<longleftrightarrow> current_switch_window_limit s' = current_switch_window_limit s \<and> cur_sub s' = cur_sub s
     \<and> current_group_id s' = current_group_id s \<and> PACKET_LOOPBACK s' = PACKET_LOOPBACK s"

lemma same_limit_refl: "same_limit s s"
  by (simp add: same_limit_def)

lemma same_limit_trans: "same_limit s s1 \<Longrightarrow> same_limit s1 s2 \<Longrightarrow> same_limit s s2"
  by (simp add: same_limit_def)

lemma transmit_limit: "transmit E p s = Some s' \<Longrightarrow> same_limit s s'"
  by (auto simp: transmit_def local_send_def same_limit_def split: if_splits)

lemma transmit_range_limit:
  fixes E :: "('q, 'n) wenv"
  assumes "transmit_range E i e s = Some s'"
  shows "same_limit s s'"
  using assms
proof (rule transmit_range.raw_induct[where P = "\<lambda>_ _ _ s s'. same_limit s s'", rotated])
  fix tr :: "('q, 'n) wenv \<Rightarrow> u32 \<Rightarrow> u32 \<Rightarrow> ('q, 'n) worker \<Rightarrow> ('q, 'n) worker option" and E i e s s'
  assume IH: "\<And>E i e s s'. tr E i e s = Some s' \<Longrightarrow> same_limit s s'"
    and "(if i = e then Some s else Option.bind (transmit E i s) (tr E (get_next_position i) e)) = Some s'"
  then show "same_limit s s'"
    by (auto split: if_splits bind_splits intro: same_limit_refl same_limit_trans[OF transmit_limit])
qed

lemma transmit_unacked_limit:
  fixes E :: "('q, 'n) wenv"
  assumes "transmit_unacked E i e c s = Some r"
  shows "same_limit s (snd r)"
  using assms
proof (rule transmit_unacked.raw_induct[where P = "\<lambda>_ _ _ _ s r. same_limit s (snd r)", rotated])
  fix tu :: "('q, 'n) wenv \<Rightarrow> u32 \<Rightarrow> u32 \<Rightarrow> u64 \<Rightarrow> ('q, 'n) worker \<Rightarrow> (u64 \<times> ('q, 'n) worker) option" and E i e c s r
  assume IH: "\<And>E i e c s r. tu E i e c s = Some r \<Longrightarrow> same_limit s (snd r)"
    and eq: "(if i = e then Some (c, s) else if has_acked s i then tu E (get_next_position i) e c s
      else Option.bind (transmit E i s) (tu E (get_next_position i) e (c + 1))) = Some r"
  from eq show "same_limit s (snd r)"
    by (auto split: if_splits bind_splits intro: same_limit_refl IH same_limit_trans[OF transmit_limit IH])
qed

lemma collect_limit: "collect_retrans E p s = Some s' \<Longrightarrow> same_limit s s'"
  by (auto simp: collect_retrans_def same_limit_def split: bind_splits dest!: transmit_range_limit)

lemma rx_one_limit:
  assumes "rx_process_one E pkt s = Some s'"
  shows "same_limit s s'"
proof -
  have m: "same_limit s (mark_acked p (s\<lparr>tos_minitor := x\<rparr>))"
    and n: "same_limit s (mark_acked p (s\<lparr>tos_minitor := x\<rparr>)\<lparr>shm := y\<rparr>)" for p x y
    by (simp_all add: mark_acked_def set_slot_def same_limit_def)
  show ?thesis
    using assms unfolding rx_process_one_def Let_def
    by (auto split: if_splits simp: same_limit_def[of s "s\<lparr>tos_minitor := _, stats := _\<rparr>"]
        intro: m n same_limit_trans[OF m collect_limit] same_limit_trans[OF n collect_limit])
qed

lemma full_retrans_limit: "full_retrans E s = Some s' \<Longrightarrow> same_limit s s'"
  by (auto simp: full_retrans_def same_limit_def split: if_splits bind_splits dest!: transmit_unacked_limit)

lemma poll_limit: "poll E s = (r, s') \<Longrightarrow> same_limit s s'"
  by (auto simp: poll_def local_receive_def same_limit_def split: if_splits list.splits prod.splits)

lemma rx_loop_limit:
  fixes E :: "('q, 'n) wenv"
  assumes "rx_loop E s = Some s'"
  shows "same_limit s s'"
  using assms
proof (rule rx_loop.raw_induct[where P = "\<lambda>_ s s'. same_limit s s'", rotated])
  fix rl :: "('q, 'n) wenv \<Rightarrow> ('q, 'n) worker \<Rightarrow> ('q, 'n) worker option" and E s s'
  assume IH: "\<And>E s s'. rl E s = Some s' \<Longrightarrow> same_limit s s'"
    and eq: "(case poll E s of
        (None, s) \<Rightarrow> Some s
      | (Some p, s) \<Rightarrow> Option.bind (rx_process_one E (contents_of s p) s) (\<lambda>s.
          let s = s\<lparr>pbuf := drop_pkt (pbuf s)\<rparr> in
          if rx_sw_buffered_pkt_cnt (pbuf s) = 0
             \<and> rx_hw_buffered_pkt_cnt (net E) (card_st s) < of_nat MAX_PKT_BURST
          then Some s else rl E s)) = Some s'"
  obtain r s1 where p: "poll E s = (r, s1)" by fastforce
  have L1: "same_limit s s1" using p by (rule poll_limit)
  have D: "same_limit x (x\<lparr>pbuf := y\<rparr>)" for x :: "('q, 'n) worker" and y by (simp add: same_limit_def)
  show "same_limit s s'"
  proof (cases r)
    case None
    with eq p L1 show ?thesis by simp
  next
    case (Some m)
    with eq p obtain s2 where s2: "rx_process_one E (contents_of s1 m) s1 = Some s2"
      by (auto split: bind_splits)
    let ?s3 = "s2\<lparr>pbuf := drop_pkt (pbuf s2)\<rparr>"
    have L3: "same_limit s ?s3" using same_limit_trans[OF same_limit_trans[OF L1 rx_one_limit[OF s2]] D] .
    have "s' = ?s3 \<or> rl E ?s3 = Some s'" using eq p Some s2 by (auto simp: Let_def split: if_splits)
    then show ?thesis using L3 same_limit_trans[OF L3 IH] by blast
  qed
qed

lemma unat_sub_limit: "unat (sub_limit sub) = unat (sub_agg_len sub) div 2"
proof -
  have "unat (sub_agg_len sub) < 2 ^ LENGTH(16)" by (rule unsigned_less)
  then have "unat (sub_agg_len sub) div 2 < 2 ^ LENGTH(32)" by simp
  then show ?thesis by (simp add: sub_limit_def unsigned_ucast_eq unat_div take_bit_nat_eq_self)
qed

lemma sub_limit_0: "sub_limit sub = 0 \<longleftrightarrow> sub_agg_len sub < 2"
  using unat_sub_limit[of sub] by (simp add: word_unat_eq_iff word_less_nat_alt div_eq_0_iff)

text \<open>The limit is of a kind \<open>P\<close> whenever a sub-operation has been begun and not ended.\<close>

definition limited :: "(u32 \<Rightarrow> bool) \<Rightarrow> ('q, 'n) worker \<Rightarrow> bool" where
  "limited P s \<longleftrightarrow> cur_sub s = None \<or> P (current_switch_window_limit s)"

context worker_env begin

lemma shift_ack_limit:
  assumes "shift_ack E s = Some s'" "ok s"
  shows "same_limit s s'"
proof -
  obtain s1 where s1: "shift_ack E s = Some s1" "s1 = s\<lparr>wqp := wqp s1, stats := stats s1, to_ack := to_ack s1, left_psn := left_psn s1\<rparr>"
    using shift_ack_effect[OF assms(2)] by blast
  have "same_limit s s1" unfolding same_limit_def by (intro conjI; subst s1(2); simp)
  then show ?thesis using s1(1) assms(1) by simp
qed


text \<open>
  What a burst does to it. As long as the work at hand has a limit of a kind \<open>P\<close>, the limit is of that kind once
  a packet has been made, and before it is what it was.
\<close>

definition limits :: "(u32 \<Rightarrow> bool) \<Rightarrow> ('q, 'n) worker \<Rightarrow> bool" where
  "limits P s \<longleftrightarrow> (\<forall>a\<in>set (work s). P (sub_limit (sub_at E a)))"

lemma pop_req_work: "pop_req (sub_q E) qp = Some qp' \<Longrightarrow> set (contents (wq qp')) \<subseteq> set (contents (wq qp))"
  using sq.pop[of "wq qp"] by (auto simp: pop_req_def sq.read_available intro: list.set_sel(2) split: if_splits)

lemma gen_limit:
  assumes "gen_pkt E t s = Some (b, s')" "limits P s" "limited P s"
  shows "limits P s'" "if b then P (current_switch_window_limit s') else same_limit s s'"
proof -
  obtain c s1 where p: "pick_sub_op E s = (c, s1)" by fastforce
  have w1: "wqp s1 = wqp s" and L1: "if c then P (current_switch_window_limit s1) else same_limit s s1"
    using p assms(2,3) by (auto simp: pick_sub_op_def sq.front_req_eq limits_def limited_def same_limit_def
        sub_limit_def Let_def split: option.splits list.splits if_splits)
  show "if b then P (current_switch_window_limit s') else same_limit s s'"
    using assms(1) p L1 by (auto simp: gen_pkt_def Let_def set_slot_def split: bool.splits if_splits bind_splits)
  have "set (work s') \<subseteq> set (work s)"
    using assms(1) p w1 by (auto simp: gen_pkt_def Let_def set_slot_def split: bool.splits if_splits bind_splits
      dest: subsetD[OF pop_req_work])
  then show "limits P s'" using assms(2) unfolding limits_def by blast
qed

lemma transmit_work: "transmit E p s = Some s' \<Longrightarrow> wqp s' = wqp s"
  by (auto simp: transmit_def local_send_def split: if_splits)

lemma limits_cong: "wqp s' = wqp s \<Longrightarrow> limits P s' = limits P s"
  by (simp add: limits_def)

lemma loop_limit:
  assumes "shift_send_loop E expect t len s = Some (t', len', s')" "limits P s" "limited P s"
  shows "limited P s' \<and> (P (current_switch_window_limit s')
    \<or> len' = len \<and> current_switch_window_limit s' = current_switch_window_limit s)"
  using assms
proof (induction "unat expect - unat len" arbitrary: t len s rule: less_induct)
  case less
  note ret = less.prems(1)
  show ?case
  proof (cases "len < expect")
    case False
    with less.prems show ?thesis by (auto simp: shift_send_loop.simps[of E])
  next
    case True
    then have lt: "unat len < unat expect" by (simp add: word_less_nat_alt)
    then have m: "unat expect - unat (len + 1) < unat expect - unat len"
      using u32_bound[of expect] by (simp add: unat_inc)
    obtain b s1 where g: "gen_pkt E t s = Some (b, s1)"
      using ret True by (auto simp: shift_send_loop.simps[of E expect] split: bind_splits)
    note G = gen_limit[OF g less.prems(2,3)]
    show ?thesis
    proof (cases b)
      case False
      then have "s' = s1" "len' = len" using ret True g by (auto simp: shift_send_loop.simps[of E expect])
      with G(2) False less.prems(3) show ?thesis by (auto simp: limited_def same_limit_def)
    next
      case b: True
      let ?s2 = "if len = 0 then s1\<lparr>left_psn := get_psn (ps_pkt (slot s1 (to_ack s1)))\<rparr> else s1"
      obtain s3 where s3: "transmit E t ?s2 = Some s3" "shift_send_loop E expect (get_next_position t) (len + 1)
          (s3\<lparr>stats := (stats s3)\<lparr>shift_send_cnt := shift_send_cnt (stats s3) + 1\<rparr>\<rparr>) = Some (t', len', s')"
        using ret True g b by (auto simp: shift_send_loop.simps[of E expect t] Let_def split: bind_splits)
      have P: "P (current_switch_window_limit s3)"
        using transmit_limit[OF s3(1)] G(2) b by (auto simp: same_limit_def)
      have "wqp s3 = wqp s1" using transmit_work[OF s3(1)] by auto
      then have "limits P s3" using limits_cong[of s3 s1] G(1) by simp
      with less.hyps[OF m s3(2)] P show ?thesis by (auto simp: limits_def limited_def)
    qed
  qed
qed

lemma shift_send_limit:
  assumes "shift_send E s = Some s'" "ok s" "\<forall>a\<in>set (work s). sub_agg_len (sub_at E a) \<noteq> 0" "one_group (in_flight s) s"
    and "limits P s" "limited P s"
  shows "limited P s' \<and> (P (current_switch_window_limit s')
    \<or> in_flight s' = in_flight s \<and> current_switch_window_limit s' = current_switch_window_limit s)"
proof -
  note D = okD[OF assms(2)]
  obtain t len s1 where l: "shift_send_loop E (expect_win_len s) (to_send s) (window_len s) s = Some (t, len, s1)"
    using assms(1) by (auto simp: shift_send_def Let_def split: bind_splits)
  have lim: "limited P s1 \<and> (P (current_switch_window_limit s1)
    \<or> len = window_len s \<and> current_switch_window_limit s1 = current_switch_window_limit s)"
    by (rule loop_limit[OF l assms(5,6)])
  have left: "0 < in_flight s \<longrightarrow> left_psn s = ps_psn (slots s (unat (to_ack s)) (in_flight s) ! 0)"
    using assms(2) by (simp add: wok_def)
  from loop_effect[OF l D(1) D(5) D(8)[symmetric] expect_bound(1)[OF assms(2)] assms(3,4) D(4) left]
  obtain new where new0: "burst s (in_flight s) s1 new" "unat len = in_flight s + length new"
    "unat t = ring_add (unat (to_ack s)) (in_flight s + length new)" by blast
  note new = new0(2,3)
  have ta: "to_ack s1 = to_ack s" using new0(1) by (simp add: burst_def Let_def send_frame_def)
  have "in_flight s' = in_flight s" if "len = window_len s"
  proof -
    have "length new = 0" using that new(1) D(5) by simp
    then have "unat t = unat (to_send s)" using new(2) D(8) by simp
    then have "t = to_send s" by (simp add: word_unat_eq_iff)
    then show ?thesis using assms(1) l ta by (auto simp: shift_send_def Let_def)
  qed
  moreover have "current_switch_window_limit s' = current_switch_window_limit s1" "cur_sub s' = cur_sub s1"
    using assms(1) l by (auto simp: shift_send_def Let_def)
  ultimately show ?thesis using lim by (auto simp: limited_def)
qed

end

subsection \<open>The sending half\<close>

text \<open>
  What the sending half of a turn does: it appends at most as many packets as the limit leaves room for, and at
  least one if the window is empty and there is work; in loopback their copies are put at the end of the thread's
  own queue.
\<close>

definition tx_rel :: "('q, 'n) wenv \<Rightarrow> ('q \<Rightarrow> ptr list) \<Rightarrow> ('q, 'n) worker \<Rightarrow> pkt_state_t list \<Rightarrow> ('q, 'n) worker \<Rightarrow> bool" where
  "tx_rel E contents s new s' \<longleftrightarrow> window s' = window s @ new \<and> rest E contents s = map seg_of new @ rest E contents s'
    \<and> (\<forall>x\<in>set new. \<not> acked x) \<and> length new \<le> unat (current_switch_window_limit s) - in_flight s
    \<and> (in_flight s = 0 \<longrightarrow> current_switch_window_limit s \<noteq> 0 \<longrightarrow> new = [] \<longrightarrow> rest E contents s = [])
    \<and> PACKET_LOOPBACK s' = PACKET_LOOPBACK s
    \<and> (PACKET_LOOPBACK s \<longrightarrow> (\<exists>again. local_queue s' = local_queue s @ again @ map ps_pkt new))"

context worker_env begin

lemma shift_send_rel:
  assumes "shift_send E s = Some s'" "ok s" "\<forall>a\<in>set (work s). sub_agg_len (sub_at E a) \<noteq> 0" "one_group (in_flight s) s"
  shows "\<exists>new. tx_rel E contents s new s'"
proof -
  from shift_send_effect[OF assms] obtain new es where new: "ok s'" "window s' = window s @ new"
    "todo s = map seg_of new @ todo s'" "\<forall>x\<in>set new. \<not> acked x" "emitted s s' es" "map snd es = map ps_pkt new"
    "in_flight s' = in_flight s + length new" "in_flight s' \<le> max (in_flight s) (unat (expect_win_len s))"
    "in_flight s' < unat (expect_win_len s) \<longrightarrow> cur_sub s' = None
         \<and> (work s' = [] \<or> current_group_id s' \<noteq> sub_group E (hd (work s')) \<and> in_flight s \<noteq> 0)"
    by blast
  note E = expect_bound(2)[OF assms(2)]
  have cw: "10 \<le> unat (cwnd_trunc (cc s))" using assms(2) by (intro cwnd_trunc_bounds) (simp add: wok_def)
  have len: "length new \<le> unat (current_switch_window_limit s) - in_flight s"
    using new(7,8) E by linarith
  have "todo s = []" if z: "in_flight s = 0" "current_switch_window_limit s \<noteq> 0" "new = []"
  proof -
    have "0 < unat (current_switch_window_limit s)" using z(2) by (simp add: unat_gt_0)
    then have "in_flight s' < unat (expect_win_len s)" using z(1,3) new(7) E cw by (simp add: const_defs)
    then have "cur_sub s' = None" "work s' = []" using new(9) z(1) by simp_all
    then show ?thesis using new(3) z(3) by (simp add: rest_def)
  qed
  moreover have "PACKET_LOOPBACK s' = PACKET_LOOPBACK s" using new(5) by (rule emits_loopback)
  moreover have "local_queue s' = local_queue s @ [] @ map ps_pkt new" if "PACKET_LOOPBACK s"
    using new(5,6) that by (simp add: emits_def)
  ultimately have "tx_rel E contents s new s'"
    unfolding tx_rel_def using new(2-4) len by (intro conjI impI exI[of _ "[]"]) simp_all
  then show ?thesis ..
qed

lemma tx_cases:
  assumes ret: "tx_process E s = Some s'" and ok: "ok s"
  obtains s1 s2 s3 where "same_ok s s1" "pb_ok (pbuf s1)" "same_limit s s1" "local_queue s1 = local_queue s"
    "full_retrans E s1 = Some s2 \<or> s2 = s1" "shift_send E s2 = Some s3"
    "s' = s3 \<or> s' = s3\<lparr>last_ack_time_stamp := global_ts s3\<rparr>"
proof -
  define s1 where "s1 = (if ack_cnt s \<noteq> prev_ack_cnt s
               then s\<lparr>prev_ack_cnt := ack_cnt s, last_ack_time_stamp := global_ts s\<rparr> else s)"
  have s1: "same_ok s s1" "pb_ok (pbuf s1)" "same_limit s s1" "local_queue s1 = local_queue s"
    using okD(4)[OF ok] by (simp_all add: s1_def same_ok_def same_window_def same_core_def same_limit_def)
  obtain s2 where s2: "(if TIMEOUT_TIME \<le> global_ts s1 - last_ack_time_stamp s1 then full_retrans E s1 else Some s1) = Some s2"
    using ret unfolding tx_process_def s1_def[symmetric] by (auto simp: Let_def split: bind_splits)
  obtain s3 where s3: "shift_send E s2 = Some s3"
    using ret s2 unfolding tx_process_def s1_def[symmetric] by (auto simp: Let_def split: bind_splits)
  have s': "s' = s3 \<or> s' = s3\<lparr>last_ack_time_stamp := global_ts s3\<rparr>"
    using ret s2 s3 unfolding tx_process_def s1_def[symmetric] by (auto simp: Let_def)
  have r: "full_retrans E s1 = Some s2 \<or> s2 = s1" using s2 by (auto split: if_splits)
  from s1 r s3 s' show thesis by (rule that)
qed

lemma same_limit_limited: "same_limit s s' \<Longrightarrow> limited P s' = limited P s"
  by (simp add: same_limit_def limited_def)

lemma tx_rel_left:
  assumes "tx_rel E contents s new s'" "same_window t s" "same_limit t s" "\<exists>again. local_queue s = local_queue t @ again"
  shows "tx_rel E contents t new s'"
proof -
  have eq: "slots s = slots t" "to_ack s = to_ack t" "to_send s = to_send t" "todo s = todo t" "PACKET_LOOPBACK s = PACKET_LOOPBACK t"
    "current_switch_window_limit s = current_switch_window_limit t"
    using same_window_invariants(2,3)[OF assms(2)] assms(2,3) by (simp_all add: same_window_def same_core_def same_limit_def)
  obtain again where again: "local_queue s = local_queue t @ again" using assms(4) by blast
  have "\<exists>more. local_queue s' = local_queue t @ more @ map ps_pkt new" if "PACKET_LOOPBACK t"
  proof -
    have "PACKET_LOOPBACK s" using that eq(5) by simp
    then obtain more' where "local_queue s' = local_queue s @ more' @ map ps_pkt new"
      using assms(1) unfolding tx_rel_def by blast
    then show ?thesis using again by (intro exI[of _ "again @ more'"]) simp
  qed
  then show ?thesis using assms(1) unfolding tx_rel_def eq by (elim conjE, intro conjI impI) (assumption | blast)+
qed

lemma tx_progress:
  assumes ret: "tx_process E s = Some s'" and ok: "ok s" and u: "uniform E (set (work s))"
    and P: "limits P s" "limited P s"
  obtains new where "ok s'" "tx_rel E contents s new s'" "limited P s'" "set (work s') \<subseteq> set (work s)"
    "P (current_switch_window_limit s') \<or> new = [] \<and> current_switch_window_limit s' = current_switch_window_limit s"
proof -
  from tx_cases[OF ret ok] obtain s1 s2 s3 where c: "same_ok s s1" "pb_ok (pbuf s1)" "same_limit s s1" "local_queue s1 = local_queue s"
    "full_retrans E s1 = Some s2 \<or> s2 = s1" "shift_send E s2 = Some s3"
    "s' = s3 \<or> s' = s3\<lparr>last_ack_time_stamp := global_ts s3\<rparr>" by metis
  have ok1: "ok s1" using same_ok_ok(1)[OF c(1,2)] ok by blast
  have F: "ok s2 \<and> same_window s1 s2 \<and> (\<exists>es. emitted s1 s2 es)"
    using c(5) full_retrans_effect[of s1 s2] ok1 emits_refl[OF ok1]
    by (metis same_window_def same_core_def)
  then obtain es where 2: "ok s2" "same_window s1 s2" "emitted s1 s2 es" by blast
  have L2: "same_limit s s2" using c(3,5) full_retrans_limit same_limit_trans by blast
  have w02: "same_window s s2" using c(1) 2(2) same_window_trans by (auto simp: same_ok_def)
  have wq: "wqp s2 = wqp s" using w02 by (simp add: same_window_def same_core_def)
  have q: "\<exists>again. local_queue s2 = local_queue s @ again" using 2(3) c(4) by (simp add: emits_def)
  have u2: "uniform E (set (work s2))" using u wq by simp
  have agg: "\<forall>a\<in>set (work s2). sub_agg_len (sub_at E a) \<noteq> 0" using u2 by (simp add: uniform_def)
  note og = uniform_one_group[OF u2 2(1)]
  from shift_send_rel[OF c(6) 2(1) agg og] obtain new where new: "tx_rel E contents s2 new s3" by blast
  have lim: "limited P s3 \<and> (P (current_switch_window_limit s3)
    \<or> in_flight s3 = in_flight s2 \<and> current_switch_window_limit s3 = current_switch_window_limit s2)"
    using shift_send_limit[OF c(6) 2(1) agg og] P limits_cong[OF wq] same_limit_limited[OF L2] by blast
  have ok3: "ok s3" "set (work s3) \<subseteq> set (work s2)" using shift_send_effect[OF c(6) 2(1) agg og] by blast+
  have same: "same_ok s3 s'" "pb_ok (pbuf s')" "same_limit s3 s'" "local_queue s' = local_queue s3" "wqp s' = wqp s3"
    using c(7) okD(4)[OF ok3(1)] by (auto simp: same_ok_def same_window_def same_core_def same_limit_def)
  have eq: "window s' = window s3" "todo s' = todo s3" "PACKET_LOOPBACK s' = PACKET_LOOPBACK s3"
    using same_ok_ok(2,3)[OF same(1,2)] same(3) by (simp_all add: same_limit_def)
  have rel: "tx_rel E contents s new s'"
    using tx_rel_left[OF new w02 L2 q] unfolding tx_rel_def eq same(4) .
  have "new = []" if "in_flight s3 = in_flight s2"
  proof -
    have "length (window s3) = length (window s2 @ new)" using new unfolding tx_rel_def by metis
    then show ?thesis using that by simp
  qed
  then have "P (current_switch_window_limit s') \<or> new = [] \<and> current_switch_window_limit s' = current_switch_window_limit s"
    using lim L2 same(3) by (auto simp: same_limit_def)
  moreover have "ok s'" using same_ok_ok(1)[OF same(1,2) ok3(1)] .
  moreover have "limited P s'" using lim same_limit_limited[OF same(3)] by blast
  moreover have "set (work s') \<subseteq> set (work s)" using ok3(2) same(5) wq by simp
  ultimately show thesis using rel by (intro that)
qed

end

subsection \<open>A whole turn\<close>

context worker_env begin

lemma io_cc:
  "local_queue (congestion_control s) = local_queue s" "PACKET_LOOPBACK (congestion_control s) = PACKET_LOOPBACK s"
  "current_switch_window_limit (congestion_control s) = current_switch_window_limit s"
  by (simp_all add: congestion_control_def worker_adjust_rate_def Let_def)

lemma turn_progress:
  assumes ret: "worker_turn E base now (l, s) = Some (l', s')" and ok: "ok s" and u: "uniform E (set (work s))"
    and P: "limits P s" "limited P s"
  obtains s1 s2 s3 new where "ok s1" "same_ok s s1" "same_limit s s1" "local_queue s1 = local_queue s"
    "rx_loop E s1 = Some s2" "ok s2" "to_ack s2 = to_ack s" "to_send s2 = to_send s"
    "window s3 = dropWhile acked (window s2)" "todo s3 = todo s" "local_queue s3 = local_queue s2" "same_limit s s3"
    "ok s'" "tx_rel E contents s3 new s'" "limited P s'" "set (work s') \<subseteq> set (work s)"
    "P (current_switch_window_limit s') \<or> new = [] \<and> current_switch_window_limit s' = current_switch_window_limit s"
proof -
  from turn_cases[OF ret ok] obtain s1 s2 s3 s4 where so1: "same_ok s s1" "pb_ok (pbuf s1)" "wqp s1 = wqp s"
    and s2: "rx_loop E s1 = Some s2" and s3: "shift_ack E s2 = Some s3" and s4: "tx_process E s3 = Some s4"
    and s': "s' = congestion_control s4 \<or> s' = reset_stats (congestion_control s4)"
    and io1: "local_queue s1 = local_queue s" "PACKET_LOOPBACK s1 = PACKET_LOOPBACK s"
      "current_switch_window_limit s1 = current_switch_window_limit s" by metis
  have L1: "same_limit s s1" using so1(1) io1 by (simp add: same_limit_def same_ok_def same_window_def same_core_def)
  note S1 = same_ok_ok[OF so1(1,2)]
  note R = rx_loop_effect[OF s2 S1(1)[OF ok]]
  have ok2: "ok s2" "wqp s2 = wqp s" "to_ack s2 = to_ack s" "to_send s2 = to_send s" "todo s2 = todo s"
    using R so1 S1(3) by (simp_all add: rx_rel_def same_ok_def same_window_def same_core_def)
  obtain s3' where A: "shift_ack E s2 = Some s3'" "ok s3'" "window s3' = dropWhile acked (window s2)"
    "wq (wqp s3') = wq (wqp s2)" "todo s3' = todo s2"
    "s3' = s2\<lparr>wqp := wqp s3', stats := stats s3', to_ack := to_ack s3', left_psn := left_psn s3'\<rparr>"
    using shift_ack_effect[OF ok2(1)] by blast
  have eq3: "s3' = s3" using A(1) s3 by simp
  note A = A[unfolded eq3]
  have q3: "local_queue s3 = local_queue s2" by (subst A(6)) simp
  have L3: "same_limit s s3"
    using same_limit_trans[OF same_limit_trans[OF L1 rx_loop_limit[OF s2]] shift_ack_limit[OF s3 ok2(1)]] .
  have w3: "work s3 = work s" using A(4) ok2(2) by simp
  have u3: "uniform E (set (work s3))" using u w3 by simp
  have P3: "limits P s3" "limited P s3" using P w3 same_limit_limited[OF L3] by (simp_all add: limits_def)
  from tx_progress[OF s4 A(2) u3 P3] obtain new where new: "ok s4" "tx_rel E contents s3 new s4" "limited P s4"
    "set (work s4) \<subseteq> set (work s3)"
    "P (current_switch_window_limit s4) \<or> new = [] \<and> current_switch_window_limit s4 = current_switch_window_limit s3" .
  have C: "ok (congestion_control s4) \<and> same_window s4 (congestion_control s4)"
    using congestion_control_ok[OF new(1)] by blast
  have so5: "same_ok (congestion_control s4) s'" "pb_ok (pbuf s')"
    using s' okD(4)[of "congestion_control s4"] C
    by (auto simp: same_ok_def same_window_def same_core_def reset_stats_def pb_ok_def)
  have ok': "ok s'" using same_ok_ok(1)[OF so5] C by blast
  have sw: "same_window s4 s'" using C so5(1) by (auto simp: same_ok_def intro: same_window_trans)
  have io: "local_queue s' = local_queue s4" "PACKET_LOOPBACK s' = PACKET_LOOPBACK s4"
    "current_switch_window_limit s' = current_switch_window_limit s4"
    using s' io_cc[of s4] by (auto simp: reset_stats_def)
  have L': "same_limit s4 s'" using sw io by (simp add: same_limit_def same_window_def same_core_def)
  have eq: "window s' = window s4" "todo s' = todo s4"
    using same_window_invariants(2,3)[OF sw] sw by (simp_all add: same_window_def same_core_def)
  have rel: "tx_rel E contents s3 new s'" using new(2) unfolding tx_rel_def eq io .
  have work': "set (work s') \<subseteq> set (work s)" using new(4) w3 sw by (simp add: same_window_def same_core_def)
  have lim: "P (current_switch_window_limit s') \<or> new = [] \<and> current_switch_window_limit s' = current_switch_window_limit s"
    using new(5) io L3 by (simp add: same_limit_def)
  have lim': "limited P s'" using new(3) same_limit_limited[OF L'] by blast
  have t3: "todo s3 = todo s" using A(5) ok2(5) by simp
  from S1(1)[OF ok] so1(1) L1 io1(1) s2 ok2(1,3,4) A(3) t3 q3 L3 ok' rel lim' work' lim show thesis by (rule that)
qed

end

subsection \<open>A group with too little memory\<close>

text \<open>
  A group whose aggregators leave a worker a single slot: the limit is then zero once the worker
  has begun, and what was not sent in the first burst never is.
\<close>

definition starved :: "('q, 'n) wenv \<Rightarrow> ('q \<Rightarrow> ptr list) \<Rightarrow> ('q, 'n) worker_sys \<Rightarrow> bool" where
  "starved E contents t \<longleftrightarrow>
     (let s = worker t; made = length (pieces E (posted t)) - length (rest E contents s)
      in limited (\<lambda>x. x = 0) s \<and> made \<le> 10
       \<and> (current_switch_window_limit s = 0 \<or> current_switch_window_limit s = 10 \<and> made = 0))"

context worker_env begin

lemma starved_change:
  assumes "starved E contents t" "same_limit (worker t) (worker t')"
    and "length (pieces E (posted t')) + length (todo (worker t)) = length (pieces E (posted t)) + length (todo (worker t'))"
  shows "starved E contents t'"
proof -
  have "length (pieces E (posted t')) - length (todo (worker t')) = length (pieces E (posted t)) - length (todo (worker t))"
    using assms(3) by linarith
  then show ?thesis using assms(1,2) unfolding starved_def Let_def limited_def same_limit_def by simp
qed

lemma starved_step:
  assumes step: "worker_step E base t t'" and inv: "sys_ok t" "starved E contents t" and u: "uniform E (set (posted t'))"
    and lim: "\<forall>a\<in>set (posted t'). sub_limit (sub_at E a) = 0"
  shows "starved E contents t'"
  using step
proof cases
  case (turn now l s')
  let ?s = "worker t" and ?P = "\<lambda>x :: u32. x = 0"
  have ok: "ok ?s" and sub: "set (work ?s) \<subseteq> set (posted t')" using inv(1) turn(1) by (simp_all add: sys_ok_def)
  have L: "limits ?P ?s" "limited ?P ?s" using lim sub inv(2) by (auto simp: limits_def starved_def Let_def)
  from turn_progress[OF turn(2) ok uniform_mono[OF u sub] L] obtain s3 new where
    r: "todo s3 = todo ?s" "same_limit ?s s3" "tx_rel E contents s3 new s'" "limited ?P s'"
    "current_switch_window_limit s' = 0 \<or> new = [] \<and> current_switch_window_limit s' = current_switch_window_limit ?s"
    by metis
  have td: "length (todo ?s) = length new + length (todo s')" using r(1,3) by (simp add: tx_rel_def)
  have "length new \<le> unat (current_switch_window_limit s3) - in_flight s3" using r(3) unfolding tx_rel_def by blast
  then have "length new \<le> unat (current_switch_window_limit s3)" by linarith
  then have n: "length new \<le> unat (current_switch_window_limit ?s)" using r(2) by (simp add: same_limit_def)
  obtain fin where "pieces E (posted t) = fin @ map seg_of (window ?s) @ todo ?s"
    using inv(1) by (auto simp: sys_ok_def ledger_def)
  then have le: "length (todo ?s) \<le> length (pieces E (posted t))" by simp
  show ?thesis
  proof (cases "current_switch_window_limit ?s = 0")
    case True
    then have "new = []" "current_switch_window_limit s' = 0" using n r(5) by auto
    then show ?thesis using inv(2) r(4) td turn(1) by (simp add: starved_def Let_def)
  next
    case False
    then have "current_switch_window_limit ?s = 10" "length (pieces E (posted t)) = length (todo ?s)"
      using inv(2) le by (auto simp: starved_def Let_def)
    then show ?thesis using r(4,5) td n turn(1) by (auto simp: starved_def Let_def)
  qed
next
  case (post a b q)
  have ok: "ok (worker t)" using inv(1) by (simp add: sys_ok_def)
  show ?thesis
    by (rule starved_change[OF inv(2)]) (use post_effect[OF ok post(2)] post(1) in \<open>simp_all add: same_limit_def pieces_def\<close>)
next
  case (collect a q)
  have ok: "ok (worker t)" using inv(1) by (simp add: sys_ok_def)
  show ?thesis
    by (rule starved_change[OF inv(2)]) (use collect_effect_ok[OF ok collect(2,3)] collect(1) in \<open>simp_all add: same_limit_def\<close>)
qed

lemma starved_reach:
  assumes "worker_reach E base s0 t" "uniform E (set (posted t))" "\<forall>a\<in>set (posted t). sub_limit (sub_at E a) = 0"
    and new: "new_worker prefill raws q n m = Some s" "length raws = MAX_WIN_LEN" "contents q = []"
    and init: "(base', s0) = worker_loop_init now lb s"
  shows "starved E contents t"
  using assms(1-3)
proof induction
  case start
  have s0: "s0 = snd (worker_loop_init now lb s)" using init by (metis snd_conv)
  have "current_switch_window_limit s0 = 10"
    using new(1) by (auto simp: s0 new_worker_def worker_loop_init_def get_time_stamp_def CC_CWND_MIN_def Let_def split: bind_splits)
  with start_ok[OF new s0] show ?case by (simp add: starved_def limited_def pieces_def)
next
  case (step t t')
  have sub: "set (posted t) \<subseteq> set (posted t')" by (rule posted_grows[OF step.hyps(2)])
  have u: "uniform E (set (posted t))" by (rule uniform_mono[OF step.prems(1) sub])
  have "starved E contents t" using step.IH[OF u] step.prems(2) sub by blast
  with reach_ok[OF step.hyps(1) u new init] show ?case by (intro starved_step[OF step.hyps(2) _ _ step.prems])
qed

end

end
