(* ===== verification/WorkerProgress.thy ===== *)
theory WorkerProgress
  imports WorkerLimit WorkerDemo
begin

text \<open>
  A worker in loopback comes to an end of its work: the answers it waits for are in its own queue, every turn
  brings the next one nearer or takes it, and an empty window is filled from the work at hand.
\<close>

subsection \<open>Answers on their way\<close>

text \<open>
  The numbers the window waits for, and the packets of the thread's own queue that answer one. In loopback
  every number waited for has a copy of its packet in the queue.
\<close>

definition awaited :: "('q, 'n) worker \<Rightarrow> u32 set" where
  "awaited s = ps_psn ` {x \<in> set (window s). \<not> acked x}"

definition useful :: "('q, 'n) worker \<Rightarrow> mbuf \<Rightarrow> bool" where
  "useful s m \<longleftrightarrow> get_group_id m = current_group_id s \<and> get_psn m \<in> awaited s"

definition covered :: "('q, 'n) worker \<Rightarrow> bool" where
  "covered s \<longleftrightarrow> (\<forall>p\<in>awaited s. \<exists>m\<in>set (local_queue s). get_group_id m = current_group_id s \<and> get_psn m = p)"

text \<open>How many packets of the queue are polled in vain before the next useful one.\<close>

definition waiting :: "('q, 'n) worker \<Rightarrow> nat" where
  "waiting s = length (takeWhile (Not \<circ> useful s) (local_queue s))"

lemma awaited_unacked: "awaited s = {} \<longleftrightarrow> unacked s = 0"
  by (auto simp: awaited_def unacked_def filter_empty_conv)

lemma awaited_nth: "awaited s = {ps_psn (window s ! i) |i. i < in_flight s \<and> \<not> acked (window s ! i)}"
proof -
  have "{x \<in> set (window s). \<not> acked x} = {window s ! i |i. i < in_flight s \<and> \<not> acked (window s ! i)}"
    unfolding set_conv_nth length_slots by blast
  then show ?thesis unfolding awaited_def by auto
qed

lemma useful_answer: "useful s m \<longleftrightarrow> (\<exists>i. answer_for s m i)"
  unfolding useful_def awaited_nth answer_for_def mem_Collect_eq by metis

lemma covered_useful:
  assumes "covered s" "unacked s \<noteq> 0"
  shows "\<exists>m\<in>set (local_queue s). useful s m"
proof -
  obtain p where p: "p \<in> awaited s" using assms(2) awaited_unacked[of s] by auto
  with assms(1) obtain m where "m \<in> set (local_queue s)" "get_group_id m = current_group_id s" "get_psn m = p"
    unfolding covered_def by metis
  with p show ?thesis unfolding useful_def by metis
qed

lemma waiting_mono:
  assumes "\<exists>m\<in>set q. P m" "\<And>m. P m \<Longrightarrow> Q m"
  shows "length (takeWhile (Not \<circ> Q) (q @ r)) \<le> length (takeWhile (Not \<circ> P) q)"
  using assms(1)
proof (induction q)
  case (Cons a q)
  then show ?case using assms(2)[of a] by auto
qed simp

context worker_env begin

lemma covered_cong:
  "window s' = window s \<Longrightarrow> local_queue s' = local_queue s \<Longrightarrow> current_group_id s' = current_group_id s \<Longrightarrow> covered s' = covered s"
  by (simp add: covered_def awaited_def)

lemma window_psn_inj:
  assumes ok: "ok s" and i: "i < in_flight s" and j: "j < in_flight s" and eq: "ps_psn (window s ! i) = ps_psn (window s ! j)"
  shows "i = j"
proof -
  have "(of_nat i :: u32) = of_nat j" using eq window_psn(1)[OF ok i] window_psn(1)[OF ok j] by simp
  moreover have "i < 2 ^ LENGTH(32)" "j < 2 ^ LENGTH(32)" using i j okD(6)[OF ok] by (simp_all add: MAX_WIN_LEN_def)
  ultimately show ?thesis by (metis unat_of_nat_small)
qed

lemma rx_step:
  assumes ok: "ok s" and lb: "PACKET_LOOPBACK s" and q: "local_queue s = m # ms" and cov: "covered s"
    and ret: "rx_process_one E m (s\<lparr>local_queue := ms\<rparr>) = Some s2"
  shows "ok s2 \<and> PACKET_LOOPBACK s2 \<and> covered s2 \<and> (if useful s m then unacked s2 < unacked s
     else unacked s2 = unacked s \<and> awaited s2 = awaited s \<and> current_group_id s2 = current_group_id s \<and> local_queue s2 = ms)"
proof -
  let ?s1 = "s\<lparr>local_queue := ms\<rparr>"
  have so: "same_ok s ?s1" "pb_ok (pbuf ?s1)"
    using okD(4)[OF ok] by (simp_all add: same_ok_def same_window_def same_core_def)
  have ok1: "ok ?s1" "window ?s1 = window s" using same_ok_ok(1,2)[OF so] ok by simp_all
  have ok2: "ok s2" using rx_one_effect[OF ok1(1) ret] by blast
  have g: "current_group_id s2 = current_group_id s" "PACKET_LOOPBACK s2"
    using rx_one_limit[OF ret] lb by (simp_all add: same_limit_def)
  have cov': "\<exists>m'\<in>set (m # ms). get_group_id m' = current_group_id s \<and> get_psn m' = p" if "p \<in> awaited s" for p
    using cov that q by (simp add: covered_def)
  show ?thesis
  proof (cases "useful s m")
    case True
    then obtain i where i: "answer_for s m i" by (auto simp: useful_answer)
    then have i1: "answer_for ?s1 m i" using ok1(2) by (simp add: answer_for_def)
    note H = rx_one_hit[OF ok1(1) i1 ret]
    have il: "i < length (window s)" "\<not> acked (window s ! i)" and mi: "get_psn m = ps_psn (window s ! i)"
      using i by (simp_all add: answer_for_def)
    have w2: "window s2 = (window s)[i := (window s ! i)\<lparr>acked := True\<rparr>]" using H ok1(2) by metis
    have less: "unacked s2 < unacked s" using unacked_update[OF il] w2 unfolding unacked_def by metis
    obtain es where "emitted ?s1 s2 es" using H by blast
    then have q2: "set ms \<subseteq> set (local_queue s2)" by (simp add: emits_def)
    have "\<exists>m'\<in>set (local_queue s2). get_group_id m' = current_group_id s2 \<and> get_psn m' = p" if p: "p \<in> awaited s2" for p
    proof -
      have len: "in_flight s2 = in_flight s" using arg_cong[OF w2, of length] by simp
      from p obtain j where j: "j < in_flight s2" "\<not> acked (window s2 ! j)" "p = ps_psn (window s2 ! j)"
        unfolding awaited_nth by blast
      have ne: "j \<noteq> i" using j(2) il(1) unfolding w2 by (metis nth_list_update_eq pkt_state_t.select_convs(1) pkt_state_t.surjective pkt_state_t.update_convs(1))
      then have wj: "window s2 ! j = window s ! j" unfolding w2 by simp
      have j': "j < in_flight s" "p = ps_psn (window s ! j)" "\<not> acked (window s ! j)" using j len wj by metis+
      have "p \<noteq> get_psn m"
      proof
        assume "p = get_psn m"
        then have "ps_psn (window s ! j) = ps_psn (window s ! i)" using j'(2) mi by metis
        moreover have "i < in_flight s" using il(1) by simp
        ultimately show False using window_psn_inj[OF ok j'(1)] ne by blast
      qed
      moreover have "p \<in> awaited s" using j' unfolding awaited_nth by blast
      ultimately show ?thesis using cov' q2 g(1) by auto
    qed
    then have "covered s2" by (simp add: covered_def)
    with True less ok2 g show ?thesis by simp
  next
    case False
    then have miss: "\<forall>i. \<not> answer_for ?s1 m i" using ok1(2) by (simp add: useful_answer answer_for_def)
    note M = rx_one_miss[OF ok1(1) miss ret]
    have w2: "window s2 = window s" using M same_ok_ok(2)[of ?s1 s2] ok1(2) by (simp add: emits_def)
    have q2: "local_queue s2 = ms" using M lb by (simp add: emits_def)
    have aw: "awaited s2 = awaited s" "unacked s2 = unacked s" unfolding awaited_def unacked_def w2 by simp_all
    have "covered s2"
      using cov' False g(1) unfolding covered_def aw q2 useful_def by auto
    with False ok2 g aw q2 show ?thesis by simp
  qed
qed

lemma pbuf_update:
  "unacked (s\<lparr>pbuf := x\<rparr>) = unacked s" "awaited (s\<lparr>pbuf := x\<rparr>) = awaited s" "covered (s\<lparr>pbuf := x\<rparr>) = covered s"
  "waiting (s\<lparr>pbuf := x\<rparr>) = waiting s"
  by (simp_all add: unacked_def awaited_def covered_def waiting_def useful_def[abs_def] slots_def)

lemma waiting_miss:
  assumes "local_queue s = m # ms" "\<not> useful s m" "awaited s' = awaited s" "current_group_id s' = current_group_id s"
    "local_queue s' = ms"
  shows "waiting s' < waiting s"
  using assms by (simp add: waiting_def useful_def[abs_def])

text \<open>The receiving half of a turn in loopback brings the next answer nearer, or takes it.\<close>

definition rx_progress :: "('q, 'n) worker \<Rightarrow> ('q, 'n) worker \<Rightarrow> bool" where
  "rx_progress s s' \<longleftrightarrow> covered s' \<and> (unacked s' < unacked s
     \<or> unacked s' = unacked s \<and> awaited s' = awaited s \<and> (unacked s \<noteq> 0 \<longrightarrow> waiting s' < waiting s))"

lemma rx_progress_trans: "rx_progress s s1 \<Longrightarrow> rx_progress s1 s2 \<Longrightarrow> rx_progress s s2"
  unfolding rx_progress_def by (elim conjE disjE) (simp_all, linarith)

lemma rx_loop_progress:
  assumes "rx_loop E s = Some s'" "ok s" "PACKET_LOOPBACK s" "covered s"
  shows "rx_progress s s'"
  using assms
proof (induction s rule: wf_induct_rule[OF wf_measures[of "[unacked, length \<circ> local_queue]"]])
  case (1 s)
  note IH = "1.IH" and ret = "1.prems"(1) and ok = "1.prems"(2) and lb = "1.prems"(3) and cov = "1.prems"(4)
  show ?case
  proof (cases "local_queue s")
    case Nil
    then have "s' = s" using ret lb by (simp add: rx_loop.simps[of E s] poll_def local_receive_def)
    moreover have "unacked s = 0" using covered_useful[OF cov] Nil by auto
    ultimately show ?thesis using cov by (simp add: rx_progress_def)
  next
    case (Cons m ms)
    define s1 where "s1 = s\<lparr>local_queue := ms\<rparr>"
    have p: "poll E s = (Some (Arrived m), s1)" using lb Cons by (simp add: poll_def local_receive_def s1_def)
    obtain s2 where s2: "rx_process_one E m s1 = Some s2"
      using ret p by (auto simp: rx_loop.simps[of E s] contents_of_def split: bind_splits)
    note S = rx_step[OF ok lb Cons cov s2[unfolded s1_def]]
    define s3 where "s3 = s2\<lparr>pbuf := drop_pkt (pbuf s2)\<rparr>"
    have so3: "same_ok s2 s3" "pb_ok (pbuf s3)" using drop_same_ok[of s2] S by (simp_all add: s3_def)
    have ok3: "ok s3" using same_ok_ok(1)[OF so3] S by blast
    have 3: "PACKET_LOOPBACK s3" "local_queue s3 = local_queue s2" "current_group_id s3 = current_group_id s2"
      using S by (simp_all add: s3_def)
    have e3: "unacked s3 = unacked s2" "awaited s3 = awaited s2" "covered s3 = covered s2" "waiting s3 = waiting s2"
      unfolding s3_def by (rule pbuf_update)+
    have "rx_progress s s3 \<and> (s3, s) \<in> measures [unacked, length \<circ> local_queue]"
    proof (cases "useful s m")
      case True
      with S have "unacked s3 < unacked s" "covered s3" unfolding e3 by simp_all
      then show ?thesis by (simp add: rx_progress_def)
    next
      case False
      with S have "unacked s2 = unacked s" "awaited s2 = awaited s" "current_group_id s2 = current_group_id s"
        "local_queue s2 = ms" "covered s2" by simp_all
      then show ?thesis using waiting_miss[OF Cons False, of s2] Cons 3(2) by (simp add: rx_progress_def e3)
    qed
    then have P3: "rx_progress s s3" and m: "(s3, s) \<in> measures [unacked, length \<circ> local_queue]" by blast+
    have "s' = s3 \<or> rx_loop E s3 = Some s'"
      using ret p s2 by (auto simp: rx_loop.simps[of E s] contents_of_def s3_def Let_def split: if_splits)
    moreover have "rx_progress s3 s'" if "rx_loop E s3 = Some s'"
      using IH[OF m that ok3 3(1)] S e3(3) by simp
    ultimately show ?thesis using P3 rx_progress_trans by blast
  qed
qed

end

subsection \<open>Every turn makes progress\<close>

definition live :: "('q, 'n) wenv \<Rightarrow> ('q \<Rightarrow> ptr list) \<Rightarrow> ('q, 'n) worker \<Rightarrow> bool" where
  "live E contents s \<longleftrightarrow> wok E contents s \<and> PACKET_LOOPBACK s \<and> covered s \<and> current_switch_window_limit s \<noteq> 0
     \<and> (unacked s = 0 \<longrightarrow> in_flight s = 0)"

definition all_done :: "('q, 'n) wenv \<Rightarrow> ('q \<Rightarrow> ptr list) \<Rightarrow> ('q, 'n) worker \<Rightarrow> bool" where
  "all_done E contents s \<longleftrightarrow> rest E contents s = [] \<and> in_flight s = 0"

text \<open>What is left to do: packets to be made or answered; whether the window waits for any; how far the next answer is.\<close>

definition distance :: "('q, 'n) wenv \<Rightarrow> ('q \<Rightarrow> ptr list) \<Rightarrow> ('q, 'n) worker \<Rightarrow> nat \<times> nat \<times> nat" where
  "distance E contents s = (length (rest E contents s) + unacked s, if unacked s = 0 then 1 else 0, waiting s)"

abbreviation nearer :: "((nat \<times> nat \<times> nat) \<times> (nat \<times> nat \<times> nat)) set" where
  "nearer \<equiv> less_than <*lex*> less_than <*lex*> less_than"

lemma unacked_append:
  assumes "window s' = dropWhile acked w @ new" "\<forall>x\<in>set new. \<not> acked x"
  shows "unacked s' = length (filter (Not \<circ> acked) w) + length new" "unacked s' = 0 \<Longrightarrow> in_flight s' = 0"
proof -
  have d: "filter (Not \<circ> acked) (dropWhile acked w) = filter (Not \<circ> acked) w" by (induction w) auto
  have n: "filter (Not \<circ> acked) new = new" using assms(2) by (simp add: filter_id_conv)
  show eq: "unacked s' = length (filter (Not \<circ> acked) w) + length new" by (simp add: unacked_def assms(1) d n)
  assume z: "unacked s' = 0"
  have "dropWhile acked w = []"
  proof (rule ccontr)
    assume ne: "dropWhile acked w \<noteq> []"
    then have "\<not> acked (hd (dropWhile acked w))" by (rule hd_dropWhile)
    with ne have "hd (dropWhile acked w) \<in> set (filter (Not \<circ> acked) (dropWhile acked w))" by simp
    moreover have "filter (Not \<circ> acked) (dropWhile acked w) = []" using z eq d by simp
    ultimately show False by (metis empty_iff list.set(1))
  qed
  then have "length (window s') = 0" using z eq by (simp add: assms(1))
  then show "in_flight s' = 0" by simp
qed

lemma awaited_append:
  assumes "window s' = dropWhile acked w @ new" "\<forall>x\<in>set new. \<not> acked x"
  shows "awaited s' = ps_psn ` {x \<in> set w. \<not> acked x} \<union> ps_psn ` set new"
proof -
  have "{x \<in> set (dropWhile acked w). \<not> acked x} = {x \<in> set w. \<not> acked x}"
    by (induction w) auto
  then show ?thesis unfolding awaited_def assms(1) using assms(2) by auto
qed

context worker_env begin

text \<open>The sending half keeps the packets waited for covered and brings no answer further away.\<close>

lemma send_covered:
  assumes w: "window s' = dropWhile acked (window s) @ new" and n: "\<forall>x\<in>set new. \<not> acked x"
    and ok: "ok s" "ok s'" and cov: "covered s"
    and q: "local_queue s' = local_queue s @ again @ map ps_pkt new"
  shows "covered s'" "unacked s \<noteq> 0 \<Longrightarrow> waiting s' \<le> waiting s"
proof -
  have aw: "awaited s' = awaited s \<union> ps_psn ` set new"
    using awaited_append[OF w n] by (simp add: awaited_def)
  have grp: "get_group_id (ps_pkt x) = current_group_id s'" "get_psn (ps_pkt x) = ps_psn x" if "x \<in> set (window s')" for x
    using okD(1)[OF ok(2)] that by (simp_all add: winv_def)
  have g: "current_group_id s' = current_group_id s" if u: "unacked s \<noteq> 0"
  proof -
    obtain x where x: "x \<in> set (window s)" "\<not> acked x" using u by (auto simp: unacked_def filter_empty_conv)
    have "dropWhile acked (window s) \<noteq> []" using x by (auto simp: dropWhile_eq_Nil_conv)
    then obtain y where y: "y \<in> set (dropWhile acked (window s))" by (meson list.set_sel(1))
    have "y \<in> set (window s')" "y \<in> set (window s)" using y unfolding w by (auto dest: set_dropWhileD)
    then show ?thesis using grp(1) okD(1)[OF ok(1)] unfolding winv_def by metis
  qed
  have "\<exists>m\<in>set (local_queue s'). get_group_id m = current_group_id s' \<and> get_psn m = p" if "p \<in> awaited s'" for p
    using that unfolding aw
  proof
    assume p: "p \<in> awaited s"
    then have "unacked s \<noteq> 0" using awaited_unacked[of s] by auto
    with g p cov show ?thesis unfolding covered_def q by auto
  next
    assume "p \<in> ps_psn ` set new"
    then obtain x where x: "x \<in> set new" "p = ps_psn x" by blast
    then have "x \<in> set (window s')" unfolding w by simp
    with grp x show ?thesis by (intro bexI[of _ "ps_pkt x"]) (simp_all add: q)
  qed
  then show "covered s'" by (simp add: covered_def)
  show "waiting s' \<le> waiting s" if u: "unacked s \<noteq> 0"
  proof -
    have "useful s' m" if "useful s m" for m using that g[OF u] by (simp add: useful_def aw)
    then show ?thesis
      unfolding waiting_def q using covered_useful[OF cov u] by (intro waiting_mono) auto
  qed
qed

lemma turn_live:
  assumes ret: "worker_turn E base now (l, s) = Some (l', s')" and lv: "live E contents s"
    and u: "uniform E (set (work s))" and lim: "limits (\<lambda>x. x \<noteq> 0) s"
  shows "live E contents s'" "set (work s') \<subseteq> set (work s)"
    "all_done E contents s \<or> (distance E contents s', distance E contents s) \<in> nearer"
proof -
  have ok: "ok s" and lb: "PACKET_LOOPBACK s" and cov: "covered s" and l0: "current_switch_window_limit s \<noteq> 0"
    and idle: "unacked s = 0 \<longrightarrow> in_flight s = 0"
    using lv by (simp_all add: live_def)
  have L: "limited (\<lambda>x. x \<noteq> 0) s" using l0 by (simp add: limited_def)
  from turn_progress[OF ret ok u lim L] obtain s1 s2 s3 new where t: "ok s1" "same_ok s s1" "same_limit s s1"
    "local_queue s1 = local_queue s" "rx_loop E s1 = Some s2" "ok s2" "to_ack s2 = to_ack s" "to_send s2 = to_send s"
    "window s3 = dropWhile acked (window s2)" "todo s3 = todo s" "local_queue s3 = local_queue s2" "same_limit s s3"
    "ok s'" "tx_rel E contents s3 new s'" "set (work s') \<subseteq> set (work s)"
    "current_switch_window_limit s' \<noteq> 0 \<or> new = [] \<and> current_switch_window_limit s' = current_switch_window_limit s" .
  show "set (work s') \<subseteq> set (work s)" by (rule t(15))
  have w1: "window s1 = window s" using t(2) same_window_invariants(3)[of s s1]
    by (simp add: same_ok_def same_window_def same_core_def)
  have e1: "unacked s1 = unacked s" "awaited s1 = awaited s" "covered s1 = covered s" "waiting s1 = waiting s" "PACKET_LOOPBACK s1"
    using t(3,4) lb unfolding unacked_def awaited_def covered_def waiting_def useful_def[abs_def] w1 same_limit_def by simp_all
  have R: "rx_progress s1 s2" using rx_loop_progress[OF t(5,1) e1(5)] cov e1(3) by simp
  have lb3: "PACKET_LOOPBACK s3" "PACKET_LOOPBACK s'" using t(12,14) lb by (simp_all add: same_limit_def tx_rel_def)
  obtain again where q: "local_queue s' = local_queue s2 @ again @ map ps_pkt new"
    using t(11,14) lb3(1) by (auto simp: tx_rel_def)
  have w': "window s' = dropWhile acked (window s2) @ new" and n: "\<forall>x\<in>set new. \<not> acked x"
    and td: "length (todo s) = length new + length (todo s')"
    using t(9,10,14) by (simp_all add: tx_rel_def)
  note A = unacked_append[OF w' n, folded unacked_def]
  have cov2: "covered s2" using R by (simp add: rx_progress_def)
  note C = send_covered[OF w' n t(6,13) cov2 q]
  have l': "current_switch_window_limit s' \<noteq> 0" using t(16) l0 by auto
  show "live E contents s'" unfolding live_def using t(13) lb3(2) C(1) l' A(2) by blast
  show "all_done E contents s \<or> (distance E contents s', distance E contents s) \<in> nearer"
  proof (cases "unacked s2 < unacked s")
    case True
    then show ?thesis using A(1) td by (simp add: distance_def)
  next
    case False
    then have same: "unacked s2 = unacked s" "unacked s \<noteq> 0 \<longrightarrow> waiting s2 < waiting s"
      using R e1 by (auto simp: rx_progress_def)
    show ?thesis
    proof (cases "unacked s = 0")
      case False
      then show ?thesis using same C(2) A(1) td by (auto simp: distance_def)
    next
      case True
      then have "in_flight s2 = 0" using idle t(7,8) by simp
      then have "in_flight s3 = 0" using arg_cong[OF t(9), of length] by simp
      moreover have "current_switch_window_limit s3 \<noteq> 0" using t(12) l0 by (simp add: same_limit_def)
      ultimately have "new = [] \<longrightarrow> todo s = []" using t(10,14) unfolding tx_rel_def by auto
      then show ?thesis using True idle A(1) same(1) td by (auto simp: all_done_def distance_def)
    qed
  qed
qed

lemma live_step:
  assumes step: "worker_step E base t t'" and inv: "sys_ok t" "live E contents (worker t)" and u: "uniform E (set (posted t'))"
    and lim: "\<forall>a\<in>set (posted t'). sub_limit (sub_at E a) \<noteq> 0"
  shows "live E contents (worker t')"
  using step
proof cases
  case (turn now l s')
  have sub: "set (work (worker t)) \<subseteq> set (posted t')" using inv(1) turn(1) by (simp add: sys_ok_def)
  then have "limits (\<lambda>x. x \<noteq> 0) (worker t)" using lim unfolding limits_def by blast
  with turn_live(1)[OF turn(2) inv(2) uniform_mono[OF u sub]] show ?thesis using turn(1) by simp
next
  case (post a b q)
  have ok: "ok (worker t)" using inv(1) by (simp add: sys_ok_def)
  show ?thesis using inv(2) post_effect(1)[OF ok post(2)] post(1)
    by (simp add: live_def unacked_def covered_def awaited_def)
next
  case (collect a q)
  have ok: "ok (worker t)" using inv(1) by (simp add: sys_ok_def)
  show ?thesis using inv(2) collect_effect_ok(1)[OF ok collect(2,3)] collect(1)
    by (simp add: live_def unacked_def covered_def awaited_def)
qed

lemma live_reach:
  assumes "worker_reach E base s0 t" "uniform E (set (posted t))" "\<forall>a\<in>set (posted t). sub_limit (sub_at E a) \<noteq> 0"
    and new: "new_worker prefill raws q n m = Some s" "length raws = MAX_WIN_LEN" "contents q = []"
    and init: "(base', s0) = worker_loop_init now True s"
  shows "live E contents (worker t)"
  using assms(1-3)
proof induction
  case start
  have s0: "s0 = snd (worker_loop_init now True s)" using init by (metis snd_conv)
  have "current_switch_window_limit s0 = 10" "PACKET_LOOPBACK s0"
    using new(1) by (auto simp: s0 new_worker_def worker_loop_init_def get_time_stamp_def CC_CWND_MIN_def Let_def split: bind_splits)
  with start_ok[OF new s0] show ?case by (simp add: live_def unacked_def covered_def awaited_def)
next
  case (step t t')
  have sub: "set (posted t) \<subseteq> set (posted t')" by (rule posted_grows[OF step.hyps(2)])
  have u: "uniform E (set (posted t))" by (rule uniform_mono[OF step.prems(1) sub])
  have "live E contents (worker t)" using step.IH[OF u] step.prems(2) sub by blast
  with reach_ok[OF step.hyps(1) u new init] show ?case by (intro live_step[OF step.hyps(2) _ _ step.prems])
qed

end

subsection \<open>The loop of a worker\<close>

text \<open>\<open>k\<close> turns of \<open>worker_loop\<close>, at the times the clock shows.\<close>

primrec worker_turns :: "('q, 'n) wenv \<Rightarrow> u32 \<Rightarrow> (nat \<Rightarrow> u32) \<Rightarrow> nat \<Rightarrow> u32 \<times> ('q, 'n) worker
    \<Rightarrow> (u32 \<times> ('q, 'n) worker) option" where
  "worker_turns E base clock 0 = Some"
| "worker_turns E base clock (Suc k) = (\<lambda>st. Option.bind (worker_turn E base (clock 0) st)
     (worker_turns E base (clock \<circ> Suc) k))"

lemma turns_reach:
  assumes "worker_turns E base clock k (log_ts t, worker t) = Some (l, s)" "worker_reach E base s0 t"
  shows "worker_reach E base s0 (t\<lparr>worker := s, log_ts := l\<rparr>)"
  using assms
proof (induction k arbitrary: clock t)
  case 0
  then have eq: "t\<lparr>worker := s, log_ts := l\<rparr> = t" by (cases t) auto
  from 0(2) show ?case unfolding eq .
next
  case (Suc k)
  from Suc.prems(1) obtain l1 s1 where 1: "worker_turn E base (clock 0) (log_ts t, worker t) = Some (l1, s1)"
    "worker_turns E base (clock \<circ> Suc) k (l1, s1) = Some (l, s)" by (auto split: bind_splits)
  have "worker_reach E base s0 (t\<lparr>worker := s1, log_ts := l1\<rparr>)"
    using Suc.prems(2) worker_step.turn[OF 1(1)] by (rule worker_reach.step)
  from Suc.IH[OF _ this] 1(2) show ?case by simp
qed

context worker_env begin

lemma turns_finish:
  assumes "live E contents s" "uniform E (set (work s))" "limits (\<lambda>x. x \<noteq> 0) s"
  shows "\<exists>k l' s'. worker_turns E base clock k (l, s) = Some (l', s') \<and> all_done E contents s'"
  using assms
proof (induction s arbitrary: clock l rule: wf_induct_rule[OF wf_inv_image[of nearer "distance E contents"]])
  case 1
  show ?case by (intro wf_lex_prod wf_less_than)
next
  case (2 s)
  show ?case
  proof (cases "all_done E contents s")
    case True
    then show ?thesis by (intro exI[of _ 0] exI[of _ l] exI[of _ s]) simp
  next
    case False
    have ok: "ok s" "PACKET_LOOPBACK s" using "2.prems"(1) by (simp_all add: live_def)
    obtain l1 s1 where t: "worker_turn E base (clock 0) (l, s) = Some (l1, s1)"
      using turn_total[OF ok(1) "2.prems"(2) ok(2), of base "clock 0" l] by auto
    note T = turn_live[OF t "2.prems"]
    have "uniform E (set (work s1))" by (rule uniform_mono[OF "2.prems"(2) T(2)])
    moreover have "limits (\<lambda>x. x \<noteq> 0) s1" using "2.prems"(3) T(2) unfolding limits_def by blast
    ultimately obtain k l' s' where "worker_turns E base (clock \<circ> Suc) k (l1, s1) = Some (l', s')" "all_done E contents s'"
      using "2.IH"[of s1 "clock \<circ> Suc" l1] T(1,3) False unfolding in_inv_image by blast
    then show ?thesis using t by (intro exI[of _ "Suc k"]) auto
  qed
qed

end

subsection \<open>Properties\<close>

text \<open>
  C4: In loopback a worker whose sub-operations are all of one group, with at least two aggregators for it,
  finishes its work, whatever the clock shows: from every state it can reach with them, when nothing more is posted, some number of turns of its loop returns and leaves its window empty and every
  sub-operation it was ever given answered, in order.
\<close>

theorem worker_finishes:
  assumes "worker_env E contents sent delivered"
    and "new_worker prefill raws q n m = Some s" and "length raws = MAX_WIN_LEN" and "contents q = []"
    and "worker_loop_init now True s = (base, s0)"
    and "worker_reach E base s0 t" and "uniform E (set (posted t))"
    and "\<forall>a\<in>set (posted t). 2 \<le> sub_agg_len (sub_at E a)"
  shows "\<exists>k l s'. worker_turns E base clock k (log_ts t, worker t) = Some (l, s')
    \<and> window s' = [] \<and> got t @ contents (cq (wqp s')) = posted t"
proof -
  note env = assms(1) and new = assms(2-4) assms(5)[symmetric]
  have lim: "\<forall>a\<in>set (posted t). sub_limit (sub_at E a) \<noteq> 0" using assms(8) by (auto simp: sub_limit_0)
  have ok: "worker_env.sys_ok E contents t" by (rule worker_env.reach_ok[OF env assms(6,7) new])
  have lv: "live E contents (worker t)" by (rule worker_env.live_reach[OF env assms(6,7) lim new])
  have sub: "set (contents (wq (wqp (worker t)))) \<subseteq> set (posted t)" using ok by (simp add: worker_env.sys_ok_def[OF env])
  then have l: "worker_env.limits E contents (\<lambda>x. x \<noteq> 0) (worker t)"
    using lim by (auto simp: worker_env.limits_def[OF env])
  obtain k l s' where T: "worker_turns E base clock k (log_ts t, worker t) = Some (l, s')" "all_done E contents s'"
    using worker_env.turns_finish[OF env lv worker_env.uniform_mono[OF env assms(7) sub] l] by metis
  have "worker_env.sys_ok E contents (t\<lparr>worker := s', log_ts := l\<rparr>)"
    using worker_env.reach_ok[OF env turns_reach[OF T(1) assms(6)] _ new] assms(7) by simp
  then obtain fin where fin: "pieces E (posted t) = fin @ map seg_of (window s') @ rest E contents s'"
    "got t @ contents (cq (wqp s')) = lasts fin"
    by (auto simp: worker_env.sys_ok_def[OF env] ledger_def)
  have w: "window s' = []" "rest E contents s' = []" using T(2) by (simp_all add: all_done_def)
  have "fin = pieces E (posted t)" using fin(1) unfolding w by simp
  then have "got t @ contents (cq (wqp s')) = posted t" using fin(2) lasts_pieces by metis
  with T(1) w(1) show ?thesis by blast
qed

theorem worker_finishes_witness:
  "\<exists>k l s'. worker_turns demo_env 0 of_nat k (0, demo_w1) = Some (l, s') \<and> window s' = [] \<and> cq (wqp s') = [9]"
  using worker_finishes[OF demo_worker.worker_env_axioms demo_new demo_raws(1) _ demo_init demo_reach1 demo_uniform, of of_nat]
  by (simp add: demo_env_def demo_sub_def)

text \<open>
  C16: A worker whose sub-operations are of one group that leaves it a single aggregator stalls: \<open>agg_len / 2\<close> is zero, the
  limit of its window is zero once it has made its first packet, and in its whole life, on any network, it makes at most the ten packets of its
  first burst and answers at most ten sub-operations, however many it is given.
\<close>

theorem starved_worker_stalls:
  assumes "worker_env E contents sent delivered"
    and "new_worker prefill raws q n m = Some s" and "length raws = MAX_WIN_LEN" and "contents q = []"
    and "worker_loop_init now lb s = (base, s0)"
    and "worker_reach E base s0 t" and "uniform E (set (posted t))"
    and "\<forall>a\<in>set (posted t). sub_agg_len (sub_at E a) < 2"
  shows "length (pieces E (posted t)) \<le> length (rest E contents (worker t)) + 10
    \<and> length (got t @ contents (cq (wqp (worker t)))) \<le> 10"
proof -
  note env = assms(1) and new = assms(2-4) assms(5)[symmetric]
  have lim: "\<forall>a\<in>set (posted t). sub_limit (sub_at E a) = 0" using assms(8) by (simp add: sub_limit_0)
  have made: "length (pieces E (posted t)) - length (rest E contents (worker t)) \<le> 10"
    using worker_env.starved_reach[OF env assms(6,7) lim new] by (simp add: starved_def Let_def)
  obtain fin where fin: "pieces E (posted t) = fin @ map seg_of (window (worker t)) @ rest E contents (worker t)"
    "got t @ contents (cq (wqp (worker t))) = lasts fin"
    using worker_env.reach_ok[OF env assms(6,7) new] by (auto simp: worker_env.sys_ok_def[OF env] ledger_def)
  have "length (lasts fin) \<le> length fin" by (simp add: lasts_def)
  then show ?thesis using made fin(1) unfolding fin(2) by simp
qed

text \<open>The worker of the example, when its group leaves it one aggregator and it is given eleven sub-operations.\<close>

definition tiny_env :: "(ptr list, pkt card) wenv" where
  "tiny_env = demo_env\<lparr>sub_at := \<lambda>_. demo_sub\<lparr>sub_agg_len := 1\<rparr>\<rparr>"

interpretation tiny_worker: worker_env tiny_env "\<lambda>q. q" on_wire handed
  by (rule worker_env.intro) (simp_all add: tiny_env_def demo_env_def fifo_pair.queue_pair_impl_axioms sim_card.nic_axioms)

definition tiny_w :: "nat \<Rightarrow> (ptr list, pkt card) worker" where
  "tiny_w k = demo_w0\<lparr>wqp := \<lparr>wq = replicate k 9, cq = [], num_in_queue = of_nat k\<rparr>\<rparr>"

lemma tiny_uniform: "uniform tiny_env A"
  by (simp add: uniform_def tiny_env_def demo_env_def sub_group_def)

lemma tiny_reach:
  "k \<le> 11 \<Longrightarrow> worker_reach tiny_env 0 demo_w0 \<lparr>worker = tiny_w k, log_ts = 0, posted = replicate k 9, got = []\<rparr>"
proof (induction k)
  case 0
  have "wqp demo_w0 = \<lparr>wq = [], cq = [], num_in_queue = 0\<rparr>"
    by (simp add: demo_w0_def worker_loop_init_def get_time_stamp_def demo_new_def new_worker_def
        queue_process_buffer_def MAX_PKT_BURST_def Let_def empty_pair_def)
  then have "tiny_w 0 = demo_w0" by (cases demo_w0) (simp add: tiny_w_def)
  then show ?case using worker_reach.start[of tiny_env 0 demo_w0] by simp
next
  case (Suc k)
  let ?t = "\<lparr>worker = tiny_w k, log_ts = 0, posted = replicate k 9, got = []\<rparr>"
  have u: "unat (of_nat k :: u64) = k" using Suc.prems by (intro unat_of_nat_small) simp
  have "of_nat k \<noteq> (of_nat QUEUE_SIZE :: u64)"
  proof
    assume "of_nat k = (of_nat QUEUE_SIZE :: u64)"
    from arg_cong[OF this, of unat] show False using u Suc.prems by (simp add: QUEUE_SIZE_def)
  qed
  then have "push_req (sub_q tiny_env) QUEUE_SIZE 9 (wqp (worker ?t))
      = Some (True, \<lparr>wq = replicate k 9 @ [9], cq = [], num_in_queue = of_nat k + 1\<rparr>)"
    using Suc.prems by (simp add: tiny_w_def push_req_def tiny_env_def demo_env_def fifo_ops_def QUEUE_SIZE_def)
  note step = worker_step.post[OF this, of 0]
  have eq: "?t\<lparr>worker := worker ?t\<lparr>wqp := \<lparr>wq = replicate k 9 @ [9], cq = [], num_in_queue = of_nat k + 1\<rparr>\<rparr>,
      posted := posted ?t @ (if True then [9] else [])\<rparr>
    = \<lparr>worker = tiny_w (Suc k), log_ts = 0, posted = replicate (Suc k) 9, got = []\<rparr>"
    by (simp add: tiny_w_def replicate_append_same add.commute)
  have "k \<le> 11" using Suc.prems by simp
  from worker_reach.step[OF Suc.IH[OF this] step] show ?case unfolding eq .
qed

theorem starved_worker_stalls_witness:
  "\<not> (\<exists>clock k l s. worker_turns tiny_env 0 clock k (0, tiny_w 11) = Some (l, s) \<and> length (cq (wqp s)) = 11)"
proof
  assume "\<exists>clock k l s. worker_turns tiny_env 0 clock k (0, tiny_w 11) = Some (l, s) \<and> length (cq (wqp s)) = 11"
  then obtain clock k l s where t: "worker_turns tiny_env 0 clock k (0, tiny_w 11) = Some (l, s)"
    and c: "length (cq (wqp s)) = 11" by blast
  let ?t = "\<lparr>worker = tiny_w 11, log_ts = 0, posted = replicate 11 9, got = []\<rparr>"
  have "worker_reach tiny_env 0 demo_w0 (?t\<lparr>worker := s, log_ts := l\<rparr>)"
    using turns_reach[of tiny_env 0 clock k ?t l s demo_w0] t tiny_reach[of 11] by simp
  from starved_worker_stalls[OF tiny_worker.worker_env_axioms demo_new demo_raws(1) _ demo_init this tiny_uniform] c
  show False by (simp add: tiny_env_def demo_env_def)
qed

end
