(* ===== verification/HostLive.thy ===== *)
theory HostLive
  imports HostSystem WorkerProgress
begin

text \<open>
  A whole host in loopback brings every collective to its end: the load balancer with the real worker
  threads is a backend in the sense of \<open>backend_turns\<close>, because each worker comes to the end
  of its work (\<open>WorkerProgress\<close>).
\<close>

subsection \<open>Workers that can go on\<close>

definition ready :: "('q, 'n) worker \<Rightarrow> bool" where
  "ready w \<longleftrightarrow> PACKET_LOOPBACK w \<and> covered w \<and> current_switch_window_limit w \<noteq> 0 \<and> (unacked w = 0 \<longrightarrow> in_flight w = 0)"

lemma live_ready: "live E contents w \<longleftrightarrow> wok E contents w \<and> ready w"
  by (auto simp: live_def ready_def)

lemma ready_update [simp]: "ready (w\<lparr>wqp := q\<rparr>) = ready w" "ready (w\<lparr>shm := m\<rparr>) = ready w"
  by (simp_all add: ready_def covered_def awaited_def unacked_def slots_def)

lemma starts_ready:
  assumes "starts q w" "PACKET_LOOPBACK w"
  shows "ready w"
proof -
  from assms(1) obtain prefill raws c m w0 now lo where w: "new_worker prefill raws q c m = Some w0"
    "w = snd (worker_loop_init now lo w0)" by (auto simp: starts_def)
  have "to_ack w = 0" "to_send w = 0" "current_switch_window_limit w = 10"
    using w(1) by (auto simp: w(2) new_worker_def worker_loop_init_def get_time_stamp_def CC_CWND_MIN_def Let_def split: bind_splits)
  then show ?thesis using assms(2) by (simp add: ready_def unacked_def covered_def awaited_def)
qed

lemma done_answers:
  assumes "books_ok E contents w" "all_done E contents w"
  shows "contents (cq (wqp w)) = owed_by contents w"
proof -
  from assms(1) obtain fin where fin: "pieces E (owed_by contents w) = fin @ map seg_of (window w) @ rest E contents w"
    "lasts fin = contents (cq (wqp w))" by (auto simp: books_ok_def)
  have "rest E contents w = []" "window w = []" using assms(2) by (simp_all add: all_done_def)
  then have "pieces E (owed_by contents w) = fin" using fin(1) by simp
  then show ?thesis using fin(2) lasts_pieces by metis
qed

text \<open>A group that leaves every worker at least two aggregators.\<close>

definition roomy :: "nat \<Rightarrow> post_args list \<Rightarrow> bool" where
  "roomy n as \<longleftrightarrow> (\<forall>a\<in>set as. 2 * n \<le> unat (group_agg_len (pa_group a)))"

text \<open>Reductions of whole words.\<close>

definition whole_words :: "post_args list \<Rightarrow> bool" where
  "whole_words as \<longleftrightarrow> (\<forall>a\<in>set as. pa_code a \<in> {OP_ALL_REDUCE, OP_REDUCE} \<longrightarrow> 4 dvd unat (pa_size a))"

text \<open>What is asked of the collectives a host is given.\<close>

definition fit :: "nat \<Rightarrow> post_args list \<Rightarrow> bool" where
  "fit n as \<longleftrightarrow> one_group_only n as \<and> even_sizes as \<and> roomy n as \<and> whole_words as"

lemma fit_mono: "fit n bs \<Longrightarrow> set as \<subseteq> set bs \<Longrightarrow> fit n as"
  unfolding fit_def roomy_def whole_words_def using one_group_only_mono even_sizes_mono by blast

context host_queues begin

definition host_ready :: "fe_env \<Rightarrow> nat \<Rightarrow> ('p, 'o, 's, 'c) host \<Rightarrow> bool" where
  "host_ready E n s \<longleftrightarrow> 0 < n \<and> host_ok E n s \<and> (\<forall>(t, w)\<in>set (h_workers s). ready w)
     \<and> fit n (given (h_front s))"

lemma host_readyD:
  assumes "host_ready E n s"
  shows "0 < n" "host_ok E n s" "one_group_only n (given (h_front s))" "roomy n (given (h_front s))"
    "whole_words (given (h_front s))" "length (h_workers s) = n" "nq.node_ok E n (host_node s)"
    "fit n (given (h_front s))" "even_sizes (given (h_front s))"
  using assms by (simp_all add: host_ready_def fit_def host_ok_def)

lemma owed_limits:
  assumes ok: "host_ok E n s" and g: "roomy n (given (h_front s))" and n: "0 < n" and k: "k < n" "h_workers s ! k = (t, w)"
  shows "worker_env.limits (host_env S N s) scont (\<lambda>x. x \<noteq> 0) w"
  unfolding worker_env.limits_def[OF env]
proof
  fix a assume "a \<in> set (scont (wq (wqp w)))"
  then have a: "a \<in> set (owed_by scont w)" by (simp add: owed_by_def)
  have no: "nq.node_ok E n (host_node s)" using ok by (simp add: host_ok_def)
  have ow: "owed scont (host_node s) k = owed_by scont w" using host_node_nth(3)[OF host_okD(1)[OF ok k] k(2)] .
  from nq.owed_live[OF no k(1), unfolded ow, OF a] obtain x r where x: "h_heap s a = Some (slice_for n k x)"
    "r \<in> set (given (h_front s))" "made_for r x" unfolding host_node_simps .
  have "2 * n \<le> unat (group_agg_len (op_group (fst x)))" using g x(2,3) by (simp add: roomy_def made_for_def)
  then have "2 \<le> unat (slice_agg_len n (op_group (fst x)))"
    using n by (simp add: unat_slice_agg_len less_eq_div_iff_mult_less_eq)
  then show "sub_limit (sub_at (host_env S N s) a) \<noteq> 0"
    using x(1) by (simp add: sub_limit_0 slice_for_def mk_sub_op_def word_less_nat_alt)
qed

lemma host_turn_ready:
  assumes r: "host_ready E n s" and k: "k < length (h_workers s)" "h_workers s ! k = (lts, w)"
    and ret: "worker_turn (host_env S N s) base now (lts, w\<lparr>shm := h_mem s\<rparr>) = Some (lts', w')"
  shows "ready w'"
proof -
  note D = host_readyD[OF r]
  have kn: "k < n" using k(1) D(6) by simp
  note W = host_okD[OF D(2) kn k(2)]
  have "ready w" using r W(3) by (auto simp: host_ready_def)
  moreover have "wok (host_env S N s) scont (w\<lparr>shm := h_mem s\<rparr>)"
    using worker_ok_shm[OF W(2)] by (simp add: worker_ok_def)
  ultimately have lv: "live (host_env S N s) scont (w\<lparr>shm := h_mem s\<rparr>)" by (simp add: live_ready)
  have "uniform (host_env S N s) (set (scont (wq (wqp (w\<lparr>shm := h_mem s\<rparr>)))))"
    by (rule worker_env.uniform_mono[OF env owed_uniform[OF D(2,3,1) kn k(2)]]) (auto simp: owed_by_def)
  moreover have "worker_env.limits (host_env S N s) scont (\<lambda>x. x \<noteq> 0) (w\<lparr>shm := h_mem s\<rparr>)"
    using owed_limits[OF D(2,4,1) kn k(2)] by (simp add: worker_env.limits_def[OF env])
  ultimately show ?thesis using worker_env.turn_live(1)[OF env ret lv] by (simp add: live_ready)
qed

lemma put_ready:
  assumes "\<forall>(t, w)\<in>set (h_workers s). ready w"
  shows "\<forall>(t, w)\<in>set (h_workers (host_put l hs s)). ready w"
  using assms by (auto simp: host_put_def dest!: set_zip_leftD)

text \<open>What a host keeps with every step.\<close>

lemma host_step_ready:
  assumes step: "host_step P Q S N E s t" and r: "host_ready E n s" and g: "fit n (given (h_front t))"
  shows "host_ready E n t"
proof -
  note D = host_readyD[OF r]
  have w: "\<forall>(t, w)\<in>set (h_workers s). ready w" using r by (simp add: host_ready_def)
  have ok: "host_ok E n t" using host_step_ok[OF step D(2,1)] g by (simp add: fit_def)
  from step have "\<forall>(t, w)\<in>set (h_workers t). ready w"
  proof (cases rule: host_step.cases)
    case (complete b l)
    with put_ready[OF w] show ?thesis by simp
  next
    case (post b l)
    with put_ready[OF w] show ?thesis by simp
  next
    case (turn k lts v base now lts' v')
    with host_turn_ready[OF r turn(2-4)] w show ?thesis by (auto dest: set_update_subset_insert[THEN subsetD])
  qed (use w in simp_all)
  with ok D(1) g show ?thesis by (simp add: host_ready_def)
qed

lemma host_step_same:
  "host_step P Q S N E s t \<Longrightarrow> host_ready E n s \<Longrightarrow> given (h_front t) = given (h_front s) \<Longrightarrow> host_ready E n t"
  using host_step_ready[of E s t n] host_readyD(8)[of E n s] by simp

subsection \<open>Letting the workers run\<close>

text \<open>Steps between which only workers have moved.\<close>

definition only_workers :: "fe_env \<Rightarrow> nat \<Rightarrow> ('p, 'o, 's, 'c) host \<Rightarrow> ('p, 'o, 's, 'c) host \<Rightarrow> bool" where
  "only_workers E n s t \<longleftrightarrow> (host_step P Q S N E)\<^sup>*\<^sup>* s t \<and> host_ready E n t \<and> h_front t = h_front s \<and> h_heap t = h_heap s"

lemma only_workers_refl: "host_ready E n s \<Longrightarrow> only_workers E n s s"
  by (simp add: only_workers_def)

lemma only_workers_trans: "only_workers E n s t \<Longrightarrow> only_workers E n t u \<Longrightarrow> only_workers E n s u"
  by (auto simp: only_workers_def)

lemma only_workers_env: "only_workers E n s t \<Longrightarrow> host_env S N t = host_env S N s"
  by (simp add: only_workers_def host_env_def node_ops_def)

lemma worker_turn_step:
  assumes r: "host_ready E n s" and k: "k < length (h_workers s)" "h_workers s ! k = (lts, w)"
    and ret: "worker_turn (host_env S N s) base now (lts, w\<lparr>shm := h_mem s\<rparr>) = Some (lts', w')"
  shows "only_workers E n s (s\<lparr>h_workers := (h_workers s)[k := (lts', w')], h_mem := shm w'\<rparr>)"
proof -
  note st = host_step.turn[where P = P and Q = Q and E = E, OF k ret]
  from host_step_same[OF st r] st show ?thesis by (simp add: only_workers_def r_into_rtranclp)
qed

lemma worker_turns_steps:
  assumes "worker_turns (host_env S N s) base clock m (lts, w\<lparr>shm := h_mem s\<rparr>) = Some (lts', w')"
    and "host_ready E n s" "k < length (h_workers s)" "h_workers s ! k = (lts, w)"
  shows "\<exists>t v. only_workers E n s t \<and> h_workers t = (h_workers s)[k := (lts', v)] \<and> v\<lparr>shm := h_mem t\<rparr> = w'"
  using assms
proof (induction m arbitrary: s clock lts w)
  case 0
  then have e: "lts' = lts" "w' = w\<lparr>shm := h_mem s\<rparr>" by simp_all
  have "(h_workers s)[k := (lts, w)] = h_workers s" using 0(4) by (metis list_update_id)
  then show ?case using only_workers_refl[OF 0(2)] by (intro exI[of _ s] exI[of _ w]) (simp add: e)
next
  case (Suc m)
  from Suc.prems(1) obtain l1 w1 where 1: "worker_turn (host_env S N s) base (clock 0) (lts, w\<lparr>shm := h_mem s\<rparr>) = Some (l1, w1)"
    "worker_turns (host_env S N s) base (clock \<circ> Suc) m (l1, w1) = Some (lts', w')" by (auto split: bind_splits)
  let ?s = "s\<lparr>h_workers := (h_workers s)[k := (l1, w1)], h_mem := shm w1\<rparr>"
  note O = worker_turn_step[OF Suc.prems(2-4) 1(1)]
  have w1: "w1\<lparr>shm := h_mem ?s\<rparr> = w1" by (cases w1) simp
  have "worker_turns (host_env S N ?s) base (clock \<circ> Suc) m (l1, w1\<lparr>shm := h_mem ?s\<rparr>) = Some (lts', w')"
    unfolding w1 only_workers_env[OF O] by (rule 1(2))
  moreover have "host_ready E n ?s" using O by (simp add: only_workers_def)
  moreover have "k < length (h_workers ?s)" "h_workers ?s ! k = (l1, w1)" using Suc.prems(3) by simp_all
  ultimately obtain t v where "only_workers E n ?s t" "h_workers t = (h_workers ?s)[k := (lts', v)]" "v\<lparr>shm := h_mem t\<rparr> = w'"
    using Suc.IH by blast
  then show ?case using only_workers_trans[OF O] by (intro exI[of _ t] exI[of _ v]) auto
qed

text \<open>Worker \<open>k\<close> finishes its work; then all do, one after the other.\<close>

definition done_at :: "('p, 'o, 's, 'c) host \<Rightarrow> nat \<Rightarrow> bool" where
  "done_at s k \<longleftrightarrow> all_done (host_env S N s) scont (snd (h_workers s ! k))"

lemma all_done_shm: "all_done E' c (w\<lparr>shm := m\<rparr>) = all_done E' c w"
  by (simp add: all_done_def rest_def Let_def split: option.split)

lemma finish_one:
  assumes r: "host_ready E n s" and k: "k < n"
  shows "\<exists>t. only_workers E n s t \<and> done_at t k \<and> (\<forall>j. j \<noteq> k \<longrightarrow> done_at s j \<longrightarrow> done_at t j)"
proof -
  note D = host_readyD[OF r]
  obtain lts w where w: "h_workers s ! k = (lts, w)" by fastforce
  have kl: "k < length (h_workers s)" using k D(6) by simp
  note W = host_okD[OF D(2) k w]
  let ?E = "host_env S N s" and ?w = "w\<lparr>shm := h_mem s\<rparr>"
  have "wok ?E scont ?w" using worker_ok_shm[OF W(2)] by (simp add: worker_ok_def)
  moreover have "ready w" using r W(3) by (auto simp: host_ready_def)
  ultimately have lv: "live ?E scont ?w" by (simp add: live_ready)
  have u: "uniform ?E (set (scont (wq (wqp ?w))))"
    by (rule worker_env.uniform_mono[OF env owed_uniform[OF D(2,3,1) k w]]) (auto simp: owed_by_def)
  have l: "worker_env.limits ?E scont (\<lambda>x. x \<noteq> 0) ?w"
    using owed_limits[OF D(2,4,1) k w] by (simp add: worker_env.limits_def[OF env])
  obtain m l' w' where T: "worker_turns ?E 0 (\<lambda>_. 0) m (lts, ?w) = Some (l', w')" "all_done ?E scont w'"
    using worker_env.turns_finish[OF env lv u l] by metis
  from worker_turns_steps[OF T(1) r kl w] obtain t v where t: "only_workers E n s t" "h_workers t = (h_workers s)[k := (l', v)]"
    "v\<lparr>shm := h_mem t\<rparr> = w'" by blast
  have "all_done ?E scont v" using T(2) t(3) all_done_shm by metis
  then have "done_at t k" using kl by (simp add: done_at_def t(2) only_workers_env[OF t(1)])
  moreover have "\<forall>j. j \<noteq> k \<longrightarrow> done_at s j \<longrightarrow> done_at t j"
    by (simp add: done_at_def t(2) only_workers_env[OF t(1)])
  ultimately show ?thesis using t(1) by blast
qed

lemma finish_all:
  assumes r: "host_ready E n s"
  shows "j \<le> n \<Longrightarrow> \<exists>t. only_workers E n s t \<and> (\<forall>k<j. done_at t k)"
proof (induction j)
  case 0
  then show ?case using only_workers_refl[OF r] by blast
next
  case (Suc j)
  then obtain t where t: "only_workers E n s t" "\<forall>k<j. done_at t k" by auto
  have "host_ready E n t" using t(1) by (simp add: only_workers_def)
  from finish_one[OF this, of j] Suc.prems obtain u where u: "only_workers E n t u" "done_at u j"
    "\<forall>k. k \<noteq> j \<longrightarrow> done_at t k \<longrightarrow> done_at u k" by auto
  have "\<forall>k<Suc j. done_at u k"
  proof (intro allI impI)
    fix k assume "k < Suc j"
    then show "done_at u k" using t(2) u(2,3) by (cases "k = j") auto
  qed
  then show ?case using only_workers_trans[OF t(1) u(1)] by blast
qed

subsection \<open>The backend of a host\<close>

lemma answers_wait:
  assumes r: "host_ready E n s" and h: "be_held (h_front s) \<noteq> []" and d: "\<forall>k<n. done_at s k" and k: "k < n"
  shows "scont (cq (n_qps (host_node s) ! k)) \<noteq> []"
proof -
  note D = host_readyD[OF r]
  obtain lts w where w: "h_workers s ! k = (lts, w)" by fastforce
  note W = host_okD[OF D(2) k w]
  have "books_ok (host_env S N s) scont w" using W(2) by (simp add: worker_ok_def)
  moreover have "all_done (host_env S N s) scont w" using d k w by (auto simp: done_at_def)
  ultimately have "scont (cq (wqp w)) = owed scont (host_node s) k"
    using done_answers host_node_nth(3)[OF W(1) w, of scont] by metis
  moreover have "length (owed scont (host_node s) k) = length (be_held (h_front s))"
    using arg_cong[OF nq.owed_heap[OF D(7) k], of length] by simp
  ultimately show ?thesis using h host_node_nth(1)[OF W(1) w] by auto
qed

lemma host_answers:
  assumes r: "host_ready E n s" and h: "be_held (h_front s) \<noteq> []"
  shows "\<exists>t. (host_step P Q S N E)\<^sup>*\<^sup>* s t \<and> host_ready E n t \<and> fe_step P Q E (h_front s) (h_front t)
    \<and> Suc (length (be_held (h_front t))) = length (be_held (h_front s))"
proof -
  from finish_all[OF r order_refl] obtain t where t: "only_workers E n s t" "\<forall>k<n. done_at t k" by blast
  have rt: "host_ready E n t" and f: "h_front t = h_front s" and st: "(host_step P Q S N E)\<^sup>*\<^sup>* s t"
    using t(1) by (simp_all add: only_workers_def)
  note D = host_readyD[OF rt]
  have a: "\<forall>k<n. nq.bq.sq.answers (worker_qp (lb (node_view ocont (host_node t))) ! k) \<noteq> []"
    using answers_wait[OF rt _ t(2)] h f by simp
  obtain c d where v: "nq.bq.sys_ok (node_ops (host_node t)) n c d (node_view ocont (host_node t))"
    using D(7) by (auto simp: nq.node_ok_def)
  from v D(1) a obtain l where l: "lb_try_complete_op Q S (lb (node_view ocont (host_node t))) = Some (True, l)"
    by (rule nq.bq.complete_keeps)
  then have l': "lb_try_complete_op Q S (node_lb (host_node t)) = Some (True, l)" by simp
  let ?u = "host_put l (tl (be_held (h_front t))) t"
  have step: "host_step P Q S N E t ?u" using host_step.complete[where P = P and N = N and E = E, OF l'] by simp
  have g: "given (h_front ?u) = given (h_front t)" "be_held (h_front ?u) = tl (be_held (h_front s))"
    using f by (simp_all add: host_put_def)
  have ne: "h_front ?u \<noteq> h_front t"
  proof
    assume "h_front ?u = h_front t"
    then have "tl (be_held (h_front s)) = be_held (h_front s)" using g(2) f by simp
    then show False using h by (metis length_tl diff_less length_greater_0_conv less_irrefl zero_less_one)
  qed
  have "one_group_only n (given (h_front ?u))" "even_sizes (given (h_front ?u))" using D(3,9) g(1) by simp_all
  from host_step_ok[OF step D(2,1) this] ne f have "fe_step P Q E (h_front s) (h_front ?u)" by simp
  moreover have "(host_step P Q S N E)\<^sup>*\<^sup>* s ?u" using st step by (rule rtranclp.rtrancl_into_rtrancl)
  ultimately show ?thesis using host_step_same[OF step rt g(1)] g(2) h by (intro exI[of _ ?u]) simp
qed

lemma host_takes:
  assumes r: "host_ready E n s" and w: "ocont (wq (be_qp (fe (h_front s)))) \<noteq> []"
  shows "\<exists>t. (host_step P Q S N E)\<^sup>*\<^sup>* s t \<and> host_ready E n t \<and> fe_step P Q E (h_front s) (h_front t)
    \<and> length (be_held (h_front t)) = Suc (length (be_held (h_front s)))"
proof -
  note D = host_readyD[OF r]
  obtain p es where p: "ocont (wq (node_qp (host_node s))) = p # es" using w by (auto simp: node_qp_def neq_Nil_conv)
  have "op_wf (node_ops (host_node s) p)"
    using nq.waiting_wf[OF D(7)] D(5) p by (simp add: whole_words_def)
  moreover obtain c d where v: "nq.bq.sys_ok (node_ops (host_node s)) n c d (node_view ocont (host_node s))"
    using D(7) by (auto simp: nq.node_ok_def)
  moreover have "ocont (wq (shm_qp (lb (node_view ocont (host_node s))))) = p # es" using p by simp
  ultimately obtain l where l: "lb_try_post_op Q S (node_ops (host_node s)) (node_lb (host_node s)) = Some (True, l)"
    using nq.bq.post_keeps[OF v D(1)] by (metis node_view_simps(1))
  let ?t = "host_put l (be_held (h_front s) @ [the (front_req Q (node_qp (host_node s)))]) s"
  have step: "host_step P Q S N E s ?t" using host_step.post[where P = P and N = N and E = E, OF l] by simp
  have g: "given (h_front ?t) = given (h_front s)" "length (be_held (h_front ?t)) = Suc (length (be_held (h_front s)))"
    by (simp_all add: host_put_def)
  then have ne: "h_front ?t \<noteq> h_front s" by auto
  have "one_group_only n (given (h_front ?t))" "even_sizes (given (h_front ?t))" using D(3,9) g(1) by simp_all
  from host_step_ok[OF step D(2,1) this] ne have "fe_step P Q E (h_front s) (h_front ?t)" by simp
  with step host_step_same[OF step r g(1)] g(2) show ?thesis by (intro exI[of _ ?t]) auto
qed

lemma host_own:
  assumes r: "host_ready E n s" and f: "fe_step P Q E (h_front s) t" "be_held t = be_held (h_front s)" "given t = given (h_front s)"
  shows "\<exists>u. (host_step P Q S N E)\<^sup>*\<^sup>* s u \<and> host_ready E n u \<and> h_front u = t"
proof -
  note st = host_step.frontend[OF f(1,2), of S N]
  from host_step_same[OF st r] f(3) st show ?thesis by (intro exI[of _ "s\<lparr>h_front := t\<rparr>"]) auto
qed

lemma host_backend: "backend_turns P pcont Q ocont E h_front (host_step P Q S N E) (host_ready E n)"
proof unfold_locales
  fix s assume r: "host_ready E n s"
  show "nq.fq.finv E (h_front s)" using host_readyD(7)[OF r] by (simp add: nq.node_ok_def)
  show "\<exists>u. (host_step P Q S N E)\<^sup>*\<^sup>* s u \<and> host_ready E n u \<and> h_front u = t"
    if "fe_step P Q E (h_front s) t" "be_held t = be_held (h_front s)" "given t = given (h_front s)" for t
    using r that by (rule host_own)
  show "\<exists>t. (host_step P Q S N E)\<^sup>*\<^sup>* s t \<and> host_ready E n t \<and> fe_step P Q E (h_front s) (h_front t)
      \<and> length (be_held (h_front t)) = Suc (length (be_held (h_front s)))"
    if "ocont (wq (be_qp (fe (h_front s)))) \<noteq> []" using r that by (rule host_takes)
  show "\<exists>t. (host_step P Q S N E)\<^sup>*\<^sup>* s t \<and> host_ready E n t \<and> fe_step P Q E (h_front s) (h_front t)
      \<and> Suc (length (be_held (h_front t))) = length (be_held (h_front s))"
    if "be_held (h_front s) \<noteq> []" using r that by (rule host_answers)
qed

lemma host_reach_ready:
  assumes r: "host_reach P Q S N E (host_init p q ws m mem) s" and e: "pcont p = []" "ocont q = []" "scont q' = []"
    and ws: "ws \<noteq> []" "\<forall>w\<in>set ws. starts q' w \<and> PACKET_LOOPBACK w" and g: "fit (length ws) (given (h_front s))"
  shows "host_ready E (length ws) s"
  using r g
proof (induction rule: host_reach.induct)
  case init
  have st: "\<forall>w\<in>set ws. starts q' w" using ws(2) by blast
  have rd: "\<forall>w\<in>set ws. ready w"
  proof
    fix w assume "w \<in> set ws"
    with ws(2) have "starts q' w" "PACKET_LOOPBACK w" by simp_all
    then show "ready w" by (rule starts_ready)
  qed
  have "host_ok E (length ws) (host_init p q ws m mem)"
    using host_reach_ok[OF host_reach.init e ws(1) st] init by (simp add: fit_def)
  moreover have "\<forall>(t, w)\<in>set (h_workers (host_init p q ws m mem)). ready w"
    using rd by (auto simp: host_init_def dest: set_zip_rightD)
  ultimately show ?case using ws(1) init by (simp add: host_ready_def)
next
  case (step s t)
  have "set (given (h_front s)) \<subseteq> set (given (h_front t))"
    using step.hyps(2) by (cases rule: host_step.cases) (auto simp: host_put_def dest: fe_step_given[THEN subsetD])
  then have "fit (length ws) (given (h_front s))" by (rule fit_mono[OF step.prems])
  from host_step_ready[OF step.hyps(2) step.IH[OF this] step.prems] show ?case .
qed

text \<open>An idle host has no slices left.\<close>

lemma idle_heap:
  assumes r: "host_ready E n s" and i: "\<not> fe_sys.busy (h_front s)"
  shows "todo (h_front s) = []" "length (created (h_front s)) = length (given (h_front s))" "h_heap s = Map.empty"
proof -
  note D = host_readyD[OF r]
  obtain c d where v: "nq.bq.sys_ok (node_ops (host_node s)) n c d (node_view ocont (host_node s))"
    and f: "nq.fq.finv E (h_front s)" using D(7) by (auto simp: nq.node_ok_def)
  from f obtain a b d' tc rc prev where ok: "nq.fq.fok E a b d' tc rc (be_held (h_front s)) (created (h_front s)) (fe (h_front s))"
    and e: "a = length (created (h_front s))" and td: "todo (h_front s) = []" and g: "given (h_front s) = prev @ todo (h_front s)"
      "list_all2 made_for prev (created (h_front s))"
    using i by (auto elim: nq.fq.finvE)
  show "todo (h_front s) = []" by (rule td)
  show "length (created (h_front s)) = length (given (h_front s))" using g td by (simp add: list_all2_lengthD)
  have "b = d'" using nq.fq.fok_idle(1,2)[OF ok e] by simp
  then have h: "be_held (h_front s) = []" using ok by (simp add: fe_ok_def fe_queues_ok_def)
  have "h_heap s = live_heap (node_ops (host_node s)) n c d []" using nq.bq.sys_okD(7)[OF v] h by simp
  moreover have "d = c" using nq.bq.sys_okD(3)[OF v] h by simp
  ultimately show "h_heap s = Map.empty" by (auto simp: live_heap_def)
qed

end

lemma host_reach_rtranclp: "host_reach P Q S N E s t \<longleftrightarrow> (host_step P Q S N E)\<^sup>*\<^sup>* s t"
proof
  show "host_reach P Q S N E s t \<Longrightarrow> (host_step P Q S N E)\<^sup>*\<^sup>* s t"
    by (induction rule: host_reach.induct) (auto intro: rtranclp.rtrancl_into_rtrancl)
  show "(host_step P Q S N E)\<^sup>*\<^sup>* s t \<Longrightarrow> host_reach P Q S N E s t"
    by (induction rule: rtranclp_induct) (auto intro: host_reach.intros)
qed

interpretation host_fifo_turns: backend_turns "fifo_ops QUEUE_SIZE" "\<lambda>q. q" "fifo_ops QUEUE_SIZE" "\<lambda>q. q" E h_front
  "host_step (fifo_ops QUEUE_SIZE) (fifo_ops QUEUE_SIZE) (fifo_ops QUEUE_SIZE) card_ops E" "host_fifo.host_ready E n" for E n
  by (rule host_fifo.host_backend)

subsection \<open>Properties\<close>

text \<open>
  C3: A host in loopback brings its collectives to their end, when all are of one group with at least two aggregators for each
  worker, of even sizes, and their reductions of whole words: from every state it can reach with such collectives there is an order of
  turns of its threads - of the Python thread, the daemon, the load balancer and the workers, with CUDA completing its copies -
  after which the collective under way has returned, all its segments have been posted and completed, and
  no slice of an operation is left on the heap.
\<close>

theorem host_collective_finishes:
  assumes "host_queues P pcont Q ocont S scont N sent delivered"
    and "pcont p = []" and "ocont q = []" and "scont q' = []" and "ws \<noteq> []" and "\<forall>w\<in>set ws. starts q' w \<and> PACKET_LOOPBACK w"
    and "host_reach P Q S N E (host_init p q ws m mem) s"
    and "one_group_only (length ws) (given (h_front s))" and "even_sizes (given (h_front s))"
    and "roomy (length ws) (given (h_front s))" and "whole_words (given (h_front s))"
  shows "\<exists>t. host_reach P Q S N E s t \<and> \<not> fe_sys.busy (h_front t) \<and> todo (h_front t) = [] \<and> given (h_front t) = given (h_front s)
    \<and> length (created (h_front t)) = length (given (h_front s)) \<and> h_heap t = Map.empty"
proof -
  have "fit (length ws) (given (h_front s))" using assms(8-11) by (simp add: fit_def)
  note r = host_queues.host_reach_ready[OF assms(1,7,2-6) this]
  from backend_turns.turns_end[OF host_queues.host_backend[OF assms(1)] r] obtain t where
    t: "(host_step P Q S N E)\<^sup>*\<^sup>* s t" "host_queues.host_ready pcont ocont S scont N E (length ws) t"
      "\<not> fe_sys.busy (h_front t)" "given (h_front t) = given (h_front s)" by blast
  from host_queues.idle_heap[OF assms(1) t(2,3)] t show ?thesis by (auto simp: host_reach_rtranclp)
qed

theorem host_collective_finishes_witness:
  "\<exists>s t. host_demo_reach s \<and> length (be_held (h_front s)) = 1
     \<and> host_reach (fifo_ops QUEUE_SIZE) (fifo_ops QUEUE_SIZE) (fifo_ops QUEUE_SIZE) card_ops fe_demo_env s t
     \<and> \<not> fe_sys.busy (h_front t) \<and> length (created (h_front t)) = 2 \<and> h_heap t = Map.empty"
proof -
  obtain s where s: "host_demo_reach s" "given (h_front s) = [fe_demo_seg 0, fe_demo_seg 1]" "length (be_held (h_front s)) = 1"
    using host_demo_taken by blast
  have o: "one_group_only (length [demo_w0, demo_w0]) (given (h_front s))" using demo_one_group[OF s(2)] by (simp add: eval_nat_numeral)
  have r: "roomy (length [demo_w0, demo_w0]) (given (h_front s))"
    by (simp add: s(2) roomy_def fe_demo_seg_def segment_at_def Let_def fe_demo_args_def)
  have w: "whole_words (given (h_front s))" using node_demo_whole[OF s(2)] by (simp add: whole_words_def)
  have "PACKET_LOOPBACK demo_w0" using demo_w1_fields(8) by (simp add: demo_w1_def)
  then have st: "\<forall>w\<in>set [demo_w0, demo_w0]. starts [] w \<and> PACKET_LOOPBACK w" using demo_starts by simp
  have ne: "[demo_w0, demo_w0] \<noteq> []" by simp
  from host_collective_finishes[OF host_fifo.host_queues_axioms refl refl refl ne st s(1)[unfolded host_demo0_def] o fe_demo_even[OF s(2)] r w] s
  show ?thesis by fastforce
qed

end
