(* ===== verification/ProcessBufferCopy.thy ===== *)
theory ProcessBufferCopy
  imports ProcessBuffer NetUtils
begin

text \<open>
  The packet buffer of \<open>server/backend/process_buffer_copy.hpp\<close>, which \<open>process_buffer.hpp\<close> has replaced and no file
  includes any more: the same state (\<open>process_buffer\<close>) and card, with another \<open>send\<close> and \<open>flush_once\<close>, and a \<open>receive\<close>
  that may wait for a full burst. The names carry \<open>_copy\<close> where \<open>ProcessBuffer\<close> has the operation too.

  Its \<open>memmove\<close> counts bytes, so here a packet pointer is a 64-bit address (\<open>None\<close> the null pointer) and
  \<open>tx_bufs\<close> is also read as its bytes.
\<close>

subsection \<open>Pointers as bytes\<close>

definition addr_of :: "u64 option \<Rightarrow> u64" where
  "addr_of p = (case p of None \<Rightarrow> 0 | Some a \<Rightarrow> a)"

definition to_ptr :: "u64 \<Rightarrow> u64 option" where
  "to_ptr a = (if a = 0 then None else Some a)"

definition ptr_bytes :: "u64 option list \<Rightarrow> u8 list" where
  "ptr_bytes ps = concat (map (\<lambda>p. le_bytes 8 (addr_of p)) ps)"

definition ptr_at :: "u8 list \<Rightarrow> nat \<Rightarrow> u64 option" where
  "ptr_at bs i = to_ptr (of_le_bytes (take 8 (drop (8 * i) bs)))"

text \<open>\<open>memmove\<close> inside one object: \<open>n\<close> bytes from offset \<open>src\<close> to offset \<open>dst\<close>.\<close>

definition memmove :: "nat \<Rightarrow> nat \<Rightarrow> nat \<Rightarrow> u8 list \<Rightarrow> u8 list" where
  "memmove dst src n bs = take dst bs @ take n (drop src bs) @ drop (dst + n) bs"

text \<open>\<open>memmove(tx_bufs, tx_bufs + c, n)\<close>: the offset counts pointers, \<open>n\<close> counts bytes.\<close>

definition memmove_bufs :: "nat \<Rightarrow> nat \<Rightarrow> u64 option list \<Rightarrow> u64 option list" where
  "memmove_bufs c n ps = map (ptr_at (memmove 0 (8 * c) n (ptr_bytes ps))) [0..<length ps]"

subsection \<open>The class\<close>

definition queue_process_buffer_copy :: "u16 \<Rightarrow> u16 \<Rightarrow> u64 process_buffer option" where
  "queue_process_buffer_copy rxs txs = do {
     let pb = \<lparr>rx_size = rxs, tx_size = txs, rx_nb = 0, tx_nb = 0, rx_iter = 0, flush_timer = 0,
       receive_timer = 0, rx_bufs = replicate (unat rxs) None, tx_bufs = replicate (unat txs) None,
       total_rx_nb = 0, total_tx_nb = 0, total_drop_nb = 0, total_alloc_nb = 0\<rparr>;
     c_assert (rxs mod 8 = 0);
     Some pb
   }"

definition flush_once_copy :: "('n, u64) nic_ops \<Rightarrow> u64 process_buffer \<times> 'n \<Rightarrow> u64 process_buffer \<times> 'n" where
  "flush_once_copy N = (\<lambda>(pb, n).
     if tx_nb pb \<noteq> 0 then
       (let (k, n') = rte_eth_tx_burst N (take (unat (tx_nb pb)) (tx_bufs pb)) n;
            complete_nb = of_nat k;
            bufs = (if complete_nb < tx_nb pb
                    then memmove_bufs (unat complete_nb) (unat (tx_nb pb) - unat complete_nb) (tx_bufs pb)
                    else tx_bufs pb)
        in (pb\<lparr>tx_nb := tx_nb pb - complete_nb, tx_bufs := bufs, flush_timer := 0\<rparr>, n'))
     else (pb\<lparr>flush_timer := 0\<rparr>, n))"

definition flush_copy :: "('n, u64) nic_ops \<Rightarrow> u64 process_buffer \<times> 'n \<Rightarrow> (u64 process_buffer \<times> 'n) option" where
  "flush_copy N = (\<lambda>(pb, n). do {
     n' \<leftarrow> flush_rest N (take (unat (tx_nb pb)) (tx_bufs pb)) n;
     Some (pb\<lparr>tx_nb := 0, flush_timer := 0\<rparr>, n')
   })"

definition check_flush_timer_copy :: "('n, u64) nic_ops \<Rightarrow> u64 process_buffer \<times> 'n \<Rightarrow> u64 process_buffer \<times> 'n" where
  "check_flush_timer_copy N = (\<lambda>(pb, n).
     if unat (flush_timer pb) < unat (tx_size pb) * 2
     then (pb\<lparr>flush_timer := flush_timer pb + 1\<rparr>, n)
     else flush_once_copy N (pb, n))"

text \<open>A burst into \<open>rx_bufs\<close>; the first component is what \<open>rte_eth_rx_burst\<close> returns.\<close>

definition rx_burst :: "('n, u64) nic_ops \<Rightarrow> u64 process_buffer \<times> 'n \<Rightarrow> u16 \<times> u64 process_buffer \<times> 'n" where
  "rx_burst N = (\<lambda>(pb, n).
     let (pkts, n') = rte_eth_rx_burst N (unat (rx_size pb)) n
     in (of_nat (length pkts), pb\<lparr>rx_bufs := pkts @ drop (length pkts) (rx_bufs pb)\<rparr>, n'))"

text \<open>The template parameter \<open>immediate\<close> is the first argument.\<close>

definition batch_receive :: "bool \<Rightarrow> ('n, u64) nic_ops \<Rightarrow> u64 process_buffer \<times> 'n \<Rightarrow> u16 \<times> u64 process_buffer \<times> 'n" where
  "batch_receive immediate N = (\<lambda>(pb, n).
     if immediate then rx_burst N (pb, n)
     else if rte_eth_rx_queue_count N n < unat (rx_size pb) \<and> receive_timer pb < 1
       then (0, pb\<lparr>receive_timer := receive_timer pb + 1\<rparr>, n)
     else rx_burst N (pb\<lparr>receive_timer := 0\<rparr>, n))"

definition receive_impl :: "bool \<Rightarrow> ('n, u64) nic_ops \<Rightarrow> u64 process_buffer \<times> 'n \<Rightarrow> u64 option \<times> u64 process_buffer \<times> 'n" where
  "receive_impl immediate N s =
     (let (pb, n) = check_flush_timer_copy N s in
      if rx_iter pb = rx_nb pb then
        (let (nb, pb, n) = batch_receive immediate N (pb\<lparr>rx_iter := 0\<rparr>, n);
             pb = pb\<lparr>rx_nb := nb\<rparr>
         in if nb = 0 then (None, pb, n)
            else (rx_bufs pb ! 0, pb\<lparr>total_rx_nb := total_rx_nb pb + 1, rx_iter := 1\<rparr>, n))
      else (rx_bufs pb ! unat (rx_iter pb),
            pb\<lparr>total_rx_nb := total_rx_nb pb + 1, rx_iter := rx_iter pb + 1\<rparr>, n))"

definition receive_copy :: "('n, u64) nic_ops \<Rightarrow> u64 process_buffer \<times> 'n \<Rightarrow> u64 option \<times> u64 process_buffer \<times> 'n" where
  "receive_copy N s = receive_impl False N s"

definition receive_imm :: "('n, u64) nic_ops \<Rightarrow> u64 process_buffer \<times> 'n \<Rightarrow> u64 option \<times> u64 process_buffer \<times> 'n" where
  "receive_imm N s = receive_impl True N s"

text \<open>\<open>send\<close> without a loop that makes room; \<open>None\<close> is a store past the end of \<open>tx_bufs\<close>.\<close>

definition send_copy :: "('n, u64) nic_ops \<Rightarrow> u64 option \<Rightarrow> u64 process_buffer \<times> 'n \<Rightarrow> (u64 process_buffer \<times> 'n) option" where
  "send_copy N buf = (\<lambda>(pb, n). do {
     let pb = pb\<lparr>total_tx_nb := total_tx_nb pb + 1\<rparr>;
     c_assert (unat (tx_nb pb) < length (tx_bufs pb));
     let pb = pb\<lparr>tx_bufs := (tx_bufs pb)[unat (tx_nb pb) := buf], tx_nb := tx_nb pb + 1\<rparr>;
     Some (if tx_nb pb = tx_size pb then flush_once_copy N (pb, n) else (pb, n))
   })"

definition drop_copy :: "u64 process_buffer \<Rightarrow> u64 process_buffer" where
  "drop_copy pb = pb\<lparr>total_drop_nb := total_drop_nb pb + 1\<rparr>"

subsection \<open>What \<open>memmove\<close> leaves in the slots\<close>

lemma ptr_bytes_Nil [simp]: "ptr_bytes [] = []"
  by (simp add: ptr_bytes_def)

lemma ptr_bytes_Cons [simp]: "ptr_bytes (p # ps) = le_bytes 8 (addr_of p) @ ptr_bytes ps"
  by (simp add: ptr_bytes_def)

lemma length_ptr_bytes [simp]: "length (ptr_bytes ps) = 8 * length ps"
  by (induction ps) simp_all

lemma slot_bytes: "i < length ps \<Longrightarrow> take 8 (drop (8 * i) (ptr_bytes ps)) = le_bytes 8 (addr_of (ps ! i))"
  by (induction ps arbitrary: i) (auto simp: nth_Cons split: nat.splits)

lemma to_ptr_addr_of: "p \<noteq> Some 0 \<Longrightarrow> to_ptr (addr_of p) = p"
  by (auto simp: to_ptr_def addr_of_def split: option.splits)

lemma ptr_at_slot:
  assumes "take 8 (drop (8 * i) bs) = le_bytes 8 (addr_of p)" "p \<noteq> Some 0"
  shows "ptr_at bs i = p"
  using assms by (simp add: ptr_at_def of_le_bytes_le_bytes to_ptr_addr_of)

lemma slot_append:
  assumes "j + k \<le> n" "j + k \<le> length xs"
  shows "take k (drop j (take n xs @ ys)) = take k (drop j xs)"
  using assms by (simp add: take_drop min_absorb1)

lemma memmove_bufs_slot:
  assumes "i < length ps" "Some 0 \<notin> set ps"
  shows "8 * i + 8 \<le> n \<Longrightarrow> i + c < length ps \<Longrightarrow> memmove_bufs c n ps ! i = ps ! (i + c)"
    and "n \<le> 8 * i \<Longrightarrow> n + 8 * c \<le> 8 * length ps \<Longrightarrow> memmove_bufs c n ps ! i = ps ! i"
proof -
  have ok: "j < length ps \<Longrightarrow> ps ! j \<noteq> Some 0" for j using assms(2) by (metis nth_mem)
  show "memmove_bufs c n ps ! i = ps ! (i + c)" if "8 * i + 8 \<le> n" "i + c < length ps"
  proof -
    have "take 8 (drop (8 * i) (memmove 0 (8 * c) n (ptr_bytes ps))) = take 8 (drop (8 * (i + c)) (ptr_bytes ps))"
      using that slot_append[of "8 * i" 8 n "drop (8 * c) (ptr_bytes ps)"]
      by (simp add: memmove_def add_mult_distrib2 add.commute)
    then have "take 8 (drop (8 * i) (memmove 0 (8 * c) n (ptr_bytes ps))) = le_bytes 8 (addr_of (ps ! (i + c)))"
      using slot_bytes[OF that(2)] by simp
    from ptr_at_slot[OF this ok[OF that(2)]] show ?thesis using assms(1) by (simp add: memmove_bufs_def)
  qed
  show "memmove_bufs c n ps ! i = ps ! i" if "n \<le> 8 * i" "n + 8 * c \<le> 8 * length ps"
  proof -
    have "take 8 (drop (8 * i) (memmove 0 (8 * c) n (ptr_bytes ps))) = take 8 (drop (8 * i) (ptr_bytes ps))"
      using that by (simp add: memmove_def min_absorb2)
    then show ?thesis using assms(1) ok by (simp add: memmove_bufs_def slot_bytes ptr_at_slot)
  qed
qed

lemma memmove_bufs_still: "Some 0 \<notin> set ps \<Longrightarrow> n \<le> 8 * length ps \<Longrightarrow> memmove_bufs 0 n ps = ps"
proof (rule nth_equalityI)
  fix i assume a: "Some 0 \<notin> set ps" "n \<le> 8 * length ps" "i < length (memmove_bufs 0 n ps)"
  then have "ps ! i \<noteq> Some 0" "i < length ps" by (auto simp: memmove_bufs_def) (metis nth_mem)
  then show "memmove_bufs 0 n ps ! i = ps ! i"
    by (simp add: memmove_bufs_def memmove_def slot_bytes ptr_at_slot)
qed (simp add: memmove_bufs_def)

lemma length_memmove_bufs [simp]: "length (memmove_bufs c n ps) = length ps"
  by (simp add: memmove_bufs_def)


subsection \<open>Where it agrees with \<open>ProcessBuffer\<close>\<close>

text \<open>A burst that the card takes as a whole or not at all leaves nothing to move.\<close>

lemma flush_once_agrees:
  assumes ok: "pb_ok pb" "Some 0 \<notin> set (tx_bufs pb)" "tx_nb pb \<noteq> 0"
    and k: "fst (rte_eth_tx_burst N (queued pb) n) \<in> {0, length (queued pb)}"
  shows "flush_once_copy N (pb, n) = flush_once N (pb, n)"
proof -
  obtain c n' where b: "rte_eth_tx_burst N (queued pb) n = (c, n')" by fastforce
  have len: "length (queued pb) = unat (tx_nb pb)" "unat (tx_nb pb) \<le> length (tx_bufs pb)"
    using ok(1) by (auto simp: queued_def pb_ok_def)
  from k b have "c = 0 \<or> of_nat c = tx_nb pb" by (auto simp: len)
  then show ?thesis
    using b len(2) ok(3) memmove_bufs_still[OF ok(2), of "unat (tx_nb pb)"]
    by (auto simp: flush_once_copy_def flush_once_def queued_def Let_def)
qed

text \<open>With nothing to send the copy does not call the card.\<close>

lemma flush_once_idle:
  assumes "tx_nb pb = 0" "rte_eth_tx_burst N [] n = (0, n)"
  shows "flush_once_copy N (pb, n) = flush_once N (pb, n)"
  using assms by (simp add: flush_once_copy_def flush_once_def)

lemma receive_imm_agrees:
  assumes "check_flush_timer_copy N s = check_flush_timer N s"
  shows "receive_imm N s = receive N s"
  by (simp add: receive_imm_def receive_impl_def receive_def assms batch_receive_def rx_burst_def Let_def
      split: prod.splits)

lemma send_agrees:
  assumes "tx_nb pb \<noteq> tx_size pb" "unat (tx_nb pb) < length (tx_bufs pb)"
    and "\<And>pb n. tx_nb pb = tx_size pb \<Longrightarrow> flush_once_copy N (pb, n) = flush_once N (pb, n)"
  shows "send_copy N buf (pb, n) = send N buf (pb, n)"
  using assms by (simp add: send_copy_def send_def send_wait.simps Let_def)

subsection \<open>Where it does not\<close>

text \<open>
  What \<open>flush_once\<close> of the earlier packet buffer leaves when the card takes only some of the packets: with \<open>left\<close>
  packets to keep, only the first \<open>left div 8\<close> of them are moved to the front, because \<open>memmove\<close> is told to move \<open>left\<close> bytes. From slot
  \<open>(left + 7) div 8\<close> on the queue is what it was, counted from its old front, so it ends before its last \<open>c\<close> packets: they are lost.
\<close>

theorem earlier_flush_keeps_sent:
  assumes "nic N sent delivered" and "pb_ok pb" and "Some 0 \<notin> set (tx_bufs pb)"
    and "rte_eth_tx_burst N (queued pb) n = (c, m)" and "0 < c" and "left = length (queued pb) - c" and "0 < left"
    and "flush_once_copy N (pb, n) = (pb', n')"
  shows "length (queued pb') = left \<and> take (left div 8) (queued pb') = take (left div 8) (drop c (queued pb))
    \<and> drop ((left + 7) div 8) (queued pb') = drop ((left + 7) div 8) (take left (queued pb))"
proof -
  have len: "length (queued pb) = unat (tx_nb pb)" "unat (tx_nb pb) \<le> length (tx_bufs pb)"
    using assms(2) by (auto simp: queued_def pb_ok_def)
  have c: "c < unat (tx_nb pb)" "left = unat (tx_nb pb) - c" using assms(6,7) len(1) by simp_all
  have u: "unat (of_nat c :: u16) = c" using c(1) u16_bound[of "tx_nb pb"] by (simp add: unat_of_nat_small)
  have lt: "of_nat c < tx_nb pb" using c(1) by (simp add: word_less_nat_alt u)
  then have l: "unat (tx_nb pb - of_nat c) = left" using c(2) by (simp add: unat_sub u)
  have nz: "tx_nb pb \<noteq> 0" using lt by auto
  have pb': "queued pb' = take left (memmove_bufs c left (tx_bufs pb))"
    using assms(4,8) lt nz l c(2) by (auto simp: flush_once_copy_def queued_def Let_def u)
  let ?m = "memmove_bufs c left (tx_bufs pb)"
  have room: "c + left \<le> length (tx_bufs pb)" using c len by simp
  have old: "queued pb ! j = tx_bufs pb ! j" if "j < unat (tx_nb pb)" for j using that by (simp add: queued_def)
  have new: "queued pb' ! j = ?m ! j" if "j < left" for j using that by (simp add: pb')
  have len': "length (queued pb') = left" using room by (simp add: pb')
  have "take (left div 8) (queued pb') ! i = take (left div 8) (drop c (queued pb)) ! i" if "i < left div 8" for i
  proof -
    have "8 * i + 8 \<le> left" "i < length (tx_bufs pb)" "i + c < length (tx_bufs pb)" using that room by auto
    from memmove_bufs_slot(1)[OF this(2) assms(3) this(1,3)] show ?thesis
      using that c new[of i] old[of "c + i"] len(1) by (simp add: add.commute)
  qed
  then have 1: "take (left div 8) (queued pb') = take (left div 8) (drop c (queued pb))"
    using c len len' by (intro nth_equalityI) auto
  have "queued pb' ! i = take left (queued pb) ! i" if "(left + 7) div 8 \<le> i" "i < left" for i
  proof -
    have "left \<le> 8 * i" "i < length (tx_bufs pb)" "left + 8 * c \<le> 8 * length (tx_bufs pb)" using that room by auto
    from memmove_bufs_slot(2)[OF this(2) assms(3) this(1,3)] show ?thesis
      using that c new[of i] old[of i] by simp
  qed
  then have 2: "drop ((left + 7) div 8) (queued pb') = drop ((left + 7) div 8) (take left (queued pb))"
    using c len len' by (intro nth_equalityI) auto
  from 1 2 len' show ?thesis by simp
qed

text \<open>A card that takes one packet of each burst.\<close>

definition slow_ops :: "('m card, 'm) nic_ops" where
  "slow_ops = card_ops\<lparr>rte_eth_tx_burst := \<lambda>bufs c. (length (take 1 bufs), c\<lparr>on_wire := on_wire c @ take 1 bufs\<rparr>)\<rparr>"

lemma take_one: "take (min (length xs) (Suc 0)) xs = take (Suc 0) xs"
  by (cases xs) simp_all

interpretation slow_card: nic slow_ops on_wire handed
  by unfold_locales (auto simp: slow_ops_def card_ops_def take_one)

definition copy_pb :: "u64 process_buffer" where
  "copy_pb = (the (queue_process_buffer_copy 8 8))\<lparr>tx_nb := 4, tx_bufs := map Some [1, 2, 3, 4] @ replicate 4 None\<rparr>"

lemma replicate_8: "replicate 8 x = [x, x, x, x, x, x, x, x]" "replicate 4 x = [x, x, x, x]"
  by (simp_all add: eval_nat_numeral)

definition copy_card :: "u64 card" where
  "copy_card = \<lparr>on_wire = [], handed = [], inbox = [], busy = 0\<rparr>"

theorem earlier_flush_keeps_sent_witness:
  "on_wire (snd (flush_once_copy slow_ops (copy_pb, copy_card))) = [Some 1]
    \<and> drop 1 (queued (fst (flush_once_copy slow_ops (copy_pb, copy_card)))) = [Some 2, Some 3]
    \<and> queued (fst (flush_once slow_ops (copy_pb, copy_card))) = [Some 2, Some 3, Some 4]"
proof -
  have pb: "copy_pb = \<lparr>rx_size = 8, tx_size = 8, rx_nb = 0, tx_nb = 4, rx_iter = 0, flush_timer = 0,
       receive_timer = 0, rx_bufs = replicate 8 None, tx_bufs = [Some 1, Some 2, Some 3, Some 4, None, None, None, None],
       total_rx_nb = 0, total_tx_nb = 0, total_drop_nb = 0, total_alloc_nb = 0\<rparr>"
    by (simp add: copy_pb_def queue_process_buffer_copy_def Let_def replicate_8)
  have q: "queued copy_pb = [Some 1, Some 2, Some 3, Some 4]" by (simp add: pb queued_def)
  have ok: "pb_ok copy_pb" "Some 0 \<notin> set (tx_bufs copy_pb)" by (simp_all add: pb pb_ok_def)
  let ?m = "copy_card\<lparr>on_wire := [Some 1]\<rparr>"
  have b: "rte_eth_tx_burst slow_ops (queued copy_pb) copy_card = (1, ?m)"
    by (simp add: q slow_ops_def copy_card_def)
  obtain pb' n' where f: "flush_once_copy slow_ops (copy_pb, copy_card) = (pb', n')" by fastforce
  have "n' = ?m" using f b by (simp add: flush_once_copy_def queued_def pb Let_def)
  moreover have "drop 1 (queued pb') = [Some 2, Some 3]"
    using earlier_flush_keeps_sent[OF slow_card.nic_axioms ok b _ refl _ f] by (simp add: q)
  moreover have "queued (fst (flush_once slow_ops (copy_pb, copy_card))) = [Some 2, Some 3, Some 4]"
    using b by (simp add: flush_once_def queued_def pb Let_def shift_bufs_def upt_rec)
  ultimately show ?thesis by (simp add: f)
qed

text \<open>
  Packets on the card are not left there: a call that finds some may wait for a full burst, but the next one takes
  them. \<open>burst\<close> and \<open>le\<close> are what DPDK promises: a burst returns some of the packets counted, and no more than asked for.
\<close>

lemma batch_receive_waits_once:
  assumes burst: "\<And>k n. 0 < k \<Longrightarrow> 0 < rte_eth_rx_queue_count N n \<Longrightarrow> fst (rte_eth_rx_burst N k n) \<noteq> []"
    and le: "\<And>k n. length (fst (rte_eth_rx_burst N k n)) \<le> k"
    and size: "0 < unat (rx_size pb)" and some: "0 < rte_eth_rx_queue_count N n"
    and 1: "batch_receive False N (pb, n) = (0, pb1, n1)"
    and 2: "batch_receive False N (pb1, n1) = (nb, pb2, n2)"
  shows "n1 = n" "nb \<noteq> 0"
proof -
  have nz: "fst (rx_burst N (pb, n)) \<noteq> 0" if "0 < unat (rx_size pb)" "0 < rte_eth_rx_queue_count N n" for pb n
  proof -
    have "length (fst (rte_eth_rx_burst N (unat (rx_size pb)) n)) < 65536"
      using le[of "unat (rx_size pb)" n] u16_bound[of "rx_size pb"] by simp
    with burst[OF that] have "unat (of_nat (length (fst (rte_eth_rx_burst N (unat (rx_size pb)) n))) :: u16) \<noteq> 0"
      by (simp add: unat_of_nat_small)
    then show ?thesis by (auto simp: rx_burst_def split: prod.splits)
  qed
  have w: "receive_timer pb = 0" "pb1 = pb\<lparr>receive_timer := 1\<rparr>" "n1 = n"
    using 1 nz[OF size some] nz[of "pb\<lparr>receive_timer := 0\<rparr>" n] size some
    by (auto simp: batch_receive_def word_less_1 split: if_splits)
  then show "n1 = n" by blast
  have "batch_receive False N (pb1, n) = rx_burst N (pb, n)" using w by (simp add: batch_receive_def) (cases pb, simp)
  then show "nb \<noteq> 0" using 2 w(3) nz[OF size some] by simp
qed

text \<open>A buffer that the card has refused altogether stays full, and the next \<open>send\<close> stores past its end.\<close>

lemma earlier_send_overflows:
  assumes "pb_ok pb" "tx_nb pb = tx_size pb"
  shows "send_copy N buf (pb, n) = None"
  using assms by (simp add: send_copy_def pb_ok_def Let_def)

end
