(* ===== verification/FrontendSetup.thy ===== *)
theory FrontendSetup
  imports Frontend
begin

text \<open>
  The life of the frontend in a process (\<open>init\<close> and \<open>finalize\<close> of \<open>server/frontend/src/c/api.cpp\<close>): the shared
  memory, the two CUDA streams and the threads are made and taken down again. Calls of libraries
  are recorded in their order.
\<close>

subsection \<open>State\<close>

datatype setup_call =
    Shm_remove string
  | Shm_create string nat
  | Shm_construct string
  | Numa_set_strict
  | Numa_interleave nat
  | Fill_memory nat u8
  | Host_register nat
  | Shm_delete
  | Stream_create bool
  | Stream_destroy bool
  | Get_device
  | Thread_start
  | Thread_join

datatype thread_loop = Daemon_loop int | Test_loop

record fe_thread =
  runs :: thread_loop
  joinable :: bool

text \<open>
  The global variables of the two files; \<open>front\<close> holds the contents of the shared memory and the queue pair
  \<open>py_qp\<close>, \<open>has_shm\<close> says whether the pointer \<open>shm\<close> is set. A copy of \<open>shm_t\<close> has \<open>sizeof_shm_t\<close> bytes.
\<close>

record ('p, 'o) session =
  front :: "('p, 'o) frontend"
  session_name :: string
  has_shm :: bool
  daemon_quit :: bool
  daemon_threads :: "fe_thread list"
  setup_log :: "setup_call list"

record 'o session_env =
  sizeof_shm_t :: nat
  new_queue :: 'o
  zero_ops :: "nat \<Rightarrow> op_t"
  creates :: "setup_call list \<Rightarrow> bool"
  interleaves :: "setup_call list \<Rightarrow> bool"
  cuda_device :: int
  env_loopback :: bool

text \<open>
  What ends the process: an exception of the shared memory library, libnuma exiting when it cannot interleave the memory
  (\<open>numa_exit_on_error\<close> is set), or the exception of a thread that is joined again.
\<close>

datatype session_stop = Interprocess_exception | Numa_exit | System_error

definition SHM_MISC_SIZE :: nat where "SHM_MISC_SIZE = 1 * 1024 * 1024"

definition SHM_SIZE :: "'o session_env \<Rightarrow> nat" where
  "SHM_SIZE E = sizeof_shm_t E + SHM_MISC_SIZE"

definition calling :: "setup_call list \<Rightarrow> ('p, 'o) session \<Rightarrow> ('p, 'o) session" where
  "calling cs s = s\<lparr>setup_log := setup_log s @ cs\<rparr>"

text \<open>\<open>cuda_check\<close> prints and goes on; the result is what it prints. \<open>error_string\<close> is \<open>cudaGetErrorString\<close>.\<close>

definition cuda_check :: "(int \<Rightarrow> string) \<Rightarrow> int \<Rightarrow> string \<Rightarrow> string \<Rightarrow> nat \<Rightarrow> string" where
  "cuda_check error_string err func file line =
     (if err \<noteq> 0 then
        ''CUDA Runtime Error at: '' @ file @ '':'' @ to_string line @ [CHR 0x0A]
        @ error_string err @ '': '' @ func @ [CHR 0x0A]
      else '''')"

subsection \<open>Operations\<close>

definition shm_init :: "'o session_env \<Rightarrow> ('p, 'o) session \<Rightarrow> session_stop + ('p, 'o) session" where
  "shm_init E s =
     (let name = session_name s;
          s = calling [Shm_remove name] s
      in if \<not> creates E (setup_log s) then Inl Interprocess_exception
      else
        let s = calling [Shm_create name (SHM_SIZE E), Shm_construct ''queue_pair'', Numa_set_strict,
              Numa_interleave SHM_COPY_BUFFER_SIZE] s
        in if \<not> interleaves E (setup_log s) then Inl Numa_exit
        else
          let s = calling [Fill_memory SHM_COPY_BUFFER_SIZE 0xff, Host_register SHM_COPY_BUFFER_SIZE] s
          in Inr (s\<lparr>has_shm := True, front := (front s)\<lparr>copy_buf := new_copy_buffer, op_buf := new_op_buffer,
               op_mem := zero_ops E, be_qp := empty_pair (new_queue E)\<rparr>\<rparr>))"

definition shm_finalize :: "('p, 'o) session \<Rightarrow> ('p, 'o) session" where
  "shm_finalize s = calling [Shm_delete, Shm_remove (session_name s)] (s\<lparr>has_shm := False\<rparr>)"

definition stream_init :: "('p, 'o) session \<Rightarrow> ('p, 'o) session" where
  "stream_init s = calling [Stream_create True, Stream_create False] s"

definition stream_finalize :: "('p, 'o) session \<Rightarrow> ('p, 'o) session" where
  "stream_finalize s = calling [Stream_destroy True, Stream_destroy False] s"

definition start_thread :: "thread_loop \<Rightarrow> ('p, 'o) session \<Rightarrow> ('p, 'o) session" where
  "start_thread l s = calling [Thread_start] (s\<lparr>daemon_threads := daemon_threads s @ [\<lparr>runs = l, joinable = True\<rparr>]\<rparr>)"

definition thread_init :: "'o session_env \<Rightarrow> ('p, 'o) session \<Rightarrow> ('p, 'o) session" where
  "thread_init E s =
     (let s = start_thread (Daemon_loop (cuda_device E)) (calling [Get_device] s)
      in if env_loopback E then start_thread Test_loop s else s)"

text \<open>The threads from the \<open>i\<close>-th on are joined; joining one that was joined before throws.\<close>

fun join_threads :: "fe_thread list \<Rightarrow> session_stop + fe_thread list" where
  "join_threads [] = Inr []"
| "join_threads (t # ts) =
     (if joinable t then
        (case join_threads ts of Inl e \<Rightarrow> Inl e | Inr ts \<Rightarrow> Inr (t\<lparr>joinable := False\<rparr> # ts))
      else Inl System_error)"

definition thread_finalize :: "('p, 'o) session \<Rightarrow> session_stop + ('p, 'o) session" where
  "thread_finalize s =
     (case join_threads (daemon_threads s) of
        Inl e \<Rightarrow> Inl e
      | Inr ts \<Rightarrow> Inr (calling (map (\<lambda>_. Thread_join) ts) (s\<lparr>daemon_quit := True, daemon_threads := ts\<rparr>)))"

definition init :: "'o session_env \<Rightarrow> string \<Rightarrow> ('p, 'o) session \<Rightarrow> session_stop + ('p, 'o) session" where
  "init E name s =
     (case shm_init E (s\<lparr>session_name := name\<rparr>) of
        Inl e \<Rightarrow> Inl e
      | Inr s \<Rightarrow> Inr (thread_init E (stream_init s)))"

definition finalize :: "('p, 'o) session \<Rightarrow> session_stop + ('p, 'o) session" where
  "finalize s =
     (case thread_finalize s of
        Inl e \<Rightarrow> Inl e
      | Inr s \<Rightarrow> Inr (shm_finalize (stream_finalize s)))"

definition new_session :: "'p \<Rightarrow> 'o \<Rightarrow> (nat \<Rightarrow> op_t) \<Rightarrow> ('p, 'o) session" where
  "new_session p q m = \<lparr>front = new_frontend p q m, session_name = '''', has_shm = False, daemon_quit = False,
     daemon_threads = [], setup_log = []\<rparr>"

text \<open>The threads that can run a turn of their loops: started, not joined, and not told to quit.\<close>

definition running :: "('p, 'o) session \<Rightarrow> thread_loop list" where
  "running s = (if daemon_quit s then [] else map runs (filter joinable (daemon_threads s)))"

subsection \<open>One session, and another\<close>

lemma init_fields:
  assumes "init E name s = Inr s'"
  shows "has_shm s'" "daemon_quit s' = daemon_quit s" "copy_buf (front s') = new_copy_buffer" "op_buf (front s') = new_op_buffer"
    "be_qp (front s') = empty_pair (new_queue E)" "py_qp (front s') = py_qp (front s)"
    "daemon_threads s' = daemon_threads s @ \<lparr>runs = Daemon_loop (cuda_device E), joinable = True\<rparr>
      # (if env_loopback E then [\<lparr>runs = Test_loop, joinable = True\<rparr>] else [])"
  using assms
  by (auto simp: init_def shm_init_def stream_init_def thread_init_def start_thread_def calling_def Let_def split: if_splits)

lemma join_joinable: "list_all joinable ts \<Longrightarrow> join_threads ts = Inr (map (\<lambda>t. t\<lparr>joinable := False\<rparr>) ts)"
  by (induction ts) simp_all

lemma join_joined: "\<not> list_all joinable ts \<Longrightarrow> join_threads ts = Inl System_error"
  by (induction ts) auto

lemma finalize_fields:
  assumes "list_all joinable (daemon_threads s)"
  shows "\<exists>s'. finalize s = Inr s' \<and> daemon_quit s' \<and> \<not> has_shm s' \<and> front s' = front s
    \<and> daemon_threads s' = map (\<lambda>t. t\<lparr>joinable := False\<rparr>) (daemon_threads s)"
  using assms
  by (simp add: finalize_def thread_finalize_def join_joinable shm_finalize_def stream_finalize_def calling_def)

text \<open>
  C30: A first \<open>init\<close> starts from empty allocators and queues with one daemon running, and \<open>finalize\<close> ends it. But
  the session cannot be started anew: after another \<open>init\<close> without \<open>finalize\<close> two daemons run on the
  queue pairs, which are made for one; and after \<open>finalize\<close> and \<open>init\<close> the flag \<open>daemon_quit\<close> is still set, so
  that no thread ever runs a turn, and the next \<open>finalize\<close> joins a thread twice, which throws.
\<close>

theorem session_runs_once:
  assumes "init E name (new_session p q m) = Inr s1" "init E name s1 = Inr s2"
    and "finalize s1 = Inr s3" "init E name s3 = Inr s4" "\<not> env_loopback E"
  shows "running s1 = [Daemon_loop (cuda_device E)]
    \<and> front s1 = new_frontend p (new_queue E) (zero_ops E)
    \<and> running s3 = []
    \<and> running s2 = [Daemon_loop (cuda_device E), Daemon_loop (cuda_device E)]
    \<and> running s4 = [] \<and> finalize s4 = Inl System_error"
proof -
  note 1 = init_fields[OF assms(1)] and 2 = init_fields[OF assms(2)] and 4 = init_fields[OF assms(4)]
  have t1: "daemon_threads s1 = [\<lparr>runs = Daemon_loop (cuda_device E), joinable = True\<rparr>]"
    using 1(7) assms(5) by (simp add: new_session_def)
  with finalize_fields[of s1] assms(3) have 3: "daemon_quit s3" "daemon_threads s3 = [\<lparr>runs = Daemon_loop (cuda_device E), joinable = False\<rparr>]"
    by auto
  have q1: "\<not> daemon_quit s1" using 1(2) by (simp add: new_session_def)
  have "front s1 = new_frontend p (new_queue E) (zero_ops E)"
    using assms(1) by (auto simp: init_def shm_init_def stream_init_def thread_init_def start_thread_def calling_def Let_def
        new_session_def new_frontend_def split: if_splits)
  moreover have "finalize s4 = Inl System_error"
    using 4(7) 3(2) by (simp add: finalize_def thread_finalize_def)
  ultimately show ?thesis
    using 2(2,7) 4(2) 3 t1 q1 assms(5) by (simp add: running_def)
qed

definition zero_op :: op_t where
  "zero_op = \<lparr>op_code = 0, op_root = 0, op_size = 0, shm_buffer = 0,
     op_group = \<lparr>group_id = 0, group_size = 0, group_rank = 0, group_agg_addr = 0, group_agg_len = 0, switch_ip = 0\<rparr>, op_with_fut = 0\<rparr>"

definition demo_session_env :: "unit session_env" where
  "demo_session_env = \<lparr>sizeof_shm_t = 8500000, new_queue = (), zero_ops = (\<lambda>_. zero_op), creates = (\<lambda>_. True), interleaves = (\<lambda>_. True), cuda_device = 0,
     env_loopback = False\<rparr>"

theorem session_runs_once_witness:
  "\<exists>s1 s3 s4. init demo_session_env ''netccl'' (new_session () () (\<lambda>_. zero_op)) = Inr s1 \<and> finalize s1 = Inr s3
    \<and> init demo_session_env ''netccl'' s3 = Inr s4 \<and> running s1 = [Daemon_loop 0] \<and> running s4 = []"
proof -
  have total: "\<exists>s'. init demo_session_env ''netccl'' s = Inr s'" for s :: "(unit, unit) session"
    by (simp add: init_def shm_init_def demo_session_env_def Let_def)
  obtain s1 where 1: "init demo_session_env ''netccl'' (new_session () () (\<lambda>_. zero_op)) = Inr s1" using total by blast
  obtain s2 where 2: "init demo_session_env ''netccl'' s1 = Inr s2" using total by blast
  have "list_all joinable (daemon_threads s1)"
    using init_fields(7)[OF 1] by (simp add: new_session_def demo_session_env_def)
  then obtain s3 where 3: "finalize s1 = Inr s3" using finalize_fields by blast
  obtain s4 where 4: "init demo_session_env ''netccl'' s3 = Inr s4" using total by blast
  have "\<not> env_loopback demo_session_env" "cuda_device demo_session_env = 0" by (simp_all add: demo_session_env_def)
  with session_runs_once[OF 1 2 3 4] 1 3 4 show ?thesis by auto
qed

end
