(* ===== verification/ArgNumbers.thy ===== *)
theory ArgNumbers
  imports Prelude "HOL-Library.Char_ord"
begin

text \<open>
  The number parsers of the command line library (\<open>details\<close> of
  \<open>server/libs/argparse/include/argparse/argparse.hpp\<close>), which the backend reads its number of
  threads with. A call that throws is \<open>Inl\<close> of the exception, with the message the code builds.

  \<open>std::from_chars\<close> for integers is modelled after the C++17 standard: an optional minus sign for
  a signed type, then the longest run of digits of the base. \<open>strtod\<close> is a parameter: the value's bits, how many
  characters it took, and whether it set \<open>ERANGE\<close>.
\<close>

subsection \<open>Exceptions\<close>

datatype cpp_exn =
    Runtime_error string
  | Range_error string
  | Invalid_argument string
  | Logic_error string
  | Out_of_range string
  | Bad_any_cast

text \<open>What a handler for \<open>const std::runtime_error &\<close> catches.\<close>

fun is_runtime_error :: "cpp_exn \<Rightarrow> bool" where
  "is_runtime_error (Runtime_error _) = True"
| "is_runtime_error (Range_error _) = True"
| "is_runtime_error _ = False"

type_synonym 'a thrown = "cpp_exn + 'a"

definition and_then :: "'e + 'a \<Rightarrow> ('a \<Rightarrow> 'e + 'b) \<Rightarrow> 'e + 'b" where
  "and_then r f = (case r of Inl e \<Rightarrow> Inl e | Inr x \<Rightarrow> f x)"

lemma and_then_simps [simp]: "and_then (Inl e) f = Inl e" "and_then (Inr x) f = f x"
  by (simp_all add: and_then_def)

lemma and_then_Inr: "and_then r f = Inr y \<longleftrightarrow> (\<exists>x. r = Inr x \<and> f x = Inr y)"
  by (cases r) auto

lemma and_then_Inl: "and_then r f = Inl e \<longleftrightarrow> r = Inl e \<or> (\<exists>x. r = Inr x \<and> f x = Inl e)"
  by (cases r) auto

subsection \<open>Strings\<close>

definition quoted :: "string \<Rightarrow> string" where
  "quoted s = [CHR 0x27] @ s @ [CHR 0x27]"

text \<open>\<open>starts_with(prefix, s)\<close>; \<open>s.substr(0, n)\<close> stops at the end of \<open>s\<close>.\<close>

definition starts_with :: "string \<Rightarrow> string \<Rightarrow> bool" where
  "starts_with prefix s = (take (length prefix) s = prefix)"

definition consume_binary_prefix :: "string \<Rightarrow> bool \<times> string" where
  "consume_binary_prefix s =
     (if starts_with ''0b'' s \<or> starts_with ''0B'' s then (True, drop 2 s) else (False, s))"

definition consume_hex_prefix :: "string \<Rightarrow> bool \<times> string" where
  "consume_hex_prefix s =
     (if starts_with ''0x'' s \<or> starts_with ''0X'' s then (True, drop 2 s) else (False, s))"

subsection \<open>Integers\<close>

text \<open>
  The standard signed and unsigned integer types by their rank, since two types of one width (\<open>long\<close> and \<open>long long\<close>) are
  still two types to \<open>std::any\<close>; the widths are those of the platform.
\<close>

datatype int_rank = Char_rank | Short_rank | Int_rank | Long_rank | Long_long_rank

fun rank_width :: "int_rank \<Rightarrow> nat" where
  "rank_width Char_rank = 8"
| "rank_width Short_rank = 16"
| "rank_width Int_rank = 32"
| "rank_width Long_rank = 64"
| "rank_width Long_long_rank = 64"

datatype int_type = Signed int_rank | Unsigned int_rank

fun is_signed :: "int_type \<Rightarrow> bool" where
  "is_signed (Signed _) = True"
| "is_signed (Unsigned _) = False"

fun in_range :: "int_type \<Rightarrow> int \<Rightarrow> bool" where
  "in_range (Signed r) i \<longleftrightarrow> - (2 ^ (rank_width r - 1)) \<le> i \<and> i < 2 ^ (rank_width r - 1)"
| "in_range (Unsigned r) i \<longleftrightarrow> 0 \<le> i \<and> i < 2 ^ rank_width r"

definition digit_value :: "char \<Rightarrow> nat" where
  "digit_value c =
     (if CHR ''0'' \<le> c \<and> c \<le> CHR ''9'' then of_char c - 48
      else if CHR ''a'' \<le> c \<and> c \<le> CHR ''z'' then of_char c - 87
      else if CHR ''A'' \<le> c \<and> c \<le> CHR ''Z'' then of_char c - 55
      else 255)"

definition digits_value :: "nat \<Rightarrow> string \<Rightarrow> nat" where
  "digits_value base s = foldl (\<lambda>v c. v * base + digit_value c) 0 s"

text \<open>\<open>std::from_chars\<close>: the value and the rest of the text, or what is wrong.\<close>

datatype chars_result = Chars int string | Not_found | Too_big

definition from_chars :: "int_type \<Rightarrow> nat \<Rightarrow> string \<Rightarrow> chars_result" where
  "from_chars T base s =
     (let neg = (is_signed T \<and> s \<noteq> [] \<and> hd s = CHR ''-'');
          t = (if neg then tl s else s);
          ds = takeWhile (\<lambda>c. digit_value c < base) t;
          v = (if neg then - int (digits_value base ds) else int (digits_value base ds))
      in if ds = [] then Not_found
         else if in_range T v then Chars v (dropWhile (\<lambda>c. digit_value c < base) t)
         else Too_big)"

definition do_from_chars :: "int_type \<Rightarrow> nat \<Rightarrow> string \<Rightarrow> int thrown" where
  "do_from_chars T base s =
     (case from_chars T base s of
        Chars x rest \<Rightarrow>
          if rest = [] then Inr x
          else Inl (Invalid_argument (''pattern '' @ quoted s @ '' does not match to the end''))
      | Not_found \<Rightarrow> Inl (Invalid_argument (''pattern '' @ quoted s @ '' not found''))
      | Too_big \<Rightarrow> Inl (Range_error (quoted s @ '' not representable'')))"


text \<open>
  A handler of the parsers below: the two exceptions of \<open>do_from_chars\<close> are thrown again with a longer message.
\<close>

fun rethrow :: "string \<Rightarrow> string \<Rightarrow> 'a thrown \<Rightarrow> 'a thrown" where
  "rethrow s what (Inl (Invalid_argument err)) = Inl (Invalid_argument (''Failed to parse '' @ quoted s @ '' as '' @ what @ '': '' @ err))"
| "rethrow s what (Inl (Range_error err)) = Inl (Range_error (''Failed to parse '' @ quoted s @ '' as '' @ what @ '': '' @ err))"
| "rethrow s what r = r"

text \<open>
  \<open>parse_number<T, Param>\<close> for a base, for base 2 and 16, which have their own specialisations, and
  for no base (shape \<open>i\<close>), where a prefix says which.
\<close>

definition parse_number_base :: "int_type \<Rightarrow> nat \<Rightarrow> string \<Rightarrow> int thrown" where
  "parse_number_base T base s = do_from_chars T base s"

definition parse_number_2 :: "int_type \<Rightarrow> string \<Rightarrow> int thrown" where
  "parse_number_2 T s =
     (case consume_binary_prefix s of
        (True, rest) \<Rightarrow> do_from_chars T 2 rest
      | (False, _) \<Rightarrow> Inl (Invalid_argument ''pattern not found''))"

definition parse_number_16 :: "int_type \<Rightarrow> string \<Rightarrow> int thrown" where
  "parse_number_16 T s =
     (if starts_with ''0x'' s \<or> starts_with ''0X'' s then
        (case consume_hex_prefix s of
           (True, rest) \<Rightarrow> rethrow s ''hexadecimal'' (do_from_chars T 16 rest)
         | (False, _) \<Rightarrow> Inl (Invalid_argument (''pattern '' @ quoted s @ '' not identified as hexadecimal'')))
      else rethrow s ''hexadecimal'' (do_from_chars T 16 s))"

definition parse_number_any :: "int_type \<Rightarrow> string \<Rightarrow> int thrown" where
  "parse_number_any T s =
     (case consume_hex_prefix s of
        (True, rest) \<Rightarrow> rethrow s ''hexadecimal'' (do_from_chars T 16 rest)
      | (False, rest) \<Rightarrow>
          (case consume_binary_prefix s of
             (True, rest_binary) \<Rightarrow> rethrow s ''binary'' (do_from_chars T 2 rest_binary)
           | (False, _) \<Rightarrow>
               if starts_with ''0'' s then rethrow s ''octal'' (do_from_chars T 8 rest)
               else rethrow s ''decimal integer'' (do_from_chars T 10 rest)))"

subsection \<open>Floating point numbers\<close>

type_synonym strtod = "string \<Rightarrow> u64 \<times> nat \<times> bool"

definition is_space :: "char \<Rightarrow> bool" where
  "is_space c \<longleftrightarrow> c = CHR '' '' \<or> (CHR 0x09 \<le> c \<and> c \<le> CHR 0x0D)"

definition do_strtod :: "strtod \<Rightarrow> string \<Rightarrow> u64 thrown" where
  "do_strtod strtod s =
     (if s \<noteq> [] \<and> (is_space (hd s) \<or> hd s = CHR ''+'') then Inl (Invalid_argument (''pattern '' @ quoted s @ '' not found''))
      else case strtod s of (x, n, erange) \<Rightarrow>
        if \<not> erange then
          (if n = length s then Inr x
           else Inl (Invalid_argument (''pattern '' @ quoted s @ '' does not match to the end'')))
        else Inl (Range_error (quoted s @ '' not representable'')))"

datatype chars_format = Scientific | Fixed | Hex_float | Binary_float | General

definition has_exponent :: "string \<Rightarrow> bool" where
  "has_exponent s \<longleftrightarrow> CHR ''e'' \<in> set s \<or> CHR ''E'' \<in> set s"

fun parse_float :: "strtod \<Rightarrow> chars_format \<Rightarrow> string \<Rightarrow> u64 thrown" where
  "parse_float strtod General s =
     (if fst (consume_hex_prefix s) then Inl (Invalid_argument ''chars_format::general does not parse hexfloat'')
      else if fst (consume_binary_prefix s) then Inl (Invalid_argument ''chars_format::general does not parse binfloat'')
      else rethrow s ''number'' (do_strtod strtod s))"
| "parse_float strtod Hex_float s =
     (if \<not> fst (consume_hex_prefix s) then Inl (Invalid_argument ''chars_format::hex parses hexfloat'')
      else if fst (consume_binary_prefix s) then Inl (Invalid_argument ''chars_format::hex does not parse binfloat'')
      else rethrow s ''hexadecimal'' (do_strtod strtod s))"
| "parse_float strtod Binary_float s =
     (if fst (consume_hex_prefix s) then Inl (Invalid_argument ''chars_format::binary does not parse hexfloat'')
      else if \<not> fst (consume_binary_prefix s) then Inl (Invalid_argument ''chars_format::binary parses binfloat'')
      else do_strtod strtod s)"
| "parse_float strtod Scientific s =
     (if fst (consume_hex_prefix s) then Inl (Invalid_argument ''chars_format::scientific does not parse hexfloat'')
      else if fst (consume_binary_prefix s) then Inl (Invalid_argument ''chars_format::scientific does not parse binfloat'')
      else if \<not> has_exponent s then Inl (Invalid_argument ''chars_format::scientific requires exponent part'')
      else rethrow s ''scientific notation'' (do_strtod strtod s))"
| "parse_float strtod Fixed s =
     (if fst (consume_hex_prefix s) then Inl (Invalid_argument ''chars_format::fixed does not parse hexfloat'')
      else if fst (consume_binary_prefix s) then Inl (Invalid_argument ''chars_format::fixed does not parse binfloat'')
      else if has_exponent s then Inl (Invalid_argument ''chars_format::fixed does not parse exponent part'')
      else rethrow s ''fixed notation'' (do_strtod strtod s))"

subsection \<open>Reading back what was printed\<close>

declare to_string.simps [simp del]

lemma digit_char:
  fixes d :: nat
  assumes "d < 10"
  shows "digit_value (char_of (48 + d)) = d" "char_of (48 + d) \<noteq> CHR ''-''"
    "char_of (48 + d) = CHR ''0'' \<longleftrightarrow> d = 0"
proof -
  have o: "of_char (char_of (48 + d)) = 48 + d" using assms by (simp add: of_char_of)
  show "digit_value (char_of (48 + d)) = d"
    using assms by (simp add: digit_value_def less_eq_char_def o)
  have "char_of (48 + d) = c \<longleftrightarrow> 48 + d = of_char c" for c
    using o by (metis char_of_char)
  from this[of "CHR ''-''"] this[of "CHR ''0''"] show "char_of (48 + d) \<noteq> CHR ''-''" "char_of (48 + d) = CHR ''0'' \<longleftrightarrow> d = 0"
    by simp_all
qed

lemma digits_value_append: "digits_value b (s @ [c]) = digits_value b s * b + digit_value c"
  by (simp add: digits_value_def)

lemma to_string_value: "digits_value 10 (to_string n) = n"
proof (induction n rule: to_string.induct)
  case (1 n)
  show ?case
  proof (cases "n < 10")
    case True
    then show ?thesis by (simp add: to_string.simps[of n] digits_value_def digit_char)
  next
    case False
    with 1 show ?thesis by (simp add: to_string.simps[of n] digits_value_append digit_char)
  qed
qed

lemma to_string_digits: "c \<in> set (to_string n) \<Longrightarrow> \<exists>d<10. c = char_of (48 + (d::nat))"
proof (induction n rule: to_string.induct)
  case (1 n)
  then show ?case by (subst (asm) (2) to_string.simps) (auto split: if_splits intro: exI[of _ n] exI[of _ "n mod 10"])
qed

lemma to_string_ne [simp]: "to_string n \<noteq> []"
  by (simp add: to_string.simps[of n])

lemma to_string_hd: "hd (to_string n) = CHR ''0'' \<longleftrightarrow> n = 0"
proof (induction n rule: to_string.induct)
  case (1 n)
  show ?case
  proof (cases "n < 10")
    case True
    then show ?thesis by (simp add: to_string.simps[of n] digit_char)
  next
    case False
    with 1 show ?thesis by (simp add: to_string.simps[of n])
  qed
qed

lemma to_string_span:
  "takeWhile (\<lambda>c. digit_value c < 10) (to_string n) = to_string n" "dropWhile (\<lambda>c. digit_value c < 10) (to_string n) = []"
  using to_string_digits digit_char(1) by (force simp: takeWhile_eq_all_conv dropWhile_eq_Nil_conv)+

lemma to_string_hd_not_minus: "hd (to_string n) \<noteq> CHR ''-''"
  using to_string_digits[of "hd (to_string n)" n] digit_char(2) by (metis hd_in_set to_string_ne)

lemma from_chars_print:
  assumes "is_signed T \<or> 0 \<le> i"
  shows "from_chars T 10 (int_to_string i) = (if in_range T i then Chars i [] else Too_big)"
  using assms
  by (auto simp: from_chars_def int_to_string_def to_string_span to_string_value to_string_hd_not_minus Let_def)

lemma zero_text: "int_to_string 0 = ''0''"
  using digit_char(3)[of 0] by (simp add: int_to_string_def to_string.simps[of 0])

lemma int_to_string_prefixes:
  "\<not> fst (consume_hex_prefix (int_to_string i))" "\<not> fst (consume_binary_prefix (int_to_string i))"
  "starts_with ''0'' (int_to_string i) \<longleftrightarrow> i = 0"
proof -
  have two: "s = CHR ''0'' # c # t \<Longrightarrow> s = int_to_string i \<Longrightarrow> False" for s c t
  proof -
    assume s: "s = CHR ''0'' # c # t" "s = int_to_string i"
    then have "hd (to_string (nat i)) = CHR ''0''" "0 \<le> i" by (auto simp: int_to_string_def split: if_splits)
    then have "i = 0" using to_string_hd[of "nat i"] by simp
    then show False using s zero_text by simp
  qed
  have t2: "take (Suc (Suc 0)) s = [a, b] \<Longrightarrow> \<exists>t. s = a # b # t" for s :: string and a b
    by (cases s; cases "tl s") auto
  have nz: "\<not> starts_with [CHR ''0'', c] (int_to_string i)" for c
  proof
    assume "starts_with [CHR ''0'', c] (int_to_string i)"
    then have "take (Suc (Suc 0)) (int_to_string i) = [CHR ''0'', c]" by (simp add: starts_with_def)
    from t2[OF this] two[OF _ refl] show False by blast
  qed
  show "\<not> fst (consume_hex_prefix (int_to_string i))" "\<not> fst (consume_binary_prefix (int_to_string i))"
    using nz[of "CHR ''x''"] nz[of "CHR ''X''"] nz[of "CHR ''b''"] nz[of "CHR ''B''"]
    unfolding consume_hex_prefix_def consume_binary_prefix_def by simp_all
  show "starts_with ''0'' (int_to_string i) \<longleftrightarrow> i = 0"
    using to_string_hd[of "nat i"] to_string_ne[of "nat i"]
    by (cases "to_string (nat i)") (auto simp: starts_with_def int_to_string_def)
qed

text \<open>
  An integer that is printed and read back, with shape \<open>d\<close> (or \<open>u\<close>, for an unsigned type) or with
  shape \<open>i\<close>, is itself if its type can hold it; if not, the range error says so. Printing never
  gives a text that shape \<open>i\<close> takes for another base (0 is read as octal).
\<close>

theorem print_parse_roundtrip:
  assumes "is_signed T \<or> 0 \<le> i"
  shows "parse_number_base T 10 (int_to_string i) =
      (if in_range T i then Inr i else Inl (Range_error (quoted (int_to_string i) @ '' not representable'')))
    \<and> parse_number_any T (int_to_string i) =
      (if in_range T i then Inr i
       else Inl (Range_error (''Failed to parse '' @ quoted (int_to_string i) @ '' as '' @
         (if i = 0 then ''octal'' else ''decimal integer'') @ '': '' @ quoted (int_to_string i) @ '' not representable'')))"
proof -
  have d: "do_from_chars T 10 (int_to_string i) =
    (if in_range T i then Inr i else Inl (Range_error (quoted (int_to_string i) @ '' not representable'')))"
    by (simp add: do_from_chars_def from_chars_print[OF assms])
  have z: "do_from_chars T 8 (int_to_string 0) =
    (if in_range T 0 then Inr 0 else Inl (Range_error (quoted (int_to_string 0) @ '' not representable'')))"
    by (simp add: do_from_chars_def from_chars_def zero_text digits_value_def digit_value_def less_eq_char_def)
  have hex: "consume_hex_prefix (int_to_string i) = (False, int_to_string i)"
    and bin: "consume_binary_prefix (int_to_string i) = (False, int_to_string i)"
    using int_to_string_prefixes(1,2)[of i] by (auto simp: consume_hex_prefix_def consume_binary_prefix_def split: if_splits)
  show ?thesis
  proof (cases "i = 0")
    case True
    then show ?thesis using d z hex bin int_to_string_prefixes(3)[of i]
      by (simp add: parse_number_base_def parse_number_any_def)
  next
    case False
    then show ?thesis using d hex bin int_to_string_prefixes(3)[of i]
      by (simp add: parse_number_base_def parse_number_any_def)
  qed
qed

theorem print_parse_roundtrip_witness:
  "parse_number_base (Signed Int_rank) 10 (int_to_string (- 2147483648)) = Inr (- 2147483648)
   \<and> parse_number_any (Unsigned Char_rank) (int_to_string 256)
     = Inl (Range_error (''Failed to parse '' @ quoted (int_to_string 256) @ '' as decimal integer: ''
         @ quoted (int_to_string 256) @ '' not representable''))"
  using print_parse_roundtrip[of "Signed Int_rank" "- 2147483648"] print_parse_roundtrip[of "Unsigned Char_rank" 256] by simp

end
