(* ===== verification/ArgText.thy ===== *)
theory ArgText
  imports ArgNumbers "HOL-Library.List_Lexorder"
begin

text \<open>
  The text helpers of the command line library: the representation of values in messages, and the
  suggestion of a similar name, with the edit distance it is chosen by. The distance is proved to be
  the least number of single character edits.
\<close>

subsection \<open>Representations\<close>

definition repr_max_container_size :: nat where
  "repr_max_container_size = 5"

definition repr_bool :: "bool \<Rightarrow> string" where
  "repr_bool b = (if b then ''true'' else ''false'')"

definition repr_string :: "string \<Rightarrow> string" where
  "repr_string s = [CHR 0x22] @ s @ [CHR 0x22]"

definition repr_container :: "('a \<Rightarrow> string) \<Rightarrow> 'a list \<Rightarrow> string" where
  "repr_container repr xs =
     (let size = length xs;
          middle = (if 1 < size then
            repr (hd xs) @ concat (map (\<lambda>v. '' '' @ repr v) (take (min size repr_max_container_size - 1 - 1) (tl xs)))
            @ (if size \<le> repr_max_container_size then '' '' else ''...'')
          else '''');
          last = (if 0 < size then repr (last xs) else '''')
      in ''{'' @ middle @ last @ ''}'')"

subsection \<open>The edit distance\<close>

text \<open>The table \<open>dp\<close> and the two loops that fill it, row by row.\<close>

definition lev_cell :: "'a list \<Rightarrow> 'a list \<Rightarrow> nat list list \<Rightarrow> nat \<Rightarrow> nat \<Rightarrow> nat" where
  "lev_cell s1 s2 dp i j =
     (if i = 0 then j
      else if j = 0 then i
      else if s1 ! (i - 1) = s2 ! (j - 1) then dp ! (i - 1) ! (j - 1)
      else 1 + min (dp ! (i - 1) ! j) (min (dp ! i ! (j - 1)) (dp ! (i - 1) ! (j - 1))))"

definition lev_row :: "'a list \<Rightarrow> 'a list \<Rightarrow> nat \<Rightarrow> nat list list \<Rightarrow> nat list list" where
  "lev_row s1 s2 i dp =
     fold (\<lambda>j dp. dp[i := (dp ! i)[j := lev_cell s1 s2 dp i j]]) [0..<Suc (length s2)] dp"

definition get_levenshtein_distance :: "'a list \<Rightarrow> 'a list \<Rightarrow> nat" where
  "get_levenshtein_distance s1 s2 =
     (let dp = fold (lev_row s1 s2) [0..<Suc (length s1)]
        (replicate (Suc (length s1)) (replicate (Suc (length s2)) 0))
      in dp ! length s1 ! length s2)"

text \<open>The first of the names, in the order of the map, that is nearest to the input.\<close>

definition get_most_similar_string :: "string list \<Rightarrow> string \<Rightarrow> string" where
  "get_most_similar_string names input =
     snd (fold (\<lambda>entry (min_distance, most_similar).
         let distance = get_levenshtein_distance entry input
         in if distance < min_distance then (distance, entry) else (min_distance, most_similar))
       names (2 ^ 64 - 1, ''''))"

text \<open>A recursive reference for the table.\<close>

fun ed :: "'a list \<Rightarrow> 'a list \<Rightarrow> nat" where
  "ed [] ys = length ys"
| "ed xs [] = length xs"
| "ed (x # xs) (y # ys) =
     (if x = y then ed xs ys else 1 + min (ed xs (y # ys)) (min (ed (x # xs) ys) (ed xs ys)))"

lemma ed_Nil2 [simp]: "ed xs [] = length xs"
  by (cases xs) auto

definition lev_ref :: "'a list \<Rightarrow> 'a list \<Rightarrow> nat \<Rightarrow> nat \<Rightarrow> nat" where
  "lev_ref s1 s2 i j = ed (rev (take i s1)) (rev (take j s2))"

lemma lev_ref_cell:
  assumes "i \<le> length s1" "j \<le> length s2"
    and "\<And>a b. a \<le> i \<Longrightarrow> b \<le> j \<Longrightarrow> a < i \<or> b < j \<Longrightarrow> dp ! a ! b = lev_ref s1 s2 a b"
  shows "lev_cell s1 s2 dp i j = lev_ref s1 s2 i j"
proof (cases "i = 0 \<or> j = 0")
  case True
  then show ?thesis using assms(1,2) by (auto simp: lev_cell_def lev_ref_def)
next
  case False
  then obtain a b where ab: "i = Suc a" "j = Suc b" by (metis not0_implies_Suc)
  then have t: "rev (take i s1) = s1 ! a # rev (take a s1)" "rev (take j s2) = s2 ! b # rev (take b s2)"
    using assms(1,2) by (simp_all add: take_Suc_conv_app_nth)
  have d: "dp ! a ! b = lev_ref s1 s2 a b" "dp ! a ! j = lev_ref s1 s2 a j" "dp ! i ! b = lev_ref s1 s2 i b"
    using assms(3) ab by auto
  show ?thesis using t d unfolding lev_cell_def lev_ref_def ab by simp
qed

text \<open>The part of the table that is filled before cell \<open>(i, j)\<close>.\<close>

definition lev_filled :: "'a list \<Rightarrow> 'a list \<Rightarrow> nat \<Rightarrow> nat \<Rightarrow> nat list list \<Rightarrow> bool" where
  "lev_filled s1 s2 i j dp \<longleftrightarrow> length dp = Suc (length s1) \<and> (\<forall>r\<in>set dp. length r = Suc (length s2))
     \<and> (\<forall>a b. a \<le> length s1 \<and> b \<le> length s2 \<and> (a < i \<or> a = i \<and> b < j) \<longrightarrow> dp ! a ! b = lev_ref s1 s2 a b)"

lemma lev_filled_cell:
  assumes "lev_filled s1 s2 i j dp" "i \<le> length s1" "j \<le> length s2"
  shows "lev_filled s1 s2 i (Suc j) (dp[i := (dp ! i)[j := lev_cell s1 s2 dp i j]])"
proof -
  have c: "lev_cell s1 s2 dp i j = lev_ref s1 s2 i j"
    using assms by (intro lev_ref_cell) (auto simp: lev_filled_def le_less)
  have l: "length (dp ! i) = Suc (length s2)" "length dp = Suc (length s1)"
    using assms by (auto simp: lev_filled_def)
  have li: "i < length dp" "j < length (dp ! i)" using l assms(2,3) by simp_all
  show ?thesis
    using assms l unfolding lev_filled_def c
    by (auto simp: nth_list_update[OF li(1)] nth_list_update[OF li(2)] less_Suc_eq dest!: subsetD[OF set_update_subset_insert])
qed

lemma lev_filled_row:
  assumes "lev_filled s1 s2 i 0 dp" "i \<le> length s1"
  shows "lev_filled s1 s2 (Suc i) 0 (lev_row s1 s2 i dp)"
proof -
  have "k \<le> Suc (length s2) \<Longrightarrow>
    lev_filled s1 s2 i k (fold (\<lambda>j dp. dp[i := (dp ! i)[j := lev_cell s1 s2 dp i j]]) [0..<k] dp)" for k
    by (induction k) (use assms in \<open>auto intro: lev_filled_cell\<close>)
  from this[of "Suc (length s2)"] show ?thesis
    unfolding lev_row_def by (auto simp: lev_filled_def less_Suc_eq_le le_less simp del: upt_Suc)
qed

lemma lev_table: "get_levenshtein_distance s1 s2 = ed (rev s1) (rev s2)"
proof -
  let ?dp0 = "replicate (Suc (length s1)) (replicate (Suc (length s2)) (0::nat))"
  have "k \<le> Suc (length s1) \<Longrightarrow> lev_filled s1 s2 k 0 (fold (lev_row s1 s2) [0..<k] ?dp0)" for k
  proof (induction k)
    case 0
    then show ?case by (simp add: lev_filled_def del: replicate_Suc)
  next
    case (Suc k)
    then show ?case using lev_filled_row[of s1 s2 k] by simp
  qed
  from this[of "Suc (length s1)"] show ?thesis
    unfolding get_levenshtein_distance_def Let_def lev_filled_def lev_ref_def by auto
qed

subsection \<open>The least number of edits\<close>

text \<open>One insertion, deletion or substitution, anywhere.\<close>

inductive edit1 :: "'a list \<Rightarrow> 'a list \<Rightarrow> bool" where
  insertion: "edit1 (xs @ ys) (xs @ a # ys)"
| deletion: "edit1 (xs @ a # ys) (xs @ ys)"
| substitution: "edit1 (xs @ a # ys) (xs @ b # ys)"

lemma ed_sym: "ed xs ys = ed ys xs"
  by (induction xs ys rule: ed.induct) (auto simp: min.commute min.left_commute)

lemma ed_cons_both:
  "ed xs (y # ys) \<le> Suc (ed xs ys) \<and> ed xs ys \<le> Suc (ed xs (y # ys))"
proof (induction "length xs + length ys" arbitrary: xs y ys rule: less_induct)
  case less
  show ?case
  proof (cases xs)
    case [simp]: (Cons x xs')
    have 1: "ed xs' (z # zs) \<le> Suc (ed xs' zs)" "ed xs' zs \<le> Suc (ed xs' (z # zs))" if "length zs \<le> length ys" for z zs
      using less[of xs' zs z] that by simp_all
    have 2: "ed (x # xs') ys \<le> Suc (ed xs' ys)" "ed xs' ys \<le> Suc (ed (x # xs') ys)"
      using less[of ys xs' x] by (simp_all add: ed_sym[of _ ys])
    show ?thesis
      using 1[of ys y] 2 by (auto simp: min_le_iff_disj)
  qed simp
qed

lemmas ed_insert = conjunct1[OF ed_cons_both] and ed_delete = conjunct2[OF ed_cons_both]

lemma ed_cons_left: "ed (x # xs) ys \<le> Suc (ed xs ys)" "ed xs ys \<le> Suc (ed (x # xs) ys)"
  using ed_cons_both[of ys x xs] by (simp_all add: ed_sym[of _ ys])

lemma ed_substitute: "ed (a # ys) u \<le> Suc (ed (b # ys) u)"
proof (cases u)
  case [simp]: (Cons d u')
  show ?thesis
    using ed_cons_left[where x = b and xs = ys and ys = u'] ed_insert[where xs = ys and y = d and ys = u'] ed_delete[where xs = ys and y = d and ys = u']
    by (auto simp: min_le_iff_disj)
qed simp

lemma ed_prefix:
  assumes "\<And>u. ed s u \<le> Suc (ed t u)"
  shows "ed (c # s) u \<le> Suc (ed (c # t) u)"
proof (induction u)
  case Nil
  show ?case using assms[of "[]"] by simp
next
  case (Cons d u)
  show ?case using assms[of u] assms[of "d # u"] Cons by (auto simp: min_le_iff_disj)
qed

lemma ed_edit1: "edit1 s t \<Longrightarrow> ed s u \<le> Suc (ed t u)"
proof (induction arbitrary: u rule: edit1.induct)
  case (insertion xs ys a)
  show ?case by (induction xs arbitrary: u) (auto intro: ed_cons_left ed_prefix simp del: ed.simps(3))
next
  case (deletion xs a ys)
  show ?case by (induction xs arbitrary: u) (auto intro: ed_cons_left ed_prefix simp del: ed.simps(3))
next
  case (substitution xs a ys b)
  show ?case by (induction xs arbitrary: u) (auto intro: ed_substitute ed_prefix simp del: ed.simps(3))
qed

lemma ed_self [simp]: "ed xs xs = 0"
  by (induction xs) auto

lemma ed_lower: "(edit1 ^^ n) s t \<Longrightarrow> ed s t \<le> n"
proof (induction n arbitrary: s)
  case (Suc n)
  from Suc.prems obtain r where r: "edit1 s r" "(edit1 ^^ n) r t" by (rule relpowp_Suc_E2)
  from ed_edit1[OF r(1), of t] Suc.IH[OF r(2)] show ?case by simp
qed simp

lemma edit1_cons: "edit1 s t \<Longrightarrow> edit1 (c # s) (c # t)"
proof (induction rule: edit1.induct)
  case (insertion xs ys a)
  show ?case using edit1.insertion[of "c # xs" ys a] by simp
next
  case (deletion xs a ys)
  show ?case using edit1.deletion[of "c # xs" a ys] by simp
next
  case (substitution xs a ys b)
  show ?case using edit1.substitution[of "c # xs" a ys b] by simp
qed

lemma edits_cons: "(edit1 ^^ n) s t \<Longrightarrow> (edit1 ^^ n) (c # s) (c # t)"
  by (induction n arbitrary: t) (auto 4 3 intro: edit1_cons)

lemma edits_first: "edit1 s r \<Longrightarrow> (edit1 ^^ n) r t \<Longrightarrow> (edit1 ^^ Suc n) s t"
  by (rule relpowp_Suc_I2)

lemma edits_insert_all: "(edit1 ^^ length ys) [] ys"
proof (induction ys)
  case (Cons y ys)
  have "edit1 ys (y # ys)" using edit1.insertion[of "[]" ys y] by simp
  with Cons show ?case by auto
qed simp

lemma edits_delete_all: "(edit1 ^^ length xs) xs []"
proof (induction xs)
  case (Cons x xs)
  have "edit1 (x # xs) xs" using edit1.deletion[of "[]" x xs] by simp
  with Cons show ?case using edits_first[of "x # xs" xs "length xs" "[]"] by simp
qed simp

lemma ed_reached: "(edit1 ^^ ed s t) s t"
proof (induction s t rule: ed.induct)
  case (3 x xs y ys)
  have e: "edit1 (x # xs) xs" "edit1 (x # xs) (y # x # xs)" "edit1 (x # xs) (y # xs)"
    using edit1.deletion[of "[]" x xs] edit1.insertion[of "[]" "x # xs" y] edit1.substitution[of "[]" x xs y] by simp_all
  show ?case
  proof (cases "x = y")
    case True
    with 3 show ?thesis by (simp add: edits_cons)
  next
    case False
    have "min p (min q r) = p \<or> min p (min q r) = q \<or> min p (min q r) = r" for p q r :: nat by linarith
    from this[of "ed xs (y # ys)" "ed (x # xs) ys" "ed xs ys"]
    show ?thesis unfolding ed.simps(3) if_not_P[OF False] plus_1_eq_Suc
    proof (elim disjE; simp only:)
      show "(edit1 ^^ Suc (ed xs (y # ys))) (x # xs) (y # ys)" by (rule edits_first[OF e(1) 3(2)[OF False]])
      show "(edit1 ^^ Suc (ed (x # xs) ys)) (x # xs) (y # ys)" by (rule edits_first[OF e(2) edits_cons[OF 3(3)[OF False]]])
      show "(edit1 ^^ Suc (ed xs ys)) (x # xs) (y # ys)" by (rule edits_first[OF e(3) edits_cons[OF 3(4)[OF False]]])
    qed
  qed
qed (simp_all only: ed.simps ed_Nil2 edits_insert_all edits_delete_all)

lemma edit1_rev: "edit1 s t \<Longrightarrow> edit1 (rev s) (rev t)"
  by (induction rule: edit1.induct) (auto intro: edit1.intros simp: append.assoc)

lemma edits_rev: "(edit1 ^^ n) s t \<Longrightarrow> (edit1 ^^ n) (rev s) (rev t)"
  by (induction n arbitrary: t) (auto 4 3 intro: edit1_rev)

text \<open>
  C26: The table computes the least number of single character insertions, deletions and substitutions
  that turn one text into the other: that many suffice and no fewer do.
\<close>

theorem levenshtein_is_least:
  "(edit1 ^^ get_levenshtein_distance s t) s t
   \<and> \<not> (\<exists>n<get_levenshtein_distance s t. (edit1 ^^ n) s t)"
proof
  have "(edit1 ^^ get_levenshtein_distance s t) (rev (rev s)) (rev (rev t))"
    unfolding lev_table by (rule edits_rev[OF ed_reached])
  then show "(edit1 ^^ get_levenshtein_distance s t) s t" by simp
  show "\<not> (\<exists>n<get_levenshtein_distance s t. (edit1 ^^ n) s t)"
    unfolding lev_table using ed_lower[OF edits_rev] by (metis not_le)
qed

end
