(* ===== verification/ArgLiteral.thy ===== *)
theory ArgLiteral
  imports ArgNumbers
begin

text \<open>
  How the command line library tells a positional argument from an option: a text that starts with a
  prefix character is an option unless the rest is a decimal literal, so that \<open>-5\<close> can be a value. The
  recogniser is a state machine written with \<open>goto\<close>; it is proved to accept exactly
  the grammar its comment gives.
\<close>

subsection \<open>The state machine\<close>

text \<open>The next character; \<open>None\<close> is \<open>eof\<close>.\<close>

definition lookahead :: "string \<Rightarrow> char option" where
  "lookahead s = (case s of [] \<Rightarrow> None | c # _ \<Rightarrow> Some c)"

definition is_digit :: "char \<Rightarrow> bool" where
  "is_digit c \<longleftrightarrow> CHR ''0'' \<le> c \<and> c \<le> CHR ''9''"

definition digit_ahead :: "string \<Rightarrow> bool" where
  "digit_ahead s = (case lookahead s of None \<Rightarrow> False | Some c \<Rightarrow> is_digit c)"

definition consume_digits :: "string \<Rightarrow> string" where
  "consume_digits s = dropWhile is_digit s"

text \<open>One definition for each label, last first.\<close>

definition lit_post_e :: "string \<Rightarrow> bool" where
  "lit_post_e s =
     (let s = (case lookahead s of Some c \<Rightarrow> if c = CHR ''-'' \<or> c = CHR ''+'' then drop 1 s else s | None \<Rightarrow> s)
      in if digit_ahead s then consume_digits s = [] else False)"

definition lit_exponent_part_opt :: "string \<Rightarrow> bool" where
  "lit_exponent_part_opt s =
     (case lookahead s of
        None \<Rightarrow> True
      | Some c \<Rightarrow> if c = CHR ''e'' \<or> c = CHR ''E'' then lit_post_e (drop 1 s) else False)"

definition lit_post_decimal_point :: "string \<Rightarrow> bool" where
  "lit_post_decimal_point s =
     (if digit_ahead s then lit_exponent_part_opt (consume_digits s) else False)"

definition lit_integer_part_consumed :: "string \<Rightarrow> bool" where
  "lit_integer_part_consumed s =
     (case lookahead s of
        None \<Rightarrow> False
      | Some c \<Rightarrow>
          if c = CHR ''.'' then
            (let s = drop 1 s in if digit_ahead s then lit_post_decimal_point s else lit_exponent_part_opt s)
          else if c = CHR ''e'' \<or> c = CHR ''E'' then lit_post_e (drop 1 s)
          else False)"

definition is_decimal_literal :: "string \<Rightarrow> bool" where
  "is_decimal_literal s =
     (case lookahead s of
        None \<Rightarrow> False
      | Some c \<Rightarrow>
          if c = CHR ''0'' then
            (let s = drop 1 s in if s = [] then True else lit_integer_part_consumed (consume_digits s))
          else if is_digit c then
            (let s = consume_digits s in if s = [] then True else lit_integer_part_consumed s)
          else if c = CHR ''.'' then lit_post_decimal_point (drop 1 s)
          else False)"

definition is_positional :: "string \<Rightarrow> string \<Rightarrow> bool" where
  "is_positional name prefix_chars =
     (case lookahead name of
        None \<Rightarrow> True
      | Some first \<Rightarrow>
          if first \<in> set prefix_chars then
            (let name = drop 1 name in if name = [] then True else is_decimal_literal name)
          else True)"

definition is_optional :: "string \<Rightarrow> string \<Rightarrow> bool" where
  "is_optional name prefix_chars = (\<not> is_positional name prefix_chars)"

subsection \<open>The grammar of the comment\<close>

definition digit_sequence :: "string \<Rightarrow> bool" where
  "digit_sequence s \<longleftrightarrow> s \<noteq> [] \<and> list_all is_digit s"

definition post_e :: "string \<Rightarrow> bool" where
  "post_e s \<longleftrightarrow> (\<exists>sgn ds. s = sgn @ ds \<and> sgn \<in> {[], ''+'', ''-''} \<and> digit_sequence ds)"

definition exponent_part :: "string \<Rightarrow> bool" where
  "exponent_part s \<longleftrightarrow> (\<exists>e t. s = e # t \<and> e \<in> {CHR ''e'', CHR ''E''} \<and> post_e t)"

definition exponent_part_opt :: "string \<Rightarrow> bool" where
  "exponent_part_opt s \<longleftrightarrow> s = [] \<or> exponent_part s"

definition post_decimal_point :: "string \<Rightarrow> bool" where
  "post_decimal_point s \<longleftrightarrow> (\<exists>ds ex. s = ds @ ex \<and> digit_sequence ds \<and> exponent_part_opt ex)"

definition fractional_part :: "string \<Rightarrow> bool" where
  "fractional_part s \<longleftrightarrow> (\<exists>t. s = CHR ''.'' # t \<and> post_decimal_point t)"

definition decimal_literal :: "string \<Rightarrow> bool" where
  "decimal_literal s \<longleftrightarrow>
     s = ''0''
   \<or> (digit_sequence s \<and> hd s \<noteq> CHR ''0'')
   \<or> (\<exists>i f. s = i @ f \<and> digit_sequence i \<and> fractional_part f)
   \<or> fractional_part s
   \<or> (\<exists>i ex. s = i @ CHR ''.'' # ex \<and> digit_sequence i \<and> exponent_part_opt ex)
   \<or> (\<exists>i ex. s = i @ ex \<and> digit_sequence i \<and> exponent_part ex)"

subsection \<open>They agree\<close>

lemma lookahead_simps [simp]: "lookahead [] = None" "lookahead (c # s) = Some c"
  by (simp_all add: lookahead_def)

lemma digit_ahead_simps [simp]: "digit_ahead [] = False" "digit_ahead (c # s) = is_digit c"
  by (simp_all add: digit_ahead_def)

lemma not_digits [simp]: "\<not> is_digit CHR ''.''" "\<not> is_digit CHR ''e''" "\<not> is_digit CHR ''E''" "\<not> is_digit CHR ''+''"
  "\<not> is_digit CHR ''-''" "is_digit CHR ''0''"
  by (simp_all add: is_digit_def less_eq_char_def)

text \<open>A text splits in one way into a digit sequence and a rest that does not start with a digit.\<close>

lemma digits_split:
  assumes "\<not> digit_ahead rest"
  shows "s = ds @ rest \<and> digit_sequence ds \<longleftrightarrow> digit_ahead s \<and> ds = takeWhile is_digit s \<and> rest = consume_digits s"
proof
  assume s: "s = ds @ rest \<and> digit_sequence ds"
  then have a: "\<forall>c\<in>set ds. is_digit c" by (simp add: digit_sequence_def list_all_iff)
  have "takeWhile is_digit rest = []" "dropWhile is_digit rest = rest"
    using assms by (cases rest; simp)+
  with s a show "digit_ahead s \<and> ds = takeWhile is_digit s \<and> rest = consume_digits s"
    by (cases ds) (auto simp: digit_sequence_def consume_digits_def takeWhile_append dropWhile_append)
next
  assume s: "digit_ahead s \<and> ds = takeWhile is_digit s \<and> rest = consume_digits s"
  then show "s = ds @ rest \<and> digit_sequence ds"
    by (cases s) (auto simp: digit_sequence_def consume_digits_def list_all_iff dest: set_takeWhileD)
qed

lemma not_ahead_exponent: "exponent_part_opt s \<Longrightarrow> \<not> digit_ahead s" "exponent_part s \<Longrightarrow> \<not> digit_ahead s"
  by (auto simp: exponent_part_opt_def exponent_part_def)

lemma consume_digits_ahead: "\<not> digit_ahead (consume_digits s)"
  by (induction s) (auto simp: consume_digits_def)

lemma digit_sequence_iff: "digit_sequence s \<longleftrightarrow> digit_ahead s \<and> consume_digits s = []"
  using digits_split[of "[]" s s] by auto (metis append_Nil2 digits_split digit_ahead_simps(1))

lemma maximal_split:
  assumes "\<And>r. R r \<Longrightarrow> \<not> digit_ahead r"
  shows "(\<exists>ds r. s = ds @ r \<and> digit_sequence ds \<and> R r) \<longleftrightarrow> digit_ahead s \<and> R (consume_digits s)"
proof
  assume "\<exists>ds r. s = ds @ r \<and> digit_sequence ds \<and> R r"
  then obtain ds r where d: "s = ds @ r \<and> digit_sequence ds" "R r" by blast
  with digits_split[OF assms[OF d(2)], of s ds] show "digit_ahead s \<and> R (consume_digits s)" by simp
next
  assume a: "digit_ahead s \<and> R (consume_digits s)"
  have d: "s = takeWhile is_digit s @ consume_digits s" by (simp add: consume_digits_def)
  have "digit_sequence (takeWhile is_digit s)"
    using a by (cases s) (auto simp: digit_sequence_def list_all_iff dest: set_takeWhileD)
  then show "\<exists>ds r. s = ds @ r \<and> digit_sequence ds \<and> R r"
    using a d by blast
qed

lemma post_e_alt: "post_e s \<longleftrightarrow> digit_sequence s \<or> (\<exists>t. (s = CHR ''+'' # t \<or> s = CHR ''-'' # t) \<and> digit_sequence t)"
proof
  assume "post_e s"
  then obtain sgn ds where "s = sgn @ ds" "sgn \<in> {[], ''+'', ''-''}" "digit_sequence ds" unfolding post_e_def by blast
  then show "digit_sequence s \<or> (\<exists>t. (s = CHR ''+'' # t \<or> s = CHR ''-'' # t) \<and> digit_sequence t)" by auto
next
  have "post_e (sgn @ ds)" if "sgn \<in> {[], ''+'', ''-''}" "digit_sequence ds" for sgn ds
    using that unfolding post_e_def by blast
  from this[of "[]"] this[of "''+''"] this[of "''-''"]
  show "post_e s" if "digit_sequence s \<or> (\<exists>t. (s = CHR ''+'' # t \<or> s = CHR ''-'' # t) \<and> digit_sequence t)"
    using that by auto
qed

lemma lit_post_e_iff: "lit_post_e s \<longleftrightarrow> post_e s"
proof (cases s)
  case (Cons c t)
  show ?thesis
    unfolding lit_post_e_def post_e_alt digit_sequence_iff Cons
    by (auto simp: Let_def)
qed (simp add: lit_post_e_def post_e_alt digit_sequence_def)

lemma lit_exponent_part_opt_iff: "lit_exponent_part_opt s \<longleftrightarrow> exponent_part_opt s"
  by (cases s) (auto simp: lit_exponent_part_opt_def exponent_part_opt_def exponent_part_def lit_post_e_iff)

lemma lit_post_decimal_point_iff: "lit_post_decimal_point s \<longleftrightarrow> post_decimal_point s"
proof -
  have "post_decimal_point s \<longleftrightarrow> digit_ahead s \<and> exponent_part_opt (consume_digits s)"
    unfolding post_decimal_point_def by (rule maximal_split) (rule not_ahead_exponent(1))
  then show ?thesis by (simp add: lit_post_decimal_point_def lit_exponent_part_opt_iff)
qed

text \<open>What may follow an integer part.\<close>

definition after_integer :: "string \<Rightarrow> bool" where
  "after_integer s \<longleftrightarrow> fractional_part s \<or> (\<exists>ex. s = CHR ''.'' # ex \<and> exponent_part_opt ex) \<or> exponent_part s"

lemma lit_integer_part_consumed_iff: "lit_integer_part_consumed s \<longleftrightarrow> after_integer s"
proof (cases s)
  case (Cons c t)
  have "digit_ahead t \<Longrightarrow> \<not> exponent_part_opt t" "\<not> digit_ahead t \<Longrightarrow> \<not> post_decimal_point t"
    using not_ahead_exponent lit_post_decimal_point_iff[of t] by (auto simp: lit_post_decimal_point_def)
  then show ?thesis
    unfolding Cons lit_integer_part_consumed_def after_integer_def fractional_part_def exponent_part_def
    by (auto simp: Let_def lit_post_decimal_point_iff lit_exponent_part_opt_iff lit_post_e_iff)
qed (simp add: lit_integer_part_consumed_def after_integer_def fractional_part_def exponent_part_def)

lemma after_integer_ahead: "after_integer s \<Longrightarrow> \<not> digit_ahead s"
  by (auto simp: after_integer_def fractional_part_def exponent_part_def)

lemma decimal_literal_iff: "decimal_literal s \<longleftrightarrow> s = ''0'' \<or> (digit_sequence s \<and> hd s \<noteq> CHR ''0'')
   \<or> fractional_part s \<or> (digit_ahead s \<and> after_integer (consume_digits s))"
proof -
  have "(\<exists>i r. s = i @ r \<and> digit_sequence i \<and> after_integer r) \<longleftrightarrow> digit_ahead s \<and> after_integer (consume_digits s)"
    by (rule maximal_split) (rule after_integer_ahead)
  moreover have "(\<exists>i r. s = i @ r \<and> digit_sequence i \<and> after_integer r) \<longleftrightarrow>
      (\<exists>i f. s = i @ f \<and> digit_sequence i \<and> fractional_part f)
    \<or> (\<exists>i ex. s = i @ CHR ''.'' # ex \<and> digit_sequence i \<and> exponent_part_opt ex)
    \<or> (\<exists>i ex. s = i @ ex \<and> digit_sequence i \<and> exponent_part ex)"
    unfolding after_integer_def by blast
  ultimately show ?thesis unfolding decimal_literal_def by argo
qed

lemma is_decimal_literal_iff: "is_decimal_literal s \<longleftrightarrow> decimal_literal s"
proof (cases s)
  case (Cons c t)
  have cd: "is_digit c \<Longrightarrow> consume_digits (c # t) = consume_digits t" for c by (simp add: consume_digits_def)
  have na: "\<not> after_integer []" by (simp add: after_integer_def fractional_part_def exponent_part_def)
  show ?thesis
    unfolding decimal_literal_iff Cons is_decimal_literal_def
    using cd na
    by (auto simp: Let_def lit_integer_part_consumed_iff lit_post_decimal_point_iff fractional_part_def digit_sequence_iff
        consume_digits_def)
qed (simp add: is_decimal_literal_def decimal_literal_def digit_sequence_def fractional_part_def exponent_part_def)

text \<open>
  C27: The recogniser of decimal literals, a state machine with jumps, accepts exactly the texts the
  grammar in its comment derives, and an argument counts as positional exactly when it is empty, does
  not start with a prefix character, is that character alone, or is that character and a literal of the grammar.
\<close>

theorem decimal_literal_exact:
  "(is_decimal_literal s \<longleftrightarrow> decimal_literal s)
   \<and> is_positional s prefix =
     (if s \<noteq> [] \<and> hd s \<in> set prefix \<and> tl s \<noteq> [] then decimal_literal (tl s) else True)"
  by (cases s) (auto simp: is_decimal_literal_iff is_positional_def Let_def)

end
