(* ===== verification/ArgArgument.thy ===== *)
theory ArgArgument
  imports ArgText ArgLiteral "HOL-Library.Product_Lexorder"
begin

text \<open>
  One argument of a command line (class \<open>Argument\<close> of \<open>argparse.hpp\<close>): how it is declared, how it
  takes its values from the texts that follow, how it is checked, read and described.

  A member function that changes the object is a function on the record; one that throws gives
  \<open>Inl\<close>. Values of type \<open>std::any\<close> carry their type. Printing a \<open>double\<close> and \<open>strtod\<close> are
  parameters (\<open>float_io\<close>).
\<close>

subsection \<open>State\<close>

datatype any_val =
    No_any
  | Int_any int_type int
  | Bool_any bool
  | String_any string
  | Double_any u64

definition has_value :: "any_val \<Rightarrow> bool" where
  "has_value v \<longleftrightarrow> v \<noteq> No_any"

text \<open>
  \<open>m_action\<close>: a function that gives a value, or one that is run for its effect. The two actions the
  parser installs itself print a text and may end the process.
\<close>

datatype arg_action =
    Valued "string \<Rightarrow> any_val thrown"
  | Void "string \<Rightarrow> unit thrown"
  | Show_help
  | Show_version

definition SIZE_T_MAX :: nat where
  "SIZE_T_MAX = 2 ^ 64 - 1"

record nargs_range =
  r_min :: nat
  r_max :: nat

record argument =
  m_names :: "string list"
  m_used_name :: string
  m_help :: string
  m_metavar :: string
  m_default_value :: any_val
  m_default_value_repr :: string
  m_default_value_str :: "string option"
  m_implicit_value :: any_val
  m_choices :: "string list option"
  m_action :: arg_action
  m_values :: "any_val list"
  m_num_args_range :: nargs_range
  m_accepts_optional_like_value :: bool
  m_is_optional :: bool
  m_is_required :: bool
  m_is_repeatable :: bool
  m_is_used :: bool
  m_prefix_chars :: string

definition mk_nargs_range :: "nat \<Rightarrow> nat \<Rightarrow> nargs_range thrown" where
  "mk_nargs_range minimum maximum =
     (if minimum > maximum then Inl (Logic_error ''Range of number of arguments is invalid'')
      else Inr \<lparr>r_min = minimum, r_max = maximum\<rparr>)"

definition r_contains :: "nargs_range \<Rightarrow> nat \<Rightarrow> bool" where
  "r_contains r v \<longleftrightarrow> r_min r \<le> v \<and> v \<le> r_max r"

definition r_is_exact :: "nargs_range \<Rightarrow> bool" where
  "r_is_exact r \<longleftrightarrow> r_min r = r_max r"

definition r_is_right_bounded :: "nargs_range \<Rightarrow> bool" where
  "r_is_right_bounded r \<longleftrightarrow> r_max r < SIZE_T_MAX"

definition r_print :: "nargs_range \<Rightarrow> string" where
  "r_print r =
     (if r_min r = r_max r then
        (if r_min r \<noteq> 0 \<and> r_min r \<noteq> 1 then ''[nargs: '' @ to_string (r_min r) @ ''] '' else '''')
      else if r_max r = SIZE_T_MAX then ''[nargs: '' @ to_string (r_min r) @ '' or more] ''
      else ''[nargs='' @ to_string (r_min r) @ ''..'' @ to_string (r_max r) @ ''] '')"

subsection \<open>Declaring an argument\<close>

text \<open>The names are sorted by length, then alphabetically. The default action keeps the text.\<close>

definition new_argument :: "string \<Rightarrow> string list \<Rightarrow> argument" where
  "new_argument prefix_chars a =
     \<lparr>m_names = sort_key (\<lambda>s. (length s, s)) a, m_used_name = '''', m_help = '''', m_metavar = '''',
      m_default_value = No_any, m_default_value_repr = '''', m_default_value_str = None, m_implicit_value = No_any,
      m_choices = None, m_action = Valued (\<lambda>s. Inr (String_any s)), m_values = [],
      m_num_args_range = \<lparr>r_min = 1, r_max = 1\<rparr>, m_accepts_optional_like_value = False,
      m_is_optional = list_ex (\<lambda>s. is_optional s prefix_chars) a, m_is_required = False, m_is_repeatable = False,
      m_is_used = False, m_prefix_chars = prefix_chars\<rparr>"

definition set_help :: "string \<Rightarrow> argument \<Rightarrow> argument" where
  "set_help help_text a = a\<lparr>m_help := help_text\<rparr>"

definition set_metavar :: "string \<Rightarrow> argument \<Rightarrow> argument" where
  "set_metavar metavar a = a\<lparr>m_metavar := metavar\<rparr>"

text \<open>
  \<open>details::repr\<close> and \<open>std::to_string\<close> of a value: a character type is streamed as a character, and \<open>to_string\<close>
  of a \<open>bool\<close> is that of an integer.
\<close>

record float_io =
  io_strtod :: strtod
  io_stream :: "u64 \<Rightarrow> string"
  io_to_string :: "u64 \<Rightarrow> string"

fun any_repr :: "float_io \<Rightarrow> any_val \<Rightarrow> string" where
  "any_repr io No_any = ''<not representable>''"
| "any_repr io (Int_any T i) = (if T = Signed Char_rank \<or> T = Unsigned Char_rank then [char_of (nat (i mod 256))] else int_to_string i)"
| "any_repr io (Bool_any b) = repr_bool b"
| "any_repr io (String_any s) = repr_string s"
| "any_repr io (Double_any x) = io_stream io x"

fun any_to_string :: "float_io \<Rightarrow> any_val \<Rightarrow> string option" where
  "any_to_string io No_any = None"
| "any_to_string io (Int_any T i) = Some (int_to_string i)"
| "any_to_string io (Bool_any b) = Some (if b then ''1'' else ''0'')"
| "any_to_string io (String_any s) = Some s"
| "any_to_string io (Double_any x) = Some (io_to_string io x)"

definition default_value :: "float_io \<Rightarrow> any_val \<Rightarrow> argument \<Rightarrow> argument" where
  "default_value io v a =
     a\<lparr>m_num_args_range := \<lparr>r_min = 0, r_max = r_max (m_num_args_range a)\<rparr>,
       m_default_value_repr := any_repr io v,
       m_default_value_str := (case any_to_string io v of Some s \<Rightarrow> Some s | None \<Rightarrow> m_default_value_str a),
       m_default_value := v\<rparr>"

definition required :: "argument \<Rightarrow> argument" where
  "required a = a\<lparr>m_is_required := True\<rparr>"

definition implicit_value :: "any_val \<Rightarrow> argument \<Rightarrow> argument" where
  "implicit_value v a = a\<lparr>m_implicit_value := v, m_num_args_range := \<lparr>r_min = 0, r_max = 0\<rparr>\<rparr>"

definition flag :: "float_io \<Rightarrow> argument \<Rightarrow> argument" where
  "flag io a = implicit_value (Bool_any True) (default_value io (Bool_any False) a)"

definition set_action :: "arg_action \<Rightarrow> argument \<Rightarrow> argument" where
  "set_action f a = a\<lparr>m_action := f\<rparr>"

definition append_values :: "argument \<Rightarrow> argument" where
  "append_values a = a\<lparr>m_is_repeatable := True\<rparr>"

text \<open>\<open>scan<Shape, T>\<close>; \<open>None\<close> when the template does not compile.\<close>

datatype scan_type = Scan_int int_type | Scan_double

definition as_any :: "('a \<Rightarrow> any_val) \<Rightarrow> (string \<Rightarrow> 'a thrown) \<Rightarrow> arg_action" where
  "as_any C f = Valued (\<lambda>s. and_then (f s) (\<lambda>x. Inr (C x)))"

fun scan_action :: "float_io \<Rightarrow> char \<Rightarrow> scan_type \<Rightarrow> arg_action option" where
  "scan_action io shape (Scan_int T) =
     (if shape = CHR ''d'' then Some (as_any (Int_any T) (parse_number_base T 10))
      else if shape = CHR ''i'' then Some (as_any (Int_any T) (parse_number_any T))
      else if shape = CHR ''u'' \<and> \<not> is_signed T then Some (as_any (Int_any T) (parse_number_base T 10))
      else if shape = CHR ''b'' \<and> \<not> is_signed T then Some (as_any (Int_any T) (parse_number_2 T))
      else if shape = CHR ''o'' \<and> \<not> is_signed T then Some (as_any (Int_any T) (parse_number_base T 8))
      else if (shape = CHR ''x'' \<or> shape = CHR ''X'') \<and> \<not> is_signed T then Some (as_any (Int_any T) (parse_number_16 T))
      else None)"
| "scan_action io shape Scan_double =
     (if shape = CHR ''a'' \<or> shape = CHR ''A'' then Some (as_any Double_any (parse_float (io_strtod io) Hex_float))
      else if shape = CHR ''e'' \<or> shape = CHR ''E'' then Some (as_any Double_any (parse_float (io_strtod io) Scientific))
      else if shape = CHR ''f'' \<or> shape = CHR ''F'' then Some (as_any Double_any (parse_float (io_strtod io) Fixed))
      else if shape = CHR ''g'' \<or> shape = CHR ''G'' then Some (as_any Double_any (parse_float (io_strtod io) General))
      else None)"

definition scan :: "float_io \<Rightarrow> char \<Rightarrow> scan_type \<Rightarrow> argument \<Rightarrow> argument option" where
  "scan io shape T a = (case scan_action io shape T of None \<Rightarrow> None | Some f \<Rightarrow> Some (set_action f a))"

definition nargs :: "nat \<Rightarrow> nat \<Rightarrow> argument \<Rightarrow> argument thrown" where
  "nargs num_args_min num_args_max a =
     and_then (mk_nargs_range num_args_min num_args_max) (\<lambda>r. Inr (a\<lparr>m_num_args_range := r\<rparr>))"

definition nargs_exactly :: "nat \<Rightarrow> argument \<Rightarrow> argument" where
  "nargs_exactly num_args a = a\<lparr>m_num_args_range := \<lparr>r_min = num_args, r_max = num_args\<rparr>\<rparr>"

datatype nargs_pattern = Nargs_optional | Nargs_any | Nargs_at_least_one

fun nargs_of_pattern :: "nargs_pattern \<Rightarrow> argument \<Rightarrow> argument" where
  "nargs_of_pattern Nargs_optional a = a\<lparr>m_num_args_range := \<lparr>r_min = 0, r_max = 1\<rparr>\<rparr>"
| "nargs_of_pattern Nargs_any a = a\<lparr>m_num_args_range := \<lparr>r_min = 0, r_max = SIZE_T_MAX\<rparr>\<rparr>"
| "nargs_of_pattern Nargs_at_least_one a = a\<lparr>m_num_args_range := \<lparr>r_min = 1, r_max = SIZE_T_MAX\<rparr>\<rparr>"

definition remaining :: "argument \<Rightarrow> argument" where
  "remaining a = nargs_of_pattern Nargs_any (a\<lparr>m_accepts_optional_like_value := True\<rparr>)"

text \<open>A choice is a text or an integer, which is kept as text.\<close>

definition add_choice :: "string \<Rightarrow> argument \<Rightarrow> argument" where
  "add_choice choice a =
     a\<lparr>m_choices := Some ((case m_choices a of None \<Rightarrow> [] | Some cs \<Rightarrow> cs) @ [choice])\<rparr>"

definition choices :: "string list \<Rightarrow> argument \<Rightarrow> argument thrown" where
  "choices cs a =
     (let a = fold add_choice cs a
      in if m_choices a = None then Inl (Runtime_error ''Zero choices provided'') else Inr a)"

subsection \<open>Checking and taking values\<close>

definition choices_as_csv :: "string list \<Rightarrow> string" where
  "choices_as_csv cs = foldl (\<lambda>a b. a @ (if a = [] then '''' else '', '') @ b) '''' cs"

definition find_default_value_in_choices_or_throw :: "argument \<Rightarrow> unit thrown" where
  "find_default_value_in_choices_or_throw a =
     (case m_choices a of
        None \<Rightarrow> Inr ()
      | Some cs \<Rightarrow>
          if has_value (m_default_value a) \<and> m_default_value_str a \<notin> Some ` set cs then
            Inl (Runtime_error (''Invalid default value '' @ m_default_value_repr a @ '' - allowed options: {''
              @ choices_as_csv cs @ ''}''))
          else Inr ())"

definition find_value_in_choices_or_throw :: "string list \<Rightarrow> string \<Rightarrow> unit thrown" where
  "find_value_in_choices_or_throw cs it =
     (if it \<notin> set cs then
        Inl (Runtime_error (''Invalid argument '' @ repr_string it @ '' - allowed options: {'' @ choices_as_csv cs @ ''}''))
      else Inr ())"

text \<open>
  What a parse can stop with: an exception, or the end of the process in the action of \<open>--help\<close> or
  \<open>--version\<close>, with the text printed.
\<close>

datatype arg_stop = Throw cpp_exn | Exit_process string

type_synonym 'a parsed = "arg_stop + 'a"

definition throwing :: "'a thrown \<Rightarrow> 'a parsed" where
  "throwing r = (case r of Inl e \<Rightarrow> Inl (Throw e) | Inr x \<Rightarrow> Inr x)"

text \<open>What the parser's own actions print, and whether they end the process.\<close>

record shown =
  help_text :: string
  version_text :: string
  exits :: bool

fun for_each_thrown :: "('a \<Rightarrow> unit thrown) \<Rightarrow> 'a list \<Rightarrow> unit thrown" where
  "for_each_thrown f [] = Inr ()"
| "for_each_thrown f (x # xs) = and_then (f x) (\<lambda>_. for_each_thrown f xs)"

fun map_thrown :: "('a \<Rightarrow> 'b thrown) \<Rightarrow> 'a list \<Rightarrow> 'b list thrown" where
  "map_thrown f [] = Inr []"
| "map_thrown f (x # xs) = and_then (f x) (\<lambda>y. and_then (map_thrown f xs) (\<lambda>ys. Inr (y # ys)))"

definition print_and_exit :: "shown \<Rightarrow> string \<Rightarrow> string parsed" where
  "print_and_exit E text = (if exits E then Inl (Exit_process text) else Inr text)"

text \<open>The action run once with an empty text: for a flag. The result is what was printed.\<close>

definition run_action :: "shown \<Rightarrow> arg_action \<Rightarrow> string parsed" where
  "run_action E f =
     (case f of
        Valued g \<Rightarrow> and_then (throwing (g '''')) (\<lambda>_. Inr '''')
      | Void g \<Rightarrow> and_then (throwing (g '''')) (\<lambda>_. Inr '''')
      | Show_help \<Rightarrow> print_and_exit E (help_text E)
      | Show_version \<Rightarrow> print_and_exit E (version_text E @ [CHR 0x0A]))"

text \<open>
  \<open>ActionApply\<close>: the values of the texts are appended; an action run for its effect gives no values, only
  makes the list as long as the texts (with empty values) when there is no default.
\<close>

definition resize_values :: "nat \<Rightarrow> any_val list \<Rightarrow> any_val list" where
  "resize_values n vs = take n vs @ replicate (n - length vs) No_any"

definition void_values :: "string list \<Rightarrow> argument \<Rightarrow> argument" where
  "void_values xs a =
     (if \<not> has_value (m_default_value a) \<and> \<not> m_accepts_optional_like_value a
      then a\<lparr>m_values := resize_values (length xs) (m_values a)\<rparr> else a)"

fun print_times :: "shown \<Rightarrow> string \<Rightarrow> string list \<Rightarrow> string parsed" where
  "print_times E text [] = Inr ''''"
| "print_times E text (x # xs) =
     and_then (print_and_exit E text) (\<lambda>t. and_then (print_times E text xs) (\<lambda>u. Inr (t @ u)))"

definition apply_action :: "shown \<Rightarrow> string list \<Rightarrow> argument \<Rightarrow> (argument \<times> string) parsed" where
  "apply_action E xs a =
     (case m_action a of
        Valued g \<Rightarrow> and_then (throwing (map_thrown g xs)) (\<lambda>vs. Inr (a\<lparr>m_values := m_values a @ vs\<rparr>, ''''))
      | Void g \<Rightarrow> and_then (throwing (for_each_thrown g xs)) (\<lambda>_. Inr (void_values xs a, ''''))
      | Show_help \<Rightarrow> and_then (print_times E (help_text E) xs) (\<lambda>t. Inr (void_values xs a, t))
      | Show_version \<Rightarrow> and_then (print_times E (version_text E @ [CHR 0x0A]) xs) (\<lambda>t. Inr (void_values xs a, t)))"

text \<open>
  \<open>consume(start, end, used_name)\<close>: the texts from \<open>start\<close> to \<open>end\<close>; the result has those from the
  returned iterator on, and what was printed.
\<close>

definition consume :: "shown \<Rightarrow> string list \<Rightarrow> string \<Rightarrow> argument \<Rightarrow> (argument \<times> string list \<times> string) parsed" where
  "consume E args used_name a =
     (if \<not> m_is_repeatable a \<and> m_is_used a then Inl (Throw (Runtime_error ''Duplicate argument''))
      else
       let a = a\<lparr>m_is_used := True, m_used_name := used_name\<rparr>;
           num_args_max = r_max (m_num_args_range a);
           num_args_min = r_min (m_num_args_range a)
       in and_then (throwing (case m_choices a of None \<Rightarrow> Inr ()
                              | Some cs \<Rightarrow> for_each_thrown (find_value_in_choices_or_throw cs) args)) (\<lambda>_.
          if num_args_max = 0 then
            and_then (run_action E (m_action a)) (\<lambda>t. Inr (a\<lparr>m_values := m_values a @ [m_implicit_value a]\<rparr>, args, t))
          else if num_args_min \<le> length args then
            (let taken = (if num_args_max < length args then take num_args_max args else args);
                 taken = (if m_accepts_optional_like_value a then taken
                          else takeWhile (\<lambda>s. \<not> is_optional s (m_prefix_chars a)) taken)
             in if \<not> m_accepts_optional_like_value a \<and> length taken < num_args_min
                then Inl (Throw (Runtime_error ''Too few arguments''))
                else and_then (apply_action E taken a) (\<lambda>(a, t). Inr (a, drop (length taken) args, t)))
          else if has_value (m_default_value a) then Inr (a, args, '''')
          else Inl (Throw (Runtime_error (''Too few arguments for '' @ quoted used_name @ ''.'')))))"

subsection \<open>Checking the result\<close>

definition first_name :: "argument \<Rightarrow> string" where
  "first_name a = hd (m_names a)"

definition nargs_range_validation_error :: "argument \<Rightarrow> cpp_exn" where
  "nargs_range_validation_error a =
     Runtime_error ((if m_used_name a \<noteq> [] then m_used_name a @ '': '' else first_name a @ '': '')
       @ (let r = m_num_args_range a in
          if r_is_exact r then to_string (r_min r)
          else if r_is_right_bounded r then to_string (r_min r) @ '' to '' @ to_string (r_max r)
          else to_string (r_min r) @ '' or more'')
       @ '' argument(s) expected. '' @ to_string (length (m_values a)) @ '' provided.'')"

definition required_arg_not_used_error :: "argument \<Rightarrow> cpp_exn" where
  "required_arg_not_used_error a = Runtime_error (first_name a @ '': required.'')"

definition required_arg_no_value_provided_error :: "argument \<Rightarrow> cpp_exn" where
  "required_arg_no_value_provided_error a = Runtime_error (m_used_name a @ '': no value provided.'')"

definition validate :: "argument \<Rightarrow> unit thrown" where
  "validate a =
     and_then
       (if m_is_optional a then
          (if \<not> m_is_used a \<and> \<not> has_value (m_default_value a) \<and> m_is_required a then Inl (required_arg_not_used_error a)
           else if m_is_used a \<and> m_is_required a \<and> m_values a = [] then Inl (required_arg_no_value_provided_error a)
           else Inr ())
        else
          (if \<not> r_contains (m_num_args_range a) (length (m_values a)) \<and> \<not> has_value (m_default_value a)
           then Inl (nargs_range_validation_error a) else Inr ()))
       (\<lambda>_. find_default_value_in_choices_or_throw a)"

subsection \<open>Reading values\<close>

text \<open>The type of a \<open>get<T>\<close> that is not a container, and \<open>std::any_cast\<close> to it.\<close>

datatype value_type = T_int int_type | T_bool | T_string | T_double

fun any_cast :: "value_type \<Rightarrow> any_val \<Rightarrow> any_val thrown" where
  "any_cast (T_int T) (Int_any U i) = (if T = U then Inr (Int_any U i) else Inl Bad_any_cast)"
| "any_cast T_bool (Bool_any b) = Inr (Bool_any b)"
| "any_cast T_string (String_any s) = Inr (String_any s)"
| "any_cast T_double (Double_any x) = Inr (Double_any x)"
| "any_cast _ _ = Inl Bad_any_cast"

definition no_value_error :: "argument \<Rightarrow> cpp_exn" where
  "no_value_error a = Logic_error (''No value provided for '' @ quoted (last (m_names a)) @ ''.'')"

definition arg_get :: "value_type \<Rightarrow> argument \<Rightarrow> any_val thrown" where
  "arg_get T a =
     (if m_values a \<noteq> [] then any_cast T (hd (m_values a))
      else if has_value (m_default_value a) then any_cast T (m_default_value a)
      else Inl (no_value_error a))"

text \<open>
  \<open>get<T>\<close> for a container of values of the given type; a default of container type is not
  modelled, so that a default is of another type.
\<close>

definition arg_get_container :: "value_type \<Rightarrow> argument \<Rightarrow> any_val list thrown" where
  "arg_get_container T a =
     (if m_values a \<noteq> [] then map_thrown (any_cast T) (m_values a)
      else if has_value (m_default_value a) then Inl Bad_any_cast
      else if \<not> m_accepts_optional_like_value a then map_thrown (any_cast T) (m_values a)
      else Inl (no_value_error a))"

definition arg_present :: "value_type \<Rightarrow> argument \<Rightarrow> any_val option thrown" where
  "arg_present T a =
     (if has_value (m_default_value a) then Inl (Logic_error ''Argument with default value always presents'')
      else if m_values a = [] then Inr None
      else and_then (any_cast T (hd (m_values a))) (\<lambda>v. Inr (Some v)))"

definition arg_equals :: "value_type \<Rightarrow> argument \<Rightarrow> any_val \<Rightarrow> bool thrown" where
  "arg_equals T a rhs = and_then (arg_get T a) (\<lambda>v. Inr (v = rhs))"

subsection \<open>Describing an argument\<close>

definition get_names_csv :: "char \<Rightarrow> argument \<Rightarrow> string" where
  "get_names_csv separator a =
     foldl (\<lambda>result name. if result = [] then name else result @ separator # name) '''' (m_names a)"

definition metavar_or_VAR :: "argument \<Rightarrow> string" where
  "metavar_or_VAR a = (if m_metavar a \<noteq> [] then m_metavar a else ''VAR'')"

definition usage_values :: "argument \<Rightarrow> string" where
  "usage_values a =
     (if 0 < r_max (m_num_args_range a)
      then '' '' @ metavar_or_VAR a @ (if 1 < r_max (m_num_args_range a) then ''...'' else '''') else '''')"

definition get_usage_full :: "argument \<Rightarrow> string" where
  "get_usage_full a = get_names_csv CHR ''/'' a @ usage_values a"

definition longest_name :: "argument \<Rightarrow> string" where
  "longest_name a = foldl (\<lambda>longest s. if length longest < length s then s else longest) (first_name a) (m_names a)"

definition get_inline_usage :: "argument \<Rightarrow> string" where
  "get_inline_usage a =
     (if \<not> m_is_required a then ''['' else '''') @ longest_name a @ usage_values a
     @ (if \<not> m_is_required a then '']'' else '''')"

definition one_arg :: "argument \<Rightarrow> bool" where
  "one_arg a \<longleftrightarrow> m_num_args_range a = \<lparr>r_min = 1, r_max = 1\<rparr>"

definition get_arguments_length :: "argument \<Rightarrow> nat" where
  "get_arguments_length a =
     (let names_size = foldl (\<lambda>sum s. sum + length s) 0 (m_names a)
      in if is_positional (first_name a) (m_prefix_chars a) then
           (if m_metavar a \<noteq> [] then 2 + length (m_metavar a) else 2 + names_size + (length (m_names a) - 1))
         else names_size + 2 * (length (m_names a) - 1)
           + (if m_metavar a \<noteq> [] \<and> one_arg a then length (m_metavar a) + 1 else 0) + 2)"

text \<open>Left adjusted in a field of the stream's width.\<close>

definition pad_to :: "nat \<Rightarrow> string \<Rightarrow> string" where
  "pad_to w s = s @ replicate (w - length s) CHR '' ''"

text \<open>
  The loop over the lines of the help text, from \<open>prev\<close> on: the first line follows the names, the
  others are indented under it.
\<close>

abbreviation newline :: char where
  "newline \<equiv> CHR 0x0A"

function help_lines :: "nat \<Rightarrow> string \<Rightarrow> bool \<Rightarrow> string \<Rightarrow> string" where
  "help_lines width name_padding first_line help =
     (if newline \<in> set help then
        (let line = takeWhile (\<lambda>c. c \<noteq> newline) help @ [newline]
         in (if first_line then ''  '' @ line else pad_to width name_padding @ ''  '' @ line)
            @ help_lines width name_padding False (drop (length line) help))
      else if first_line then ''  '' @ help
      else if help \<noteq> [] then pad_to width name_padding @ ''  '' @ help
      else '''')"
  by pat_completeness auto
termination
  by (relation "measure (\<lambda>(_, _, _, help). length help)") (auto intro!: diff_less dest: length_pos_if_in_set)

definition argument_line :: "nat \<Rightarrow> argument \<Rightarrow> string" where
  "argument_line width a =
     (let name = ''  '' @
            (if is_positional (first_name a) (m_prefix_chars a) then
               (if m_metavar a \<noteq> [] then m_metavar a else join_strings (m_names a) '' '')
             else join_strings (m_names a) '', ''
               @ (if m_metavar a \<noteq> [] \<and> one_arg a then '' '' @ m_metavar a else ''''))
      in pad_to width name
         @ help_lines width (replicate (length name) CHR '' '') True (m_help a)
         @ (if m_help a \<noteq> [] then '' '' else '''')
         @ r_print (m_num_args_range a)
         @ (if has_value (m_default_value a) \<and> m_num_args_range a \<noteq> \<lparr>r_min = 0, r_max = 0\<rparr>
            then ''[default: '' @ m_default_value_repr a @ '']''
            else if m_is_required a then ''[required]'' else '''')
         @ [newline])"

end
