(* ===== verification/ArgParser.thy ===== *)
theory ArgParser
  imports ArgArgument
begin

text \<open>
  The parser of a command line (class \<open>ArgumentParser\<close> of \<open>argparse.hpp\<close>): its arguments, the table of
  their names, its sub-parsers, and the parse itself.

  The iterators of the code's tables are positions in the two lists of arguments, which only grow.
  The maps, ordered by key, are association lists in that order. A sub-parser is held by
  reference in the code; here it is part of the parser it was added to.
\<close>

subsection \<open>Ordered maps\<close>

fun insert_or_assign :: "string \<Rightarrow> 'v \<Rightarrow> (string \<times> 'v) list \<Rightarrow> (string \<times> 'v) list" where
  "insert_or_assign k v [] = [(k, v)]"
| "insert_or_assign k v ((k', v') # m) =
     (if k = k' then (k, v) # m
      else if k < k' then (k, v) # (k', v') # m
      else (k', v') # insert_or_assign k v m)"

lemma map_of_insert_or_assign [simp]:
  "map_of (insert_or_assign k v m) k' = (if k' = k then Some v else map_of m k')"
  by (induction k v m rule: insert_or_assign.induct) auto

lemma keys_insert_or_assign: "fst ` set (insert_or_assign k v m) = insert k (fst ` set m)"
  by (induction k v m rule: insert_or_assign.induct) auto

lemma sorted_insert_or_assign:
  "sorted_wrt (<) (map fst m) \<Longrightarrow> sorted_wrt (<) (map fst (insert_or_assign k v m))"
proof (induction k v m rule: insert_or_assign.induct)
  case (2 k v k' v' m)
  have above: "k' < fst x" if "x \<in> set (insert_or_assign k v m)" "k' < k" "\<forall>y\<in>set m. k' < fst y" for x
  proof -
    have "fst x \<in> insert k (fst ` set m)" using that(1) keys_insert_or_assign[of k v m] by blast
    with that(2,3) show ?thesis by auto
  qed
  with 2 show ?case by (auto simp: not_less_iff_gr_or_eq)
qed simp

subsection \<open>State\<close>

datatype arg_ref = Positional nat | Optional nat

record mutex_group =
  g_required :: bool
  g_elements :: "arg_ref list"

record parser_own =
  m_program_name :: string
  m_version :: string
  m_description :: string
  m_epilog :: string
  m_exit_on_default_arguments :: bool
  p_prefix_chars :: string
  m_assign_chars :: string
  m_is_parsed :: bool
  m_positional_arguments :: "argument list"
  m_optional_arguments :: "argument list"
  m_argument_map :: "(string \<times> arg_ref) list"
  m_parser_path :: string
  m_subparser_used :: "(string \<times> bool) list"
  m_mutually_exclusive_groups :: "mutex_group list"
  m_suppress :: bool

datatype arg_parser = Parser (own: parser_own) (subparser_map: "(string \<times> arg_parser) list")

text \<open>The argument an iterator stands for.\<close>

fun arg_at :: "parser_own \<Rightarrow> arg_ref \<Rightarrow> argument" where
  "arg_at p (Positional i) = m_positional_arguments p ! i"
| "arg_at p (Optional i) = m_optional_arguments p ! i"

fun set_arg :: "arg_ref \<Rightarrow> argument \<Rightarrow> parser_own \<Rightarrow> parser_own" where
  "set_arg (Positional i) a p = p\<lparr>m_positional_arguments := (m_positional_arguments p)[i := a]\<rparr>"
| "set_arg (Optional i) a p = p\<lparr>m_optional_arguments := (m_optional_arguments p)[i := a]\<rparr>"

definition change_arg :: "arg_ref \<Rightarrow> (argument \<Rightarrow> argument) \<Rightarrow> parser_own \<Rightarrow> parser_own" where
  "change_arg r f p = set_arg r (f (arg_at p r)) p"

subsection \<open>Declaring arguments\<close>

definition index_argument :: "arg_ref \<Rightarrow> parser_own \<Rightarrow> parser_own" where
  "index_argument r p =
     p\<lparr>m_argument_map := fold (\<lambda>name m. insert_or_assign name r m) (m_names (arg_at p r)) (m_argument_map p)\<rparr>"

definition add_argument :: "string list \<Rightarrow> parser_own \<Rightarrow> arg_ref \<times> parser_own" where
  "add_argument f_args p =
     (let a = new_argument (p_prefix_chars p) f_args;
          (r, p) = (if m_is_optional a
            then (Optional (length (m_optional_arguments p)), p\<lparr>m_optional_arguments := m_optional_arguments p @ [a]\<rparr>)
            else (Positional (length (m_positional_arguments p)), p\<lparr>m_positional_arguments := m_positional_arguments p @ [a]\<rparr>))
      in (r, index_argument r p))"

datatype default_arguments = Args_none | Args_help | Args_version | Args_all

definition adds_help :: "default_arguments \<Rightarrow> bool" where
  "adds_help d \<longleftrightarrow> d = Args_help \<or> d = Args_all"

definition adds_version :: "default_arguments \<Rightarrow> bool" where
  "adds_version d \<longleftrightarrow> d = Args_version \<or> d = Args_all"

text \<open>The two arguments of the constructor.\<close>

definition add_default_argument :: "float_io \<Rightarrow> string list \<Rightarrow> arg_action \<Rightarrow> string \<Rightarrow> parser_own \<Rightarrow> parser_own" where
  "add_default_argument io names act help p =
     (let (r, p) = add_argument names p
      in change_arg r (\<lambda>a. nargs_exactly 0 (implicit_value (Bool_any True)
           (set_help help (default_value io (Bool_any False) (set_action act a))))) p)"

definition new_parser :: "float_io \<Rightarrow> string \<Rightarrow> string \<Rightarrow> default_arguments \<Rightarrow> bool \<Rightarrow> arg_parser" where
  "new_parser io program_name version add_args exit_on_default_arguments =
     (let p = \<lparr>m_program_name = program_name, m_version = version, m_description = '''', m_epilog = '''',
            m_exit_on_default_arguments = exit_on_default_arguments, p_prefix_chars = ''-'', m_assign_chars = ''='',
            m_is_parsed = False, m_positional_arguments = [], m_optional_arguments = [], m_argument_map = [],
            m_parser_path = program_name, m_subparser_used = [], m_mutually_exclusive_groups = [], m_suppress = False\<rparr>;
          p = (if adds_help add_args
               then add_default_argument io [''-h'', ''--help''] Show_help ''shows help message and exits'' p else p);
          p = (if adds_version add_args
               then add_default_argument io [''-v'', ''--version''] Show_version ''prints version information and exits'' p
               else p)
      in Parser p [])"

definition add_mutually_exclusive_group :: "bool \<Rightarrow> parser_own \<Rightarrow> nat \<times> parser_own" where
  "add_mutually_exclusive_group req p =
     (length (m_mutually_exclusive_groups p),
      p\<lparr>m_mutually_exclusive_groups := m_mutually_exclusive_groups p @ [\<lparr>g_required = req, g_elements = []\<rparr>]\<rparr>)"

definition group_add_argument :: "nat \<Rightarrow> string list \<Rightarrow> parser_own \<Rightarrow> arg_ref \<times> parser_own" where
  "group_add_argument g f_args p =
     (let (r, p) = add_argument f_args p;
          gs = m_mutually_exclusive_groups p
      in (r, p\<lparr>m_mutually_exclusive_groups := gs[g := (gs ! g)\<lparr>g_elements := g_elements (gs ! g) @ [r]\<rparr>]\<rparr>))"

definition add_parent :: "parser_own \<Rightarrow> parser_own \<Rightarrow> parser_own" where
  "add_parent parent p =
     fold (\<lambda>a p. index_argument (Optional (length (m_optional_arguments p)))
         (p\<lparr>m_optional_arguments := m_optional_arguments p @ [a]\<rparr>)) (m_optional_arguments parent)
       (fold (\<lambda>a p. index_argument (Positional (length (m_positional_arguments p)))
           (p\<lparr>m_positional_arguments := m_positional_arguments p @ [a]\<rparr>)) (m_positional_arguments parent) p)"

definition add_parents :: "parser_own list \<Rightarrow> parser_own \<Rightarrow> parser_own" where
  "add_parents parents p = fold add_parent parents p"

fun add_subparser :: "arg_parser \<Rightarrow> arg_parser \<Rightarrow> arg_parser" where
  "add_subparser (Parser q qs) (Parser p ps) =
     (let name = m_program_name q;
          q = q\<lparr>m_parser_path := m_program_name p @ '' '' @ name\<rparr>
      in Parser (p\<lparr>m_subparser_used := insert_or_assign name False (m_subparser_used p)\<rparr>)
           (insert_or_assign name (Parser q qs) ps))"

definition add_description :: "string \<Rightarrow> parser_own \<Rightarrow> parser_own" where
  "add_description description p = p\<lparr>m_description := description\<rparr>"

definition add_epilog :: "string \<Rightarrow> parser_own \<Rightarrow> parser_own" where
  "add_epilog epilog p = p\<lparr>m_epilog := epilog\<rparr>"

definition set_prefix_chars :: "string \<Rightarrow> parser_own \<Rightarrow> parser_own" where
  "set_prefix_chars prefix_chars p = p\<lparr>p_prefix_chars := prefix_chars\<rparr>"

definition set_assign_chars :: "string \<Rightarrow> parser_own \<Rightarrow> parser_own" where
  "set_assign_chars assign_chars p = p\<lparr>m_assign_chars := assign_chars\<rparr>"

definition set_suppress :: "bool \<Rightarrow> parser_own \<Rightarrow> parser_own" where
  "set_suppress suppress p = p\<lparr>m_suppress := suppress\<rparr>"

subsection \<open>Describing the parser\<close>

text \<open>The part of the help that gives the usage; hidden sub-parsers are left out.\<close>

definition visible_commands :: "(string \<times> arg_parser) list \<Rightarrow> string list" where
  "visible_commands subs = map fst (filter (\<lambda>(_, q). \<not> m_suppress (own q)) subs)"

fun usage :: "arg_parser \<Rightarrow> string" where
  "usage (Parser p subs) =
     ''Usage: '' @ m_program_name p
     @ concat (map (\<lambda>a. '' '' @ get_inline_usage a) (m_optional_arguments p))
     @ concat (map (\<lambda>a. '' '' @ (if m_metavar a \<noteq> [] then m_metavar a else first_name a)) (m_positional_arguments p))
     @ (if subs \<noteq> [] then '' {'' @ join_strings (visible_commands subs) '','' @ ''}'' else '''')"

fun get_length_of_longest_argument :: "arg_parser \<Rightarrow> nat" where
  "get_length_of_longest_argument (Parser p subs) =
     (if m_argument_map p = [] then 0
      else fold (\<lambda>(command, _) n. max n (length command)) subs
        (fold (\<lambda>(_, r) n. max n (get_arguments_length (arg_at p r))) (m_argument_map p) 0))"

fun parser_help :: "arg_parser \<Rightarrow> string" where
  "parser_help (Parser p subs) =
     (let longest = get_length_of_longest_argument (Parser p subs);
          positionals = m_positional_arguments p;
          optionals = m_optional_arguments p
      in usage (Parser p subs) @ [newline, newline]
         @ (if m_description p \<noteq> [] then m_description p @ [newline, newline] else '''')
         @ (if positionals \<noteq> [] then ''Positional arguments:'' @ [newline] else '''')
         @ concat (map (argument_line longest) positionals)
         @ (if optionals \<noteq> [] then (if positionals = [] then '''' else [newline]) @ ''Optional arguments:'' @ [newline] else '''')
         @ concat (map (argument_line longest) optionals)
         @ (if visible_commands subs \<noteq> [] then
              (if positionals = [] then (if optionals = [] then '''' else [newline]) else [newline]) @ ''Subcommands:'' @ [newline]
              @ concat (map (\<lambda>(command, q).
                  if m_suppress (own q) then ''''
                  else pad_to 2 '' '' @ pad_to (longest - 2) command @ '' '' @ m_description (own q) @ [newline]) subs)
            else '''')
         @ (if m_epilog p \<noteq> [] then [newline] @ m_epilog p @ [newline, newline] else ''''))"

definition shown_by :: "parser_own \<Rightarrow> (string \<times> arg_parser) list \<Rightarrow> shown" where
  "shown_by p subs = \<lparr>help_text = parser_help (Parser p subs), version_text = m_version p,
     exits = m_exit_on_default_arguments p\<rparr>"

subsection \<open>Looking arguments up\<close>

definition is_valid_prefix_char :: "parser_own \<Rightarrow> char \<Rightarrow> bool" where
  "is_valid_prefix_char p c \<longleftrightarrow> c \<in> set (p_prefix_chars p)"

definition get_any_valid_prefix_char :: "parser_own \<Rightarrow> char" where
  "get_any_valid_prefix_char p = hd (p_prefix_chars p)"

text \<open>
  \<open>operator[]\<close>: by the name itself, else, when it does not start with a prefix character, with one or
  two prefix characters before it. The name is not empty.
\<close>

definition find_argument :: "parser_own \<Rightarrow> string \<Rightarrow> arg_ref thrown" where
  "find_argument p arg_name =
     (case map_of (m_argument_map p) arg_name of
        Some r \<Rightarrow> Inr r
      | None \<Rightarrow>
          let missing = Inl (Logic_error (''No such argument: '' @ arg_name));
              prefix = get_any_valid_prefix_char p
          in if \<not> is_valid_prefix_char p (hd arg_name) then
               (case map_of (m_argument_map p) (prefix # arg_name) of
                  Some r \<Rightarrow> Inr r
                | None \<Rightarrow> (case map_of (m_argument_map p) (prefix # prefix # arg_name) of
                    Some r \<Rightarrow> Inr r
                  | None \<Rightarrow> missing))
             else missing)"

definition parser_get :: "value_type \<Rightarrow> string \<Rightarrow> parser_own \<Rightarrow> any_val thrown" where
  "parser_get T arg_name p =
     (if \<not> m_is_parsed p then Inl (Logic_error ''Nothing parsed, no arguments are available.'')
      else and_then (find_argument p arg_name) (\<lambda>r. arg_get T (arg_at p r)))"

definition parser_present :: "value_type \<Rightarrow> string \<Rightarrow> parser_own \<Rightarrow> any_val option thrown" where
  "parser_present T arg_name p = and_then (find_argument p arg_name) (\<lambda>r. arg_present T (arg_at p r))"

definition is_used :: "string \<Rightarrow> parser_own \<Rightarrow> bool thrown" where
  "is_used arg_name p = and_then (find_argument p arg_name) (\<lambda>r. Inr (m_is_used (arg_at p r)))"

definition is_subcommand_used :: "string \<Rightarrow> parser_own \<Rightarrow> bool thrown" where
  "is_subcommand_used name p =
     (case map_of (m_subparser_used p) name of Some b \<Rightarrow> Inr b | None \<Rightarrow> Inl (Out_of_range ''map::at''))"

definition subparser_at :: "string \<Rightarrow> arg_parser \<Rightarrow> arg_parser thrown" where
  "subparser_at name P =
     (case map_of (subparser_map P) name of
        Some q \<Rightarrow> Inr q
      | None \<Rightarrow> Inl (Logic_error (''No such subparser: '' @ name)))"

definition parser_bool :: "parser_own \<Rightarrow> bool" where
  "parser_bool p \<longleftrightarrow> m_is_parsed p \<and>
     (list_ex (\<lambda>(_, r). m_is_used (arg_at p r)) (m_argument_map p) \<or> list_ex snd (m_subparser_used p))"

subsection \<open>Splitting assignments\<close>

definition argument_starts_with_prefix_chars :: "parser_own \<Rightarrow> string \<Rightarrow> bool" where
  "argument_starts_with_prefix_chars p a =
     (if a \<noteq> [] then
        (if is_valid_prefix_char p CHR ''/'' then is_valid_prefix_char p (hd a)
         else if 1 < length a then is_valid_prefix_char p (a ! 0) \<and> is_valid_prefix_char p (a ! 1)
         else False)
      else False)"

definition preprocess_argument :: "parser_own \<Rightarrow> string \<Rightarrow> string list" where
  "preprocess_argument p arg =
     (let known = (\<lambda>name. map_of (m_argument_map p) name \<noteq> None);
          opt_name = takeWhile (\<lambda>c. c \<notin> set (m_assign_chars p)) arg
      in if \<not> known arg \<and> argument_starts_with_prefix_chars p arg \<and> length opt_name < length arg \<and> known opt_name
         then [opt_name, drop (length opt_name + 1) arg]
         else [arg])"

definition preprocess_arguments :: "parser_own \<Rightarrow> string list \<Rightarrow> string list" where
  "preprocess_arguments p raw_arguments = concat (map (preprocess_argument p) raw_arguments)"

subsection \<open>The parse\<close>

text \<open>How the loop over the texts ends, apart from an exception: at the end, or in a sub-parser.\<close>

datatype loop_end = Finished | In_subparser string "string list"

text \<open>What a process that ends has printed includes what was printed before.\<close>

fun printed_before :: "string \<Rightarrow> 'a parsed \<Rightarrow> 'a parsed" where
  "printed_before out (Inl (Exit_process t)) = Inl (Exit_process (out @ t))"
| "printed_before out r = r"

definition consume_at :: "(string \<times> arg_parser) list \<Rightarrow> string list \<Rightarrow> string \<Rightarrow> arg_ref \<Rightarrow> parser_own \<Rightarrow> string
    \<Rightarrow> (parser_own \<times> string list \<times> string) parsed" where
  "consume_at subs args used_name r p out =
     and_then (printed_before out (consume (shown_by p subs) args used_name (arg_at p r)))
       (\<lambda>(a, rest, t). Inr (set_arg r a p, rest, out @ t))"

definition unknown_argument :: "string \<Rightarrow> arg_stop" where
  "unknown_argument current = Throw (Runtime_error (''Unknown argument: '' @ current))"

text \<open>The characters of a compound argument (\<open>-xyz\<close>), each an option of its own.\<close>

fun compound_loop :: "(string \<times> arg_parser) list \<Rightarrow> string \<Rightarrow> string \<Rightarrow> string list \<Rightarrow> parser_own \<Rightarrow> string
    \<Rightarrow> (parser_own \<times> string list \<times> string) parsed" where
  "compound_loop subs current [] args p out = Inr (p, args, out)"
| "compound_loop subs current (c # cs) args p out =
     (let hypothetical_arg = [CHR ''-'', c] in
      case map_of (m_argument_map p) hypothetical_arg of
        None \<Rightarrow> Inl (unknown_argument current)
      | Some r \<Rightarrow> and_then (consume_at subs args hypothetical_arg r p out)
          (\<lambda>(p, args, out). compound_loop subs current cs args p out))"

definition is_compound :: "parser_own \<Rightarrow> string \<Rightarrow> bool" where
  "is_compound p arg \<longleftrightarrow> 1 < length arg \<and> is_valid_prefix_char p (arg ! 0) \<and> \<not> is_valid_prefix_char p (arg ! 1)"

text \<open>The error for a positional argument too many.\<close>

definition no_positional_left :: "(string \<times> arg_parser) list \<Rightarrow> parser_own \<Rightarrow> string \<Rightarrow> arg_stop" where
  "no_positional_left subs p current =
     Throw (Runtime_error
       (if m_positional_arguments p = [] then
          (if subs \<noteq> [] then ''Failed to parse '' @ quoted current @ '', did you mean ''
             @ quoted (get_most_similar_string (map fst subs) current)
           else case find (\<lambda>opt. \<not> has_value (m_implicit_value opt) \<and> \<not> m_is_used opt) (m_optional_arguments p) of
               Some opt \<Rightarrow> ''Zero positional arguments expected, did you mean '' @ get_usage_full opt
             | None \<Rightarrow> ''Zero positional arguments expected'')
        else ''Maximum number of positional arguments exceeded, failed to parse '' @ quoted current))"

lemma consume_rest: "consume E args u a = Inr (a', rest, t) \<Longrightarrow> \<exists>n. rest = drop n args"
  by (auto simp: consume_def Let_def and_then_Inr split: if_splits prod.splits intro: exI[of _ 0])

lemma printed_before_Inr [simp]: "printed_before out r = Inr x \<longleftrightarrow> r = Inr x"
  by (cases "(out, r)" rule: printed_before.cases) auto

lemma length_set_arg [simp]:
  "length (m_positional_arguments (set_arg r a p)) = length (m_positional_arguments p)"
  "length (m_optional_arguments (set_arg r a p)) = length (m_optional_arguments p)"
  by (cases r; simp)+

lemma consume_at_rest:
  assumes "consume_at subs args u r p out = Inr (p', rest, out')"
  shows "\<exists>n. rest = drop n args" "length (m_positional_arguments p') = length (m_positional_arguments p)"
  using assms consume_rest by (fastforce simp: consume_at_def and_then_Inr)+

lemma consume_at_len:
  assumes "consume_at subs args u r p out = Inr (p', rest, out')"
  shows "length rest \<le> length args \<and> length (m_positional_arguments p') = length (m_positional_arguments p)"
  using consume_at_rest[OF assms] by auto

lemma compound_loop_rest:
  assumes "compound_loop subs current cs args p out = Inr (p', rest, out')"
  shows "length rest \<le> length args \<and> length (m_positional_arguments p') = length (m_positional_arguments p)"
  using assms
proof (induction cs arbitrary: args p out)
  case (Cons c cs)
  then obtain r p1 args1 out1 where r: "map_of (m_argument_map p) [CHR ''-'', c] = Some r"
    "consume_at subs args [CHR ''-'', c] r p out = Inr (p1, args1, out1)"
    "compound_loop subs current cs args1 p1 out1 = Inr (p', rest, out')"
    by (auto simp: Let_def and_then_Inr split: option.splits)
  from consume_at_rest[OF r(2)] have "length args1 \<le> length args" "length (m_positional_arguments p1) = length (m_positional_arguments p)"
    by auto
  with Cons.IH[OF r(3)] show ?case by simp
qed simp

function (sequential) args_loop :: "(string \<times> arg_parser) list \<Rightarrow> nat \<Rightarrow> string list \<Rightarrow> parser_own \<Rightarrow> string
    \<Rightarrow> (loop_end \<times> parser_own \<times> string) parsed" where
  "args_loop subs positional_it [] p out = Inr (Finished, p\<lparr>m_is_parsed := True\<rparr>, out)"
| "args_loop subs positional_it (current # rest) p out =
     (if is_positional current (p_prefix_chars p) then
        (if length (m_positional_arguments p) \<le> positional_it then
           (case map_of subs current of
              Some _ \<Rightarrow> Inr (In_subparser current (current # rest),
                p\<lparr>m_is_parsed := True, m_subparser_used := insert_or_assign current True (m_subparser_used p)\<rparr>, out)
            | None \<Rightarrow> Inl (no_positional_left subs p current))
         else
           (case consume_at subs (current # rest) '''' (Positional positional_it) p out of
              Inl e \<Rightarrow> Inl e
            | Inr (p, args, out) \<Rightarrow> args_loop subs (positional_it + 1) args p out))
      else
        (case map_of (m_argument_map p) current of
           Some r \<Rightarrow>
             (case consume_at subs rest current r p out of
                Inl e \<Rightarrow> Inl e
              | Inr (p, args, out) \<Rightarrow> args_loop subs positional_it args p out)
         | None \<Rightarrow>
             if is_compound p current then
               (case compound_loop subs current (tl current) rest p out of
                  Inl e \<Rightarrow> Inl e
                | Inr (p, args, out) \<Rightarrow> args_loop subs positional_it args p out)
             else Inl (unknown_argument current)))"
  by pat_completeness auto
termination
  by (relation "measure (\<lambda>(subs, k, args, p, out). 2 * length args + (length (m_positional_arguments p) - k))")
    (auto dest!: consume_at_len compound_loop_rest)

text \<open>The same loop for \<open>parse_known_args\<close>, which collects the texts it does not know.\<close>

fun known_compound_loop :: "(string \<times> arg_parser) list \<Rightarrow> string \<Rightarrow> string \<Rightarrow> string list \<Rightarrow> parser_own \<Rightarrow> string
    \<Rightarrow> (parser_own \<times> string list \<times> string \<times> string list) parsed" where
  "known_compound_loop subs current [] args p out = Inr (p, args, out, [])"
| "known_compound_loop subs current (c # cs) args p out =
     (let hypothetical_arg = [CHR ''-'', c] in
      case map_of (m_argument_map p) hypothetical_arg of
        None \<Rightarrow> Inr (p, args, out, [current])
      | Some r \<Rightarrow> and_then (consume_at subs args hypothetical_arg r p out)
          (\<lambda>(p, args, out). known_compound_loop subs current cs args p out))"

lemma known_compound_loop_rest:
  assumes "known_compound_loop subs current cs args p out = Inr (p', rest, out', us)"
  shows "length rest \<le> length args \<and> length (m_positional_arguments p') = length (m_positional_arguments p)"
  using assms
proof (induction cs arbitrary: args p out)
  case (Cons c cs)
  show ?case
  proof (cases "map_of (m_argument_map p) [CHR ''-'', c]")
    case None
    with Cons show ?thesis by simp
  next
    case (Some r)
    with Cons obtain p1 args1 out1 where r: "consume_at subs args [CHR ''-'', c] r p out = Inr (p1, args1, out1)"
      "known_compound_loop subs current cs args1 p1 out1 = Inr (p', rest, out', us)"
      by (auto simp: and_then_Inr)
    from consume_at_rest[OF r(1)] have "length args1 \<le> length args" "length (m_positional_arguments p1) = length (m_positional_arguments p)"
      by auto
    with Cons.IH[OF r(2)] show ?thesis by simp
  qed
qed simp

function (sequential) known_args_loop :: "(string \<times> arg_parser) list \<Rightarrow> nat \<Rightarrow> string list \<Rightarrow> parser_own \<Rightarrow> string \<Rightarrow> string list
    \<Rightarrow> (loop_end \<times> parser_own \<times> string \<times> string list) parsed" where
  "known_args_loop subs positional_it [] p out unknown = Inr (Finished, p\<lparr>m_is_parsed := True\<rparr>, out, unknown)"
| "known_args_loop subs positional_it (current # rest) p out unknown =
     (if is_positional current (p_prefix_chars p) then
        (if length (m_positional_arguments p) \<le> positional_it then
           (case map_of subs current of
              Some _ \<Rightarrow> Inr (In_subparser current (current # rest),
                p\<lparr>m_is_parsed := True, m_subparser_used := insert_or_assign current True (m_subparser_used p)\<rparr>, out, unknown)
            | None \<Rightarrow> known_args_loop subs positional_it rest p out (unknown @ [current]))
         else
           (case consume_at subs (current # rest) '''' (Positional positional_it) p out of
              Inl e \<Rightarrow> Inl e
            | Inr (p, args, out) \<Rightarrow> known_args_loop subs (positional_it + 1) args p out unknown))
      else
        (case map_of (m_argument_map p) current of
           Some r \<Rightarrow>
             (case consume_at subs rest current r p out of
                Inl e \<Rightarrow> Inl e
              | Inr (p, args, out) \<Rightarrow> known_args_loop subs positional_it args p out unknown)
         | None \<Rightarrow>
             if is_compound p current then
               (case known_compound_loop subs current (tl current) rest p out of
                  Inl e \<Rightarrow> Inl e
                | Inr (p, args, out, us) \<Rightarrow> known_args_loop subs positional_it args p out (unknown @ us))
             else known_args_loop subs positional_it rest p out (unknown @ [current])))"
  by pat_completeness auto
termination
  by (relation "measure (\<lambda>(subs, k, args, p, out, unknown). 2 * length args + (length (m_positional_arguments p) - k))")
    (auto dest!: consume_at_len known_compound_loop_rest)

subsection \<open>Checking the result of a parse\<close>

definition validate_all :: "parser_own \<Rightarrow> unit thrown" where
  "validate_all p = for_each_thrown (\<lambda>(_, r). validate (arg_at p r)) (m_argument_map p)"

text \<open>
  The loop over a group: the first argument used, and an error for a second; then, for a group that is
  required, an error when none is used.
\<close>

fun group_used :: "parser_own \<Rightarrow> argument option \<Rightarrow> arg_ref list \<Rightarrow> argument option thrown" where
  "group_used p it [] = Inr it"
| "group_used p it (r # rs) =
     (let arg = arg_at p r in
      case it of
        None \<Rightarrow> group_used p (if m_is_used arg then Some arg else None) rs
      | Some first \<Rightarrow>
          if m_is_used arg then
            Inl (Runtime_error (''Argument '' @ quoted (get_usage_full arg) @ '' not allowed with '' @ quoted (get_usage_full first)))
          else group_used p it rs)"

definition group_required_error :: "parser_own \<Rightarrow> mutex_group \<Rightarrow> cpp_exn" where
  "group_required_error p g =
     Runtime_error (''One of the arguments ''
       @ join_strings (map (\<lambda>r. quoted (get_usage_full (arg_at p r)) @ '' '') (g_elements g)) ''or ''
       @ ''is required'')"

definition check_group :: "parser_own \<Rightarrow> mutex_group \<Rightarrow> unit thrown" where
  "check_group p g = and_then (group_used p None (g_elements g))
     (\<lambda>used. if used = None \<and> g_required g then Inl (group_required_error p g) else Inr ())"

definition check_parsed :: "parser_own \<Rightarrow> unit thrown" where
  "check_parsed p = and_then (validate_all p) (\<lambda>_. for_each_thrown (check_group p) (m_mutually_exclusive_groups p))"

subsection \<open>The whole parse\<close>

definition with_program_name :: "string list \<Rightarrow> parser_own \<Rightarrow> parser_own" where
  "with_program_name arguments p =
     (if m_program_name p = [] \<and> arguments \<noteq> [] then p\<lparr>m_program_name := hd arguments\<rparr> else p)"

definition replace_subparser :: "string \<Rightarrow> arg_parser \<Rightarrow> (string \<times> arg_parser) list \<Rightarrow> (string \<times> arg_parser) list" where
  "replace_subparser name q subs = map (\<lambda>(n, r). if n = name then (n, q) else (n, r)) subs"

lemma size_subparser: "map_of subs name = Some q \<Longrightarrow> size q < size (Parser p subs)"
  by (induction subs) (auto split: if_splits)

text \<open>\<open>parse_args\<close>; the result is the parser with the values, and what was printed.\<close>

function parse_args :: "arg_parser \<Rightarrow> string list \<Rightarrow> (arg_parser \<times> string) parsed" where
  "parse_args (Parser p subs) raw_arguments =
     (let arguments = preprocess_arguments p raw_arguments in
      case args_loop subs 0 (tl arguments) (with_program_name arguments p) '''' of
        Inl e \<Rightarrow> Inl e
      | Inr (Finished, p, out) \<Rightarrow> and_then (throwing (check_parsed p)) (\<lambda>_. Inr (Parser p subs, out))
      | Inr (In_subparser name rest, p, out) \<Rightarrow>
          (case map_of subs name of
             None \<Rightarrow> Inl (unknown_argument name)
           | Some q \<Rightarrow>
               (case parse_args q rest of
                  Inl e \<Rightarrow> printed_before out (Inl e)
                | Inr (q, out') \<Rightarrow> and_then (throwing (check_parsed p))
                    (\<lambda>_. Inr (Parser p (replace_subparser name q subs), out @ out')))))"
  by pat_completeness auto
termination
  by (relation "measure (\<lambda>(P, _). size P)") (auto dest: size_subparser)

text \<open>\<open>parse_known_args_internal\<close> and \<open>parse_known_args\<close>, with the texts that were not known.\<close>

function parse_known_args_internal :: "arg_parser \<Rightarrow> string list \<Rightarrow> (arg_parser \<times> string \<times> string list) parsed" where
  "parse_known_args_internal (Parser p subs) raw_arguments =
     (let arguments = preprocess_arguments p raw_arguments in
      case known_args_loop subs 0 (tl arguments) (with_program_name arguments p) '''' [] of
        Inl e \<Rightarrow> Inl e
      | Inr (Finished, p, out, unknown) \<Rightarrow> Inr (Parser p subs, out, unknown)
      | Inr (In_subparser name rest, p, out, unknown) \<Rightarrow>
          (case map_of subs name of
             None \<Rightarrow> Inl (unknown_argument name)
           | Some q \<Rightarrow>
               (case parse_known_args_internal q rest of
                  Inl e \<Rightarrow> printed_before out (Inl e)
                | Inr (q, out', unknown') \<Rightarrow> Inr (Parser p (replace_subparser name q subs), out @ out', unknown'))))"
  by pat_completeness auto
termination
  by (relation "measure (\<lambda>(P, _). size P)") (auto dest: size_subparser)

definition parse_known_args :: "arg_parser \<Rightarrow> string list \<Rightarrow> (arg_parser \<times> string \<times> string list) parsed" where
  "parse_known_args P arguments =
     and_then (parse_known_args_internal P arguments)
       (\<lambda>(P, out, unknown). and_then (throwing (validate_all (own P))) (\<lambda>_. Inr (P, out, unknown)))"

subsection \<open>The command line of the backend\<close>

text \<open>
  \<open>main\<close> of \<open>server/backend/main.cpp\<close> up to the call of \<open>dpdk_init\<close>: it goes on with an address and the
  number of threads, ends the process with a code and the text printed (but for the log), or is ended
  by an exception nobody catches. The environment is a map; a variable that is not
  set reads as the empty text (\<open>get_env\<close> of \<open>server/common/common.hpp\<close>).
\<close>

type_synonym environment = "string \<rightharpoonup> string"

definition get_env :: "environment \<Rightarrow> string \<Rightarrow> string" where
  "get_env E env = (case E env of None \<Rightarrow> '''' | Some s \<Rightarrow> s)"

definition get_env_default :: "environment \<Rightarrow> string \<Rightarrow> string \<Rightarrow> string" where
  "get_env_default E env default_val =
     (let ret = get_env E env in if ret = [] then default_val else ret)"

text \<open>\<open>None\<close>: the process is ended with code 1, after a line in the log.\<close>

definition get_env_required :: "environment \<Rightarrow> string \<Rightarrow> string option" where
  "get_env_required E env =
     (let ret = get_env E env in if ret = [] then None else Some ret)"

datatype main_end = Starts string int | Exits nat string | Terminates cpp_exn

fun what :: "cpp_exn \<Rightarrow> string" where
  "what (Runtime_error s) = s"
| "what (Range_error s) = s"
| "what (Invalid_argument s) = s"
| "what (Logic_error s) = s"
| "what (Out_of_range s) = s"
| "what Bad_any_cast = ''bad any_cast''"

definition backend_program :: "float_io \<Rightarrow> string \<Rightarrow> arg_parser" where
  "backend_program io argv0 =
     (case new_parser io argv0 '''' Args_help True of
        Parser p subs \<Rightarrow>
          (let (r, p) = add_argument [''<nthreads>''] p
           in Parser (change_arg r (\<lambda>a. the (scan io CHR ''d'' (Scan_int (Signed Int_rank)) a)) p) subs))"

definition main_threads :: "float_io \<Rightarrow> environment \<Rightarrow> string list \<Rightarrow> main_end" where
  "main_threads io env argv =
     (let program = backend_program io (hd argv) in
      case parse_args program argv of
        Inl (Exit_process out) \<Rightarrow> Exits 0 out
      | Inl (Throw e) \<Rightarrow>
          if is_runtime_error e then Exits 1 (what e @ [newline] @ parser_help program) else Terminates e
      | Inr (P, out) \<Rightarrow>
          (case get_env_required env ''NETCCL_BIND_ADDR'' of
             None \<Rightarrow> Exits 1 out
           | Some ip \<Rightarrow>
               (case parser_get (T_int (Signed Int_rank)) ''<nthreads>'' (own P) of
                  Inr (Int_any _ n) \<Rightarrow> Starts ip n
                | Inr _ \<Rightarrow> Terminates Bad_any_cast
                | Inl e \<Rightarrow> Terminates e)))"

end
