(* ===== verification/ArgProps.thy ===== *)
theory ArgProps
  imports ArgParser
begin

text \<open>
  What the command line library does for the backend: the program of \<open>main\<close> read for any command line
  of positional texts, and what a parse makes of positional arguments.
\<close>

subsection \<open>The backend's program\<close>

definition help_argument :: "float_io \<Rightarrow> argument" where
  "help_argument io = nargs_exactly 0 (implicit_value (Bool_any True) (set_help ''shows help message and exits''
     (default_value io (Bool_any False) (set_action Show_help (new_argument ''-'' [''-h'', ''--help''])))))"

definition threads_argument :: argument where
  "threads_argument = set_action (as_any (Int_any (Signed Int_rank)) (parse_number_base (Signed Int_rank) 10)) (new_argument ''-'' [''<nthreads>''])"

lemma literal_h: "\<not> is_positional ''-h'' ''-''" "\<not> is_positional ''--help'' ''-''" "is_positional ''<nthreads>'' ''-''"
  by (simp_all add: is_positional_def is_decimal_literal_def lookahead_def is_digit_def less_eq_char_def)

lemma new_argument_facts:
  "m_names (new_argument ''-'' [''-h'', ''--help'']) = [''-h'', ''--help'']" "m_is_optional (new_argument ''-'' [''-h'', ''--help''])"
  "m_names (new_argument ''-'' [''<nthreads>'']) = [''<nthreads>'']" "\<not> m_is_optional (new_argument ''-'' [''<nthreads>''])"
  by (simp_all add: new_argument_def is_optional_def literal_h sort_key_def)

lemma string_order: "''--help'' < ''-h''" "''--help'' < ''<nthreads>''" "''-h'' < ''<nthreads>''"
  "\<not> ''-h'' < ''--help''"
  by (simp_all add: less_char_def)

lemma backend_program_eq: "backend_program io prog = Parser
   \<lparr>m_program_name = prog, m_version = '''', m_description = '''', m_epilog = '''',
    m_exit_on_default_arguments = True, p_prefix_chars = ''-'', m_assign_chars = ''='',
    m_is_parsed = False, m_positional_arguments = [threads_argument], m_optional_arguments = [help_argument io],
    m_argument_map = [(''--help'', Optional 0), (''-h'', Optional 0), (''<nthreads>'', Positional 0)],
    m_parser_path = prog, m_subparser_used = [], m_mutually_exclusive_groups = [], m_suppress = False\<rparr> []"
  by (simp add: backend_program_def new_parser_def adds_help_def adds_version_def add_default_argument_def add_argument_def
      new_argument_facts index_argument_def change_arg_def Let_def string_order help_argument_def threads_argument_def scan_def)

lemma preprocess_positional:
  assumes "is_positional s ''-''" "p_prefix_chars p = ''-''"
  shows "preprocess_argument p s = [s]"
proof -
  have "\<not> argument_starts_with_prefix_chars p s"
    using assms by (cases s; cases "tl s")
      (auto simp: argument_starts_with_prefix_chars_def is_valid_prefix_char_def is_positional_def is_decimal_literal_def)
  then show ?thesis by (simp add: preprocess_argument_def)
qed

lemma preprocess_positionals:
  assumes "list_all (\<lambda>s. is_positional s ''-'') ss" "p_prefix_chars p = ''-''"
  shows "preprocess_arguments p ss = ss"
  using assms by (induction ss) (simp_all add: preprocess_arguments_def preprocess_positional)

lemma consume_threads:
  assumes "is_positional s ''-''"
  shows "consume E (s # ts) u threads_argument =
    (case do_from_chars (Signed Int_rank) 10 s of
       Inl e \<Rightarrow> Inl (Throw e)
     | Inr i \<Rightarrow> Inr (threads_argument\<lparr>m_is_used := True, m_used_name := u, m_values := [Int_any (Signed Int_rank) i]\<rparr>, ts, ''''))"
  using assms
  by (auto simp: consume_def threads_argument_def set_action_def as_any_def new_argument_def Let_def throwing_def is_optional_def
      apply_action_def parse_number_base_def split: sum.splits)

lemma backend_state:
  "m_positional_arguments (own (backend_program io prog)) = [threads_argument]"
  "p_prefix_chars (own (backend_program io prog)) = ''-''" "subparser_map (backend_program io prog) = []"
  "m_program_name (own (backend_program io prog)) = prog"
  "m_mutually_exclusive_groups (own (backend_program io prog)) = []"
  "m_argument_map (own (backend_program io prog)) = [(''--help'', Optional 0), (''-h'', Optional 0), (''<nthreads>'', Positional 0)]"
  "m_optional_arguments (own (backend_program io prog)) = [help_argument io]"
  by (simp_all add: backend_program_eq)

lemma validate_help: "validate (help_argument io) = Inr ()"
  by (simp add: validate_def help_argument_def nargs_exactly_def implicit_value_def set_help_def default_value_def set_action_def
      new_argument_facts new_argument_def is_optional_def literal_h has_value_def find_default_value_in_choices_or_throw_def)

lemma validate_threads: "validate (threads_argument\<lparr>m_is_used := b, m_used_name := [], m_values := vs\<rparr>) =
    (if length vs = 1 then Inr ()
     else Inl (Runtime_error (''<nthreads>: 1 argument(s) expected. '' @ to_string (length vs) @ '' provided.'')))"
  by (simp add: validate_def threads_argument_def set_action_def new_argument_def is_optional_def literal_h has_value_def
      find_default_value_in_choices_or_throw_def r_contains_def nargs_range_validation_error_def r_is_exact_def first_name_def
      to_string.simps sort_key_def le_antisym char_of_def bit_0)

lemma main_threads_run:
  assumes "is_positional prog ''-''" "list_all (\<lambda>t. is_positional t ''-'') ts"
  shows "parse_args (backend_program io prog) (prog # ts) =
    (case args_loop [] 0 ts (own (backend_program io prog)) '''' of
       Inl e \<Rightarrow> Inl e
     | Inr (Finished, p, out) \<Rightarrow> and_then (throwing (check_parsed p)) (\<lambda>_. Inr (Parser p [], out))
     | Inr (In_subparser name rest, p, out) \<Rightarrow> Inl (unknown_argument name))"
proof -
  obtain p where p: "backend_program io prog = Parser p []" by (simp add: backend_program_eq)
  note s = backend_state[of io prog, unfolded p]
  have "preprocess_arguments p (prog # ts) = prog # ts"
    using assms by (intro preprocess_positionals) (use s in auto)
  moreover have "with_program_name (prog # ts) p = p"
    using s(4) by (cases p) (auto simp: with_program_name_def)
  ultimately show ?thesis by (simp add: p split: sum.splits prod.splits loop_end.splits)
qed

lemma check_backend:
  assumes "p = (own (backend_program io prog))\<lparr>m_positional_arguments := [threads_argument\<lparr>m_is_used := b, m_used_name := [], m_values := vs\<rparr>], m_is_parsed := True\<rparr>"
  shows "check_parsed p = (if length vs = 1 then Inr ()
     else Inl (Runtime_error (''<nthreads>: 1 argument(s) expected. '' @ to_string (length vs) @ '' provided.'')))"
  by (simp add: assms check_parsed_def validate_all_def backend_state validate_help validate_threads)

lemma check_unparsed:
  "check_parsed (own (backend_program io prog)\<lparr>m_is_parsed := True\<rparr>) =
     Inl (Runtime_error ''<nthreads>: 1 argument(s) expected. 0 provided.'')"
proof -
  have "own (backend_program io prog)\<lparr>m_is_parsed := True\<rparr> = (own (backend_program io prog))
     \<lparr>m_positional_arguments := [threads_argument\<lparr>m_is_used := False, m_used_name := [], m_values := []\<rparr>], m_is_parsed := True\<rparr>"
    by (simp add: backend_program_eq threads_argument_def set_action_def new_argument_def)
  from check_backend[OF this] show ?thesis by (simp add: to_string.simps char_of_def bit_0)
qed

lemma get_threads:
  assumes "p = (own (backend_program io prog))\<lparr>m_positional_arguments := [threads_argument\<lparr>m_is_used := b, m_used_name := [], m_values := [Int_any (Signed Int_rank) i]\<rparr>], m_is_parsed := True\<rparr>"
  shows "parser_get (T_int (Signed Int_rank)) ''<nthreads>'' p = Inr (Int_any (Signed Int_rank) i)"
  by (simp add: assms parser_get_def find_argument_def backend_state arg_get_def)

definition usage_exit :: "float_io \<Rightarrow> string \<Rightarrow> string \<Rightarrow> main_end" where
  "usage_exit io prog message = Exits 1 (message @ [newline] @ parser_help (backend_program io prog))"

text \<open>
  C25: What \<open>main\<close> makes of a command line of positional texts: no text and a text too many end in the
  usage message and exit code 1; an integer that fits an \<open>int\<close> is the number of threads the backend
  starts with, if the environment gives the address (exit code 1 if not); one that does not
  fit ends in the usage message too; but a text that is not an integer throws \<open>std::invalid_argument\<close>,
  which \<open>main\<close>'s handler for \<open>std::runtime_error\<close> does not catch, so that the process is ended by
  the exception. An error of the first text comes before one of the others.
\<close>

theorem main_command_line:
  assumes "is_positional prog ''-''" "list_all (\<lambda>t. is_positional t ''-'') ts"
  shows "main_threads io env (prog # ts) =
    (case ts of
       [] \<Rightarrow> usage_exit io prog ''<nthreads>: 1 argument(s) expected. 0 provided.''
     | s # others \<Rightarrow>
         (case do_from_chars (Signed Int_rank) 10 s of
            Inr i \<Rightarrow> (case others of
               [] \<Rightarrow> (let ip = get_env env ''NETCCL_BIND_ADDR'' in if ip = [] then Exits 1 '''' else Starts ip i)
             | t # _ \<Rightarrow> usage_exit io prog (''Maximum number of positional arguments exceeded, failed to parse '' @ quoted t))
          | Inl (Range_error e) \<Rightarrow> usage_exit io prog e
          | Inl e \<Rightarrow> Terminates e))"
proof (cases ts)
  case Nil
  then show ?thesis
    using main_threads_run[OF assms, of io]
    by (simp add: main_threads_def throwing_def usage_exit_def check_unparsed)
next
  case (Cons s others)
  let ?P = "own (backend_program io prog)"
  have s: "is_positional s ''-''" using assms(2) Cons by simp
  show ?thesis
  proof (cases "do_from_chars (Signed Int_rank) 10 s")
    case (Inl e)
    then have e: "(\<exists>t. e = Range_error t) \<or> (\<exists>t. e = Invalid_argument t)"
      by (auto simp: do_from_chars_def split: chars_result.splits if_splits)
    have "args_loop [] 0 ts ?P '''' = Inl (Throw e)"
      using s Inl Cons by (simp add: backend_state consume_at_def consume_threads)
    with e Inl Cons show ?thesis
      using main_threads_run[OF assms, of io] by (auto simp: main_threads_def usage_exit_def)
  next
    case (Inr i)
    let ?p = "?P\<lparr>m_positional_arguments := [threads_argument\<lparr>m_is_used := True, m_used_name := [], m_values := [Int_any (Signed Int_rank) i]\<rparr>]\<rparr>"
    have step: "args_loop [] 0 ts ?P '''' = args_loop [] 1 others ?p ''''"
      using s Inr Cons by (simp add: backend_state consume_at_def consume_threads)
    show ?thesis
    proof (cases others)
      case Nil
      then show ?thesis
        using main_threads_run[OF assms, of io] step check_backend[where io=io and prog=prog and b=True and vs="[Int_any (Signed Int_rank) i]", OF refl]
          get_threads[where io=io and prog=prog and b=True and i=i, OF refl] Cons Inr
        by (simp add: main_threads_def throwing_def get_env_required_def Let_def)
    next
      case more: (Cons t ts')
      have "is_positional t ''-''" using assms(2) Cons more by simp
      with more have "args_loop [] 1 others ?p '''' = Inl (no_positional_left [] ?p t)"
        by (simp add: backend_state)
      with step show ?thesis
        using main_threads_run[OF assms, of io] Cons Inr more
        by (simp add: main_threads_def no_positional_left_def usage_exit_def)
    qed
  qed
qed

theorem main_command_line_witness:
  "\<forall>io. main_threads io (Map.empty(''NETCCL_BIND_ADDR'' \<mapsto> ''10.0.0.1'')) [''backend'', ''12''] = Starts ''10.0.0.1'' 12
   \<and> main_threads io Map.empty [''backend'', ''12''] = Exits 1 ''''
   \<and> main_threads io Map.empty [''backend'', ''-3'', ''4''] =
       usage_exit io ''backend'' (''Maximum number of positional arguments exceeded, failed to parse '' @ quoted ''4'')
   \<and> main_threads io Map.empty [''backend'', ''4 ''] = Terminates (Invalid_argument (''pattern '' @ quoted ''4 '' @ '' does not match to the end''))"
proof -
  have pos: "is_positional ''backend'' ''-''" "is_positional ''12'' ''-''" "is_positional ''-3'' ''-''" "is_positional ''4'' ''-''"
      "is_positional ''4 '' ''-''"
    by (simp_all add: is_positional_def is_decimal_literal_def is_digit_def consume_digits_def less_eq_char_def)
  have vals: "do_from_chars (Signed Int_rank) 10 ''12'' = Inr 12" "do_from_chars (Signed Int_rank) 10 ''-3'' = Inr (- 3)"
      "do_from_chars (Signed Int_rank) 10 ''4 '' = Inl (Invalid_argument (''pattern '' @ quoted ''4 '' @ '' does not match to the end''))"
    by (simp_all add: do_from_chars_def from_chars_def digits_value_def digit_value_def less_eq_char_def)
  show ?thesis
    using main_command_line[of "''backend''" "[''12'']"] main_command_line[of "''backend''" "[''-3'', ''4'']"]
      main_command_line[of "''backend''" "[''4 '']"] pos vals by (simp add: get_env_def Let_def)
qed

text \<open>
  A word where the number of threads belongs ends the process with an uncaught exception, not with the
  usage message.
\<close>

theorem main_word_terminates:
  "main_threads io env [''backend'', ''four''] = Terminates (Invalid_argument (''pattern '' @ quoted ''four'' @ '' not found''))"
proof -
  have vals: "do_from_chars (Signed Int_rank) 10 ''four'' = Inl (Invalid_argument (''pattern '' @ quoted ''four'' @ '' not found''))"
    by (simp add: do_from_chars_def from_chars_def digits_value_def digit_value_def less_eq_char_def)
  have p: "is_positional ''backend'' ''-''" "is_positional ''four'' ''-''" by (simp_all add: is_positional_def)
  show ?thesis
    using main_threads_run[of "''backend''" "[''four'']" io] p vals
    by (simp add: main_threads_def backend_state consume_at_def consume_threads)
qed

subsection \<open>Values of positional arguments\<close>

text \<open>A positional argument as \<open>add_argument\<close> gives it, with any range that takes at least one text.\<close>

definition plain_positional :: "argument \<Rightarrow> bool" where
  "plain_positional a \<longleftrightarrow> m_action a = Valued (\<lambda>s. Inr (String_any s)) \<and> m_choices a = None \<and> m_values a = []
     \<and> \<not> m_is_optional a \<and> \<not> m_is_used a \<and> \<not> has_value (m_default_value a) \<and> \<not> m_accepts_optional_like_value a
     \<and> m_prefix_chars a = ''-'' \<and> 0 < r_max (m_num_args_range a)"

lemma map_thrown_Inr: "map_thrown (\<lambda>s. Inr (f s)) xs = Inr (map f xs)"
  by (induction xs) simp_all

lemma consume_plain:
  assumes "plain_positional a" "list_all (\<lambda>s. is_positional s ''-'') args" "consume E args u a = Inr (a', left, out)"
  shows "\<exists>taken. args = taken @ left \<and> a' = a\<lparr>m_is_used := True, m_used_name := u, m_values := map String_any taken\<rparr>
    \<and> r_contains (m_num_args_range a) (length taken)"
proof -
  let ?taken = "if r_max (m_num_args_range a) < length args then take (r_max (m_num_args_range a)) args else args"
  have "takeWhile (\<lambda>s. \<not> is_optional s ''-'') (take n args) = take n args" for n
    using assms(2) by (auto simp: takeWhile_eq_all_conv list_all_iff is_optional_def dest: in_set_takeD)
  from this[of "r_max (m_num_args_range a)"] this[of "length args"]
  have tw: "takeWhile (\<lambda>s. \<not> is_optional s ''-'') (take (r_max (m_num_args_range a)) args) = take (r_max (m_num_args_range a)) args"
      "takeWhile (\<lambda>s. \<not> is_optional s ''-'') args = args" by simp_all
  show ?thesis
    using assms(1,3)
    by (intro exI[of _ ?taken])
      (auto simp: plain_positional_def consume_def Let_def throwing_def apply_action_def map_thrown_Inr r_contains_def tw
        split: if_splits)
qed

definition taken_ok :: "argument \<Rightarrow> bool" where
  "taken_ok a \<longleftrightarrow> m_is_used a \<longrightarrow> r_contains (m_num_args_range a) (length (m_values a))"

lemma positional_loop:
  assumes "args_loop [] k ts p out = Inr (Finished, p', out')" "p_prefix_chars p = ''-''"
    "list_all (\<lambda>s. is_positional s ''-'') ts" "list_all plain_positional (drop k (m_positional_arguments p))"
  shows "take k (m_positional_arguments p') = take k (m_positional_arguments p)
    \<and> concat (map m_values (drop k (m_positional_arguments p'))) = map String_any ts
    \<and> list_all taken_ok (drop k (m_positional_arguments p'))"
  using assms
proof (induction "[] :: (string \<times> arg_parser) list" k ts p out arbitrary: p' out' rule: args_loop.induct)
  case (1 k p out)
  then show ?case by (auto simp: list_all_iff plain_positional_def taken_ok_def)
next
  case (2 k current others p out)
  have pos: "is_positional current ''-''" using "2.prems"(3) by simp
  with "2.prems"(1,2) have k: "k < length (m_positional_arguments p)" by (auto split: if_splits)
  with "2.prems"(1,2) pos obtain p1 args1 out1
    where c: "consume_at [] (current # others) [] (Positional k) p out = Inr (p1, args1, out1)"
      and l: "args_loop [] (k + 1) args1 p1 out1 = Inr (Finished, p', out')"
    by (auto split: sum.splits)
  let ?a = "m_positional_arguments p ! k"
  from c obtain a' t where a: "consume (shown_by p []) (current # others) [] ?a = Inr (a', args1, t)"
      and p1: "p1 = set_arg (Positional k) a' p"
    by (auto simp: consume_at_def and_then_Inr)
  have "plain_positional ?a" using "2.prems"(4) k by (simp add: list_all_iff Cons_nth_drop_Suc[symmetric])
  from consume_plain[OF this "2.prems"(3) a] obtain taken where taken: "current # others = taken @ args1"
      "a' = ?a\<lparr>m_is_used := True, m_used_name := [], m_values := map String_any taken\<rparr>"
      "r_contains (m_num_args_range ?a) (length taken)" by blast
  have ih: "take (k + 1) (m_positional_arguments p') = take (k + 1) (m_positional_arguments p1)
    \<and> concat (map m_values (drop (k + 1) (m_positional_arguments p'))) = map String_any args1
    \<and> list_all taken_ok (drop (k + 1) (m_positional_arguments p'))"
  proof (rule "2.hyps"(1))
    show "list_all (\<lambda>s. is_positional s ''-'') args1" using "2.prems"(3) taken(1) by (metis list_all_append)
    show "list_all plain_positional (drop (k + 1) (m_positional_arguments p1))"
      using "2.prems"(4) k p1 by (simp add: list_all_iff Cons_nth_drop_Suc[symmetric])
  qed (use "2.prems"(1,2) k pos c l p1 in auto)
  let ?xs = "m_positional_arguments p'" and ?ys = "m_positional_arguments p1"
  have tk: "take (k + 1) ?xs = take (k + 1) ?ys" using ih by blast
  have ys: "?ys ! k = a'" "k < length ?ys" "take k ?ys = take k (m_positional_arguments p)"
    using p1 k by simp_all
  have len: "k < length ?xs" using tk ys(2) by (metis add.commute length_take less_add_one min_less_iff_conj min.absorb2 Suc_eq_plus1 Suc_leI)
  have "?xs ! k = a'" using tk ys(1) by (metis lessI nth_take Suc_eq_plus1)
  moreover have "take k ?xs = take k (m_positional_arguments p)"
    using arg_cong[OF tk, of "take k"] ys(3) by (simp add: min_def)
  moreover have "map String_any (current # others) = m_values a' @ map String_any args1" "taken_ok a'"
    using taken by (simp_all add: taken_ok_def)
  ultimately show ?case
    using ih Cons_nth_drop_Suc[OF len, symmetric] by simp
qed
text \<open>
  A parse that succeeds loses and reorders no positional text: the values of the positional arguments,
  in the order the arguments were added, are the texts in their order; and each argument that took any
  took a number of them inside its range. The optional arguments are as they were.
\<close>

theorem positional_values_in_order:
  assumes "parse_args (Parser p []) (prog # ts) = Inr (P, out)" "p_prefix_chars p = ''-''"
    "list_all (\<lambda>s. is_positional s ''-'') (prog # ts)" "list_all plain_positional (m_positional_arguments p)"
  shows "concat (map m_values (m_positional_arguments (own P))) = map String_any ts
    \<and> list_all taken_ok (m_positional_arguments (own P))"
proof -
  have pre: "preprocess_arguments p (prog # ts) = prog # ts"
    using preprocess_positionals[OF assms(3,2)] .
  from assms(1) obtain p' out' where l: "args_loop [] 0 ts (with_program_name (prog # ts) p) '''' = Inr (Finished, p', out')"
      and P: "own P = p'"
    by (auto simp: pre and_then_Inr split: sum.splits prod.splits loop_end.splits)
  have "p_prefix_chars (with_program_name (prog # ts) p) = ''-''"
    "m_positional_arguments (with_program_name (prog # ts) p) = m_positional_arguments p"
    using assms(2) by (simp_all add: with_program_name_def)
  with positional_loop[OF l] P assms(3,4) show ?thesis by simp
qed

text \<open>A program with an argument of two texts and one of one text.\<close>

definition pair_program :: parser_own where
  "pair_program = snd (add_argument [''rest''] (change_arg (Positional 0) (nargs_exactly 2)
     (snd (add_argument [''pair''] (own (new_parser \<lparr>io_strtod = (\<lambda>_. (0, 0, False)), io_stream = (\<lambda>_. ''''), io_to_string = (\<lambda>_. '''')\<rparr> ''p'' '''' Args_none True))))))"

lemma pair_program_eq: "pair_program =
   \<lparr>m_program_name = ''p'', m_version = '''', m_description = '''', m_epilog = '''',
    m_exit_on_default_arguments = True, p_prefix_chars = ''-'', m_assign_chars = ''='', m_is_parsed = False,
    m_positional_arguments = [nargs_exactly 2 (new_argument ''-'' [''pair'']), new_argument ''-'' [''rest'']],
    m_optional_arguments = [], m_argument_map = [(''pair'', Positional 0), (''rest'', Positional 1)],
    m_parser_path = ''p'', m_subparser_used = [], m_mutually_exclusive_groups = [], m_suppress = False\<rparr>"
  by (simp add: pair_program_def new_parser_def adds_help_def adds_version_def add_argument_def index_argument_def change_arg_def
      Let_def new_argument_def is_optional_def is_positional_def nargs_exactly_def less_char_def)

theorem positional_values_in_order_witness:
  "case parse_args (Parser pair_program []) [''p'', ''a'', ''b'', ''c''] of
     Inl _ \<Rightarrow> False
   | Inr (P, out) \<Rightarrow> concat (map m_values (m_positional_arguments (own P))) = map String_any [''a'', ''b'', ''c'']"
proof -
  have pos: "is_positional [c] ''-''" if "c \<noteq> CHR ''-''" for c using that by (simp add: is_positional_def)
  have start: "p_prefix_chars pair_program = ''-''" "list_all plain_positional (m_positional_arguments pair_program)"
    by (simp_all add: pair_program_eq plain_positional_def nargs_exactly_def new_argument_def is_optional_def is_positional_def has_value_def)
  have pre: "preprocess_arguments pair_program [''p'', ''a'', ''b'', ''c''] = [''p'', ''a'', ''b'', ''c'']"
    by (rule preprocess_positionals) (simp_all add: pos start)
  have "\<exists>P out. parse_args (Parser pair_program []) [''p'', ''a'', ''b'', ''c''] = Inr (P, out)"
    unfolding parse_args.simps pre
    by (simp add: pair_program_eq with_program_name_def consume_at_def consume_def Let_def nargs_exactly_def new_argument_def
        is_optional_def pos throwing_def apply_action_def check_parsed_def validate_all_def validate_def has_value_def
        find_default_value_in_choices_or_throw_def r_contains_def is_positional_def)
  then obtain P out where P: "parse_args (Parser pair_program []) [''p'', ''a'', ''b'', ''c''] = Inr (P, out)" by blast
  with positional_values_in_order[OF P start(1) _ start(2)] show ?thesis by (simp add: pos)
qed

end
