(* ===== verification/ArgTypes.thy ===== *)
theory ArgTypes
  imports ArgProps
begin

text \<open>
  The types of the values on a command line: a parse that succeeds gives every argument only values
  of the type it was declared with, so that reading them never throws \<open>std::bad_any_cast\<close>.
\<close>

subsection \<open>Types of values\<close>

fun val_type :: "any_val \<Rightarrow> value_type option" where
  "val_type No_any = None"
| "val_type (Int_any T _) = Some (T_int T)"
| "val_type (Bool_any _) = Some T_bool"
| "val_type (String_any _) = Some T_string"
| "val_type (Double_any _) = Some T_double"

lemma any_cast_typed: "any_cast T v = (if val_type v = Some T then Inr v else Inl Bad_any_cast)"
  by (cases v; cases T) auto

text \<open>An argument all of whose values, those to come included, are of one type.\<close>

definition arg_typed :: "value_type \<Rightarrow> argument \<Rightarrow> bool" where
  "arg_typed T a \<longleftrightarrow>
     (\<exists>f. m_action a = Valued f \<and> (\<forall>s v. f s = Inr v \<longrightarrow> val_type v = Some T))
   \<and> (\<forall>v\<in>set (m_values a). val_type v = Some T)
   \<and> (has_value (m_default_value a) \<longrightarrow> val_type (m_default_value a) = Some T)
   \<and> (r_max (m_num_args_range a) = 0 \<longrightarrow> val_type (m_implicit_value a) = Some T)"

lemma map_thrown_typed:
  assumes "map_thrown f xs = Inr vs" "\<forall>s v. f s = Inr v \<longrightarrow> val_type v = Some T"
  shows "\<forall>v\<in>set vs. val_type v = Some T"
  using assms by (induction xs arbitrary: vs) (auto simp: and_then_Inr)

lemma consume_result:
  assumes "consume E args u a = Inr (a', left, t)" "m_action a = Valued f"
  shows "\<exists>vs. a' = a\<lparr>m_is_used := True, m_used_name := u, m_values := m_values a @ vs\<rparr>
    \<and> (vs = [] \<or> (r_max (m_num_args_range a) = 0 \<and> vs = [m_implicit_value a]) \<or> (\<exists>xs. map_thrown f xs = Inr vs))"
proof -
  let ?b = "a\<lparr>m_is_used := True, m_used_name := u\<rparr>"
  have app: "a' = ?b\<lparr>m_values := m_values a @ vs\<rparr> \<and> map_thrown f xs = Inr vs" if "apply_action E xs ?b = Inr (a', t)"
      "vs = drop (length (m_values a)) (m_values a')" for xs t vs
    using that assms(2) by (auto simp: apply_action_def throwing_def and_then_Inr split: sum.splits)
  have "a' = ?b\<lparr>m_values := m_values a @ [m_implicit_value a]\<rparr> \<and> r_max (m_num_args_range a) = 0
      \<or> (\<exists>xs t. apply_action E xs ?b = Inr (a', t)) \<or> a' = ?b"
    using assms(1) unfolding consume_def Let_def and_then_Inr
    by (auto simp: and_then_Inr split: if_split_asm)
  then show ?thesis
  proof (elim disjE exE conjE)
    assume "a' = ?b\<lparr>m_values := m_values a @ [m_implicit_value a]\<rparr>" "r_max (m_num_args_range a) = 0"
    then show ?thesis by (intro exI[of _ "[m_implicit_value a]"]) simp
  next
    fix xs t
    assume "apply_action E xs ?b = Inr (a', t)"
    from app[OF this refl] show ?thesis by (intro exI[of _ "drop (length (m_values a)) (m_values a')"]) auto
  next
    assume "a' = ?b"
    then show ?thesis by (intro exI[of _ "[]"]) simp
  qed
qed

lemma consume_typed:
  assumes "consume E args u a = Inr (a', left, t)" "arg_typed T a"
  shows "arg_typed T a'"
proof -
  obtain f where f: "m_action a = Valued f" "\<forall>s v. f s = Inr v \<longrightarrow> val_type v = Some T"
    using assms(2) by (auto simp: arg_typed_def)
  from consume_result[OF assms(1) f(1)] obtain vs where
      a': "a' = a\<lparr>m_is_used := True, m_used_name := u, m_values := m_values a @ vs\<rparr>"
    and vs: "vs = [] \<or> (r_max (m_num_args_range a) = 0 \<and> vs = [m_implicit_value a]) \<or> (\<exists>xs. map_thrown f xs = Inr vs)" by blast
  have "\<forall>v\<in>set vs. val_type v = Some T"
    using vs assms(2) map_thrown_typed[OF _ f(2)] by (auto simp: arg_typed_def)
  with assms(2) f show ?thesis by (auto simp: arg_typed_def a')
qed

text \<open>What a parse keeps: the table of names, and the type of every argument that has one.\<close>

definition keeps_types :: "parser_own \<Rightarrow> parser_own \<Rightarrow> bool" where
  "keeps_types p p' \<longleftrightarrow> m_argument_map p' = m_argument_map p \<and> p_prefix_chars p' = p_prefix_chars p
     \<and> (\<forall>T r. arg_typed T (arg_at p r) \<longrightarrow> arg_typed T (arg_at p' r))"

lemma keeps_types_refl: "keeps_types p p"
  by (simp add: keeps_types_def)

lemma keeps_types_trans: "keeps_types p q \<Longrightarrow> keeps_types q r \<Longrightarrow> keeps_types p r"
  by (simp add: keeps_types_def)

lemma keeps_types_flags:
  "keeps_types p (p\<lparr>m_is_parsed := b\<rparr>)" "keeps_types p (p\<lparr>m_is_parsed := b, m_subparser_used := m\<rparr>)"
  "keeps_types p (with_program_name l p)"
proof -
  have "arg_at (p\<lparr>m_is_parsed := b\<rparr>) r = arg_at p r" "arg_at (p\<lparr>m_is_parsed := b, m_subparser_used := m\<rparr>) r = arg_at p r"
    "arg_at (with_program_name l p) r = arg_at p r" for r
    by (cases r; simp add: with_program_name_def)+
  then show "keeps_types p (p\<lparr>m_is_parsed := b\<rparr>)" "keeps_types p (p\<lparr>m_is_parsed := b, m_subparser_used := m\<rparr>)"
    "keeps_types p (with_program_name l p)"
    by (simp_all add: keeps_types_def with_program_name_def)
qed

lemma arg_at_set_arg: "arg_at (set_arg r a p) r' = arg_at p r' \<or> (r' = r \<and> arg_at (set_arg r a p) r' = a)"
proof (cases r; cases r')
  fix i j
  assume "r = Positional i" "r' = Positional j"
  then show ?thesis by (cases "j < length (m_positional_arguments p)"; cases "i = j") (simp_all add: list_update_beyond)
next
  fix i j
  assume "r = Optional i" "r' = Optional j"
  then show ?thesis by (cases "j < length (m_optional_arguments p)"; cases "i = j") (simp_all add: list_update_beyond)
qed auto

lemma consume_at_keeps:
  assumes "consume_at subs args u r p out = Inr (p', left, out')"
  shows "keeps_types p p'"
proof -
  from assms obtain a t where a: "consume (shown_by p subs) args u (arg_at p r) = Inr (a, left, t)" "p' = set_arg r a p"
    by (auto simp: consume_at_def and_then_Inr)
  have "arg_typed T (arg_at p' r')" if "arg_typed T (arg_at p r')" for T r'
    using arg_at_set_arg[of r a p r'] that consume_typed[OF a(1)] unfolding a(2) by metis
  moreover have "m_argument_map p' = m_argument_map p" "p_prefix_chars p' = p_prefix_chars p"
    unfolding a(2) by (cases r; simp)+
  ultimately show ?thesis by (simp add: keeps_types_def)
qed

lemma compound_loop_keeps:
  assumes "compound_loop subs current cs args p out = Inr (p', left, out')"
  shows "keeps_types p p'"
  using assms
proof (induction cs arbitrary: args p out)
  case Nil
  then show ?case by (simp add: keeps_types_refl)
next
  case (Cons c cs)
  then obtain r p1 args1 out1 where r: "consume_at subs args [CHR ''-'', c] r p out = Inr (p1, args1, out1)"
    "compound_loop subs current cs args1 p1 out1 = Inr (p', left, out')"
    by (auto simp: Let_def and_then_Inr split: option.splits)
  show ?case using keeps_types_trans[OF consume_at_keeps[OF r(1)] Cons.IH[OF r(2)]] .
qed

lemma args_loop_keeps:
  assumes "args_loop subs k ts p out = Inr (le, p', out')"
  shows "keeps_types p p' \<and> m_is_parsed p'"
  using assms
proof (induction subs k ts p out arbitrary: le p' out' rule: args_loop.induct)
  case (1 subs k p out)
  then show ?case by (auto simp: keeps_types_flags)
next
  case (2 subs k current others p out)
  show ?case
  proof (cases "is_positional current (p_prefix_chars p)")
    case pos: True
    show ?thesis
    proof (cases "length (m_positional_arguments p) \<le> k")
      case True
      with "2.prems" pos show ?thesis by (auto simp: keeps_types_flags split: option.splits)
    next
      case False
      with "2.prems" pos obtain p1 args1 out1 where c: "consume_at subs (current # others) [] (Positional k) p out = Inr (p1, args1, out1)"
        "args_loop subs (k + 1) args1 p1 out1 = Inr (le, p', out')"
        by (auto split: sum.splits)
      from "2.IH"(1)[OF pos False c(1) refl refl c(2)] consume_at_keeps[OF c(1)] show ?thesis
        using keeps_types_trans by blast
    qed
  next
    case pos: False
    show ?thesis
    proof (cases "map_of (m_argument_map p) current")
      case (Some r)
      with "2.prems" pos obtain p1 args1 out1 where c: "consume_at subs others current r p out = Inr (p1, args1, out1)"
        "args_loop subs k args1 p1 out1 = Inr (le, p', out')"
        by (auto split: sum.splits)
      from "2.IH"(3)[OF pos Some c(1) refl refl c(2)] consume_at_keeps[OF c(1)] show ?thesis
        using keeps_types_trans by blast
    next
      case None
      with "2.prems" pos obtain p1 args1 out1 where i: "is_compound p current"
        and c: "compound_loop subs current (tl current) others p out = Inr (p1, args1, out1)"
        "args_loop subs k args1 p1 out1 = Inr (le, p', out')"
        by (auto split: sum.splits if_splits)
      from "2.IH"(2)[OF pos None i c(1) refl refl c(2)] compound_loop_keeps[OF c(1)] show ?thesis
        using keeps_types_trans by blast
    qed
  qed
qed

lemma arg_get_typed:
  assumes "arg_typed T a"
  shows "arg_get T a = Inl (no_value_error a) \<or> (\<exists>v. arg_get T a = Inr v \<and> val_type v = Some T)"
  using assms by (cases "m_values a") (auto simp: arg_get_def arg_typed_def any_cast_typed)

text \<open>
  C31: Values are of the type they are asked for. After a parse that succeeds, asking for an
  argument, every text of which its action makes a value of type \<open>T\<close> (as \<open>scan\<close> declares it), and whose default and
  implicit values are of that type, gives a value of type \<open>T\<close>, or the error that there is none; it never
  throws \<open>std::bad_any_cast\<close>.
\<close>

theorem parsed_values_typed:
  assumes "parse_args (Parser p subs) argv = Inr (P, out)"
    and "find_argument p name = Inr r" "arg_typed T (arg_at p r)"
  shows "parser_get T name (own P) = Inl (no_value_error (arg_at (own P) r))
    \<or> (\<exists>v. parser_get T name (own P) = Inr v \<and> val_type v = Some T)"
proof -
  let ?l = "preprocess_arguments p argv"
  from assms(1) obtain le p' out' where l: "args_loop subs 0 (tl ?l) (with_program_name ?l p) [] = Inr (le, p', out')"
      and P: "own P = p'"
    by (auto simp: Let_def and_then_Inr split: sum.splits prod.splits loop_end.splits option.splits)
  have k: "keeps_types p p'" "m_is_parsed p'"
    using args_loop_keeps[OF l] keeps_types_trans[OF keeps_types_flags(3)] by blast+
  then have m: "m_argument_map p' = m_argument_map p" "p_prefix_chars p' = p_prefix_chars p" by (simp_all add: keeps_types_def)
  have "find_argument p' name = Inr r"
    using assms(2) unfolding find_argument_def is_valid_prefix_char_def get_any_valid_prefix_char_def m .
  then have "parser_get T name (own P) = arg_get T (arg_at p' r)" using k P by (simp add: parser_get_def)
  moreover have "arg_typed T (arg_at p' r)" using k(1) assms(3) by (simp add: keeps_types_def)
  ultimately show ?thesis using arg_get_typed P by metis
qed

lemma threads_typed: "arg_typed (T_int (Signed Int_rank)) (arg_at (own (backend_program io prog)) (Positional 0))"
  by (auto simp: backend_state arg_typed_def threads_argument_def set_action_def as_any_def new_argument_def and_then_Inr has_value_def)

theorem parsed_values_typed_witness:
  "\<forall>io. case parse_args (backend_program io ''backend'') [''backend'', ''12''] of
     Inl _ \<Rightarrow> False
   | Inr (P, out) \<Rightarrow> parser_get (T_int (Signed Int_rank)) ''<nthreads>'' (own P) \<noteq> Inl Bad_any_cast"
proof
  fix io
  have pos: "is_positional ''backend'' ''-''" "is_positional ''12'' ''-''"
    by (simp_all add: is_positional_def)
  have v: "do_from_chars (Signed Int_rank) 10 ''12'' = Inr 12"
    by (simp add: do_from_chars_def from_chars_def digits_value_def digit_value_def less_eq_char_def)
  let ?P = "own (backend_program io ''backend'')"
  have "args_loop [] 0 [''12''] ?P [] = Inr (Finished, ?P\<lparr>m_positional_arguments :=
      [threads_argument\<lparr>m_is_used := True, m_used_name := [], m_values := [Int_any (Signed Int_rank) 12]\<rparr>], m_is_parsed := True\<rparr>, [])"
    using pos v by (simp add: backend_state consume_at_def consume_threads)
  then obtain P out where P: "parse_args (backend_program io ''backend'') [''backend'', ''12''] = Inr (P, out)"
    using main_threads_run[of "''backend''" "[''12'']" io] pos
      check_backend[where io=io and prog="''backend''" and b=True and vs="[Int_any (Signed Int_rank) 12]", OF refl]
    by (simp add: throwing_def)
  obtain p where p: "backend_program io ''backend'' = Parser p []" "own (backend_program io ''backend'') = p"
    by (simp add: backend_program_eq)
  have "find_argument p ''<nthreads>'' = Inr (Positional 0)"
    using backend_state(6)[of io "''backend''"] p(2) by (simp add: find_argument_def)
  from parsed_values_typed[OF P[unfolded p(1)] this threads_typed[of io "''backend''", unfolded p(2)]]
  show "case parse_args (backend_program io ''backend'') [''backend'', ''12''] of
     Inl _ \<Rightarrow> False
   | Inr (P, out) \<Rightarrow> parser_get (T_int (Signed Int_rank)) ''<nthreads>'' (own P) \<noteq> Inl Bad_any_cast"
    using P by (auto simp: no_value_error_def)
qed

end
