(* ===== verification/SysInfo.thy ===== *)
theory SysInfo
  imports NetUtils ArgNumbers
begin

text \<open>
  How the backend finds its network card and the card's place in the machine: the helpers of
  \<open>server/backend/net_utils.hpp\<close> that ask the system. What the system answers is a parameter: the list of
  interfaces, the driver's bus name, the content of a file, the output of a command. What the code does
  with the answer, \<open>fscanf\<close> included, is modelled.
\<close>

subsection \<open>How the process can end\<close>

text \<open>A failed \<open>assert\<close>, an access that is undefined, or \<open>exit\<close> with a code.\<close>

datatype stop = Aborts | Undefined | Exit_with int

type_synonym 'a run = "stop + 'a"

definition ensure :: "bool \<Rightarrow> unit run" where
  "ensure b = (if b then Inr () else Inl Aborts)"

lemma ensure_simps [simp]: "ensure b = Inr u \<longleftrightarrow> b" "and_then (ensure b) f = (if b then f () else Inl Aborts)"
  by (simp_all add: ensure_def)

subsection \<open>Scanning\<close>

text \<open>
  One conversion of \<open>fscanf\<close>: the end of the text before it matched anything, a text that does not match, or
  the value; with what is left of the text.
\<close>

datatype 'a scanned = End_of_text | Mismatch string | Match 'a string

definition skip_space :: "string \<Rightarrow> string" where
  "skip_space s = dropWhile is_space s"

definition scan_word :: "string \<Rightarrow> unit scanned" where
  "scan_word s =
     (let s = skip_space s in if s = [] then End_of_text else Match () (dropWhile (\<lambda>c. \<not> is_space c) s))"

definition scan_char :: "char \<Rightarrow> string \<Rightarrow> unit scanned" where
  "scan_char c s =
     (let s = skip_space s in if s = [] then End_of_text else if hd s = c then Match () (tl s) else Mismatch s)"

definition scan_int :: "string \<Rightarrow> int scanned" where
  "scan_int s =
     (let s = skip_space s;
          signed = (s \<noteq> [] \<and> (hd s = CHR ''-'' \<or> hd s = CHR ''+''));
          t = (if signed then tl s else s);
          ds = takeWhile (\<lambda>c. digit_value c < 10) t;
          v = int (digits_value 10 ds)
      in if s = [] then End_of_text
         else if ds = [] then Mismatch t
         else Match (if signed \<and> hd s = CHR ''-'' then - v else v) (dropWhile (\<lambda>c. digit_value c < 10) t))"

text \<open>
  One call with the format \<open>%*s %*s : %d%*[^\n]%*c\<close>: the result of \<open>fscanf\<close>, the number if it was
  assigned, and what is left. The rest of the line is skipped if there is any.
\<close>

definition scan_physical_id :: "string \<Rightarrow> int \<times> int option \<times> string" where
  "scan_physical_id s =
     (case scan_word s of
        Match _ s \<Rightarrow>
          (case scan_word s of
             Match _ s \<Rightarrow>
               (case scan_char CHR '':'' s of
                  Match _ s \<Rightarrow>
                    (case scan_int s of
                       Match v s \<Rightarrow>
                         (1, Some v, if s = [] \<or> hd s = CHR 0x0A then s else drop 1 (dropWhile (\<lambda>c. c \<noteq> CHR 0x0A) s))
                     | Mismatch s \<Rightarrow> (0, None, s)
                     | End_of_text \<Rightarrow> (- 1, None, []))
                | Mismatch s \<Rightarrow> (0, None, s)
                | End_of_text \<Rightarrow> (- 1, None, []))
           | _ \<Rightarrow> (- 1, None, []))
      | _ \<Rightarrow> (- 1, None, []))"

lemma length_skip_space: "length (skip_space s) \<le> length s"
  by (simp add: skip_space_def length_dropWhile_le)

lemma length_after:
  "scan_word s = Match u s' \<Longrightarrow> length s' < length s"
  "scan_char c s = Match u s' \<Longrightarrow> length s' < length s" "scan_char c s = Mismatch s' \<Longrightarrow> length s' \<le> length s"
  "scan_int s = Match v s' \<Longrightarrow> length s' \<le> length s" "scan_int s = Mismatch s' \<Longrightarrow> length s' \<le> length s"
proof -
  note le = length_skip_space[of s]
  {
    assume a: "scan_word s = Match u s'"
    then obtain c t where t: "skip_space s = c # t" by (cases "skip_space s") (auto simp: scan_word_def)
    then have "\<not> is_space c" by (auto simp: skip_space_def dropWhile_eq_Cons_conv)
    with a t have "s' = dropWhile (\<lambda>c. \<not> is_space c) t" by (simp add: scan_word_def)
    then show "length s' < length s" using le t length_dropWhile_le[of "\<lambda>c. \<not> is_space c" t] by simp
  }
  show "scan_char c s = Match u s' \<Longrightarrow> length s' < length s" "scan_char c s = Mismatch s' \<Longrightarrow> length s' \<le> length s"
    using le by (cases "skip_space s"; simp add: scan_char_def Let_def split: if_splits)+
  have int: "case scan_int s of Match v s' \<Rightarrow> length s' \<le> length s | Mismatch s' \<Rightarrow> length s' \<le> length s | End_of_text \<Rightarrow> True"
  proof -
    define t where "t = (if skip_space s \<noteq> [] \<and> (hd (skip_space s) = CHR ''-'' \<or> hd (skip_space s) = CHR ''+'')
      then tl (skip_space s) else skip_space s)"
    have t: "length t \<le> length s" using le by (auto simp: t_def)
    moreover have "length (dropWhile (\<lambda>c. digit_value c < 10) t) \<le> length s"
      using t length_dropWhile_le le_trans by blast
    ultimately show ?thesis unfolding scan_int_def Let_def t_def[symmetric] by simp
  qed
  show "scan_int s = Match v s' \<Longrightarrow> length s' \<le> length s" "scan_int s = Mismatch s' \<Longrightarrow> length s' \<le> length s"
    using int by simp_all
qed

lemma scan_physical_id_shorter:
  assumes "scan_physical_id s = (r, v, s')" "r \<noteq> - 1"
  shows "length s' < length s"
proof -
  from assms obtain s1 s2 where w: "scan_word s = Match () s1" "scan_word s1 = Match () s2"
    by (cases "scan_word s") (auto simp: scan_physical_id_def split: scanned.splits)
  have tail: "length (if t = [] \<or> hd t = CHR 0x0A then t else drop 1 (dropWhile (\<lambda>c. c \<noteq> CHR 0x0A) t)) \<le> length t" for t :: string
    using length_dropWhile_le[of "\<lambda>c. c \<noteq> CHR 0x0A" t] by (auto intro: le_trans[OF diff_le_self])
  have "length s' \<le> length s2"
  proof (cases "scan_char CHR '':'' s2")
    case End_of_text
    then show ?thesis using assms w by (simp add: scan_physical_id_def)
  next
    case (Mismatch t)
    then show ?thesis using assms w length_after(3)[OF Mismatch] by (simp add: scan_physical_id_def)
  next
    case c: (Match u s3)
    note l3 = length_after(2)[OF c]
    show ?thesis
    proof (cases "scan_int s3")
      case End_of_text
      then show ?thesis using assms w c by (simp add: scan_physical_id_def)
    next
      case (Mismatch t)
      then show ?thesis using assms w c l3 length_after(5)[OF Mismatch] by (simp add: scan_physical_id_def)
    next
      case (Match x s4)
      then have "s' = (if s4 = [] \<or> hd s4 = CHR 0x0A then s4 else drop 1 (dropWhile (\<lambda>c. c \<noteq> CHR 0x0A) s4))"
        using assms w c by (simp add: scan_physical_id_def)
      with tail[of s4] l3 length_after(4)[OF Match] show ?thesis by simp
    qed
  qed
  with length_after(1)[OF w(1)] length_after(1)[OF w(2)] show ?thesis by simp
qed

subsection \<open>Processors and sockets\<close>

text \<open>
  The loop of \<open>get_socket_list_with_cpu_index\<close>; \<open>socket_id\<close> is \<open>None\<close> until it is first assigned, and a
  line that does not match gives the value of the line before.
\<close>

function socket_loop :: "int option \<Rightarrow> string \<Rightarrow> int list run" where
  "socket_loop socket_id s =
     (case scan_physical_id s of (ret, v, rest) \<Rightarrow>
        if ret = - 1 then Inr []
        else case (if v = None then socket_id else v) of
               None \<Rightarrow> Inl Undefined
             | Some x \<Rightarrow> and_then (socket_loop (Some x) rest) (\<lambda>xs. Inr (x # xs)))"
  by pat_completeness auto
termination
  by (relation "measure (\<lambda>(_, s). length s)") (auto dest: scan_physical_id_shorter[OF sym])

declare socket_loop.simps [simp del]

text \<open>\<open>cpuinfo\<close> is the output of the command, \<open>None\<close> if it cannot be run; the code then exits with code 0.\<close>

definition get_socket_list_with_cpu_index :: "string option \<Rightarrow> int list run" where
  "get_socket_list_with_cpu_index cpuinfo =
     (case cpuinfo of None \<Rightarrow> Inl (Exit_with 0) | Some s \<Rightarrow> socket_loop None s)"

text \<open>The socket of a card, \<open>- 1\<close> if it cannot be read; \<open>files\<close> are the contents of files. The path has 128 bytes.\<close>

definition get_socket_by_pci :: "(string \<Rightarrow> string option) \<Rightarrow> string \<Rightarrow> int run" where
  "get_socket_by_pci files pci =
     (let path = ''/sys/bus/pci/devices/'' @ pci @ ''/numa_node'' in
      if length path < 128 then
        Inr (case files path of
               None \<Rightarrow> - 1
             | Some s \<Rightarrow> (case scan_int s of Match x _ \<Rightarrow> x | _ \<Rightarrow> - 1))
      else Inl Undefined)"

subsection \<open>Cards\<close>

text \<open>
  An entry of the list of \<open>getifaddrs\<close>: its name and its address, which may be missing; an IPv4 address
  or one of another family. \<open>aton\<close> is \<open>inet_aton\<close>, \<open>drvinfo\<close> the answer of the driver.
\<close>

record ifaddr =
  ifa_name :: string
  ifa_addr :: "(nat \<times> u32) option"

definition AF_INET :: nat where "AF_INET = 2"

fun find_if :: "u32 \<Rightarrow> ifaddr list \<Rightarrow> string run" where
  "find_if addr [] = Inr ''''"
| "find_if addr (ifa # l) =
     (case ifa_addr ifa of
        None \<Rightarrow> Inl Undefined
      | Some (family, a) \<Rightarrow> if family = AF_INET \<and> a = addr then Inr (ifa_name ifa) else find_if addr l)"

definition get_dev_by_ip :: "(string \<Rightarrow> u32 option) \<Rightarrow> ifaddr list option \<Rightarrow> string \<Rightarrow> string run" where
  "get_dev_by_ip aton if_list ip_addr =
     (case aton ip_addr of
        None \<Rightarrow> Inr ''''
      | Some addr \<Rightarrow> (case if_list of None \<Rightarrow> Inr '''' | Some l \<Rightarrow> find_if addr l))"

definition get_pci_by_dev :: "(string \<Rightarrow> string option) \<Rightarrow> string \<Rightarrow> string" where
  "get_pci_by_dev drvinfo dev = (case drvinfo dev of None \<Rightarrow> '''' | Some bus_info \<Rightarrow> bus_info)"

text \<open>\<open>ipv4_to_int\<close>: the variable is not set when \<open>inet_pton\<close> refuses the text.\<close>

definition ipv4_to_int :: "(string \<Rightarrow> u32 option) \<Rightarrow> string \<Rightarrow> u32 run" where
  "ipv4_to_int pton ip = (case pton ip of None \<Rightarrow> Inl Undefined | Some s_addr \<Rightarrow> Inr (betoh s_addr))"

subsection \<open>Reading the sockets back\<close>

declare to_string.simps [simp del]

text \<open>A line of \<open>/proc/cpuinfo\<close> that \<open>grep\<close> lets through.\<close>

definition cpuinfo_line :: "nat \<Rightarrow> string" where
  "cpuinfo_line n = ''physical id'' @ [CHR 0x09] @ '': '' @ to_string n @ [CHR 0x0A]"

lemma spaces [simp]: "is_space CHR '' ''" "is_space CHR 0x09" "is_space CHR 0x0A"
  by (simp_all add: is_space_def less_eq_char_def)

lemma no_spaces [simp]: "\<not> is_space CHR ''p''" "\<not> is_space CHR ''h''" "\<not> is_space CHR ''y''" "\<not> is_space CHR ''s''"
  "\<not> is_space CHR ''i''" "\<not> is_space CHR ''c''" "\<not> is_space CHR ''a''" "\<not> is_space CHR ''l''" "\<not> is_space CHR ''d''"
  "\<not> is_space CHR '':''"
  by (simp_all add: is_space_def less_eq_char_def)

lemma scan_after_space [simp]: "is_space c \<Longrightarrow> scan_physical_id (c # s) = scan_physical_id s"
  by (simp add: scan_physical_id_def scan_word_def skip_space_def)

lemma not_a_digit: "c < CHR ''0'' \<Longrightarrow> digit_value c = 255"
  by (auto simp: digit_value_def dest: order_le_less_trans)

lemma digit_is:
  assumes "digit_value c < 10"
  shows "\<not> is_space c" "c \<noteq> CHR ''-''" "c \<noteq> CHR ''+''"
proof -
  have ge: "\<not> c < CHR ''0''" using assms not_a_digit by fastforce
  have "c < CHR ''0''" if "is_space c" using that by (auto simp: is_space_def less_char_def less_eq_char_def)
  then show "\<not> is_space c" using ge by blast
  show "c \<noteq> CHR ''-''" "c \<noteq> CHR ''+''" using ge by (auto simp: less_char_def)
qed

lemma scan_int_number:
  assumes "\<not> digit_value d < 10"
  shows "scan_int (CHR '' '' # to_string n @ d # t) = Match (int n) (d # t)"
proof -
  have all: "\<forall>c\<in>set (to_string n). digit_value c < 10"
    using to_string_span(1)[of n] by (metis takeWhile_eq_all_conv)
  then have h: "digit_value (hd (to_string n)) < 10" by simp
  have "skip_space (CHR '' '' # to_string n @ d # t) = to_string n @ d # t"
    using digit_is(1)[OF h] by (cases "to_string n") (simp_all add: skip_space_def)
  moreover have "hd (to_string n @ d # t) = hd (to_string n)" by simp
  moreover have "takeWhile (\<lambda>c. digit_value c < 10) (to_string n @ d # t) = to_string n"
    "dropWhile (\<lambda>c. digit_value c < 10) (to_string n @ d # t) = d # t"
    using all assms by (simp_all add: takeWhile_append dropWhile_append)
  ultimately show ?thesis using digit_is[OF h] by (simp add: scan_int_def to_string_value)
qed

lemma scan_line: "scan_physical_id (cpuinfo_line n @ s) = (1, Some (int n), CHR 0x0A # s)"
proof -
  have "\<not> digit_value CHR 0x0A < 10" using not_a_digit[of "CHR 0x0A"] by (simp add: less_char_def)
  from scan_int_number[OF this, of n s] show ?thesis
    by (simp add: cpuinfo_line_def scan_physical_id_def scan_word_def scan_char_def skip_space_def)
qed

lemma socket_loop_end: "scan_physical_id s = (- 1, v, t) \<Longrightarrow> socket_loop i s = Inr []"
  by (simp add: socket_loop.simps)

lemma socket_loop_space [simp]: "is_space c \<Longrightarrow> socket_loop i (c # s) = socket_loop i s"
  by (subst (1 2) socket_loop.simps) simp

lemma cpuinfo_read_back: "socket_loop i (concat (map cpuinfo_line ns)) = Inr (map int ns)"
proof (induction ns arbitrary: i)
  case Nil
  then show ?case by (simp add: socket_loop_end scan_physical_id_def scan_word_def skip_space_def)
next
  case (Cons n ns)
  have "socket_loop i (cpuinfo_line n @ concat (map cpuinfo_line ns)) =
      and_then (socket_loop (Some (int n)) (concat (map cpuinfo_line ns))) (\<lambda>xs. Inr (int n # xs))"
    by (subst socket_loop.simps) (simp add: scan_line)
  with Cons show ?case by simp
qed

subsection \<open>Finding the card\<close>

lemma find_if_first:
  assumes "\<forall>i\<in>set l. ifa_addr i \<noteq> None"
  shows "find_if addr l = Inr (case find (\<lambda>i. ifa_addr i = Some (AF_INET, addr)) l of None \<Rightarrow> '''' | Some i \<Rightarrow> ifa_name i)"
  using assms by (induction l) (auto split: option.splits)

lemma find_if_null:
  assumes "\<forall>i\<in>set l. ifa_addr i \<noteq> Some (AF_INET, addr)" "ifa_addr i = None"
  shows "find_if addr (l @ i # l') = Inl Undefined"
  using assms by (induction l) (auto split: option.splits)

end
