(* ===== verification/Startup.thy ===== *)
theory Startup
  imports Setup SysInfo ArgParser
begin

text \<open>
  The start of the backend: \<open>main\<close>, \<open>dpdk_init\<close>, \<open>port_init\<close> and \<open>shm_init\<close> of
  \<open>server/backend/main.cpp\<close>, and the first lines of the thread functions. The calls of DPDK are recorded in
  their order; what each returns, which may depend on the calls before it, is a parameter, as is what
  the system answers.
\<close>

subsection \<open>What the library and the system answer\<close>

text \<open>A pool of packet buffers is known by its name, a flow rule by the rule.\<close>

datatype dpdk_call =
    Eal_init "string list"
  | Pool_create string nat nat nat
  | Dev_info_get u16
  | Dev_configure u16 u16 u16 bool
  | Adjust_nb_desc u16 u16 u16
  | Rx_queue_setup u16 u16 u16 string
  | Tx_queue_setup u16 u16 u16 bool
  | Dev_start u16
  | Macaddr_get u16
  | Promiscuous_enable u16
  | Flow_create flow_rule
  | Remote_launch nat nat

type_synonym calls = "dpdk_call list"

record dpdk =
  answer :: "calls \<Rightarrow> dpdk_call \<Rightarrow> int"
  is_valid_port :: "u16 \<Rightarrow> bool"
  mbuf_fast_free :: "u16 \<Rightarrow> bool"
  adjusted_nb_desc :: "u16 \<Rightarrow> u16 \<Rightarrow> u16 \<Rightarrow> u16 \<times> u16"
  counts_tx_queue :: bool
  dev_count_avail :: u16
  port_by_name :: "string \<Rightarrow> u16 option"
  flow_is_valid :: "flow_rule \<Rightarrow> calls \<Rightarrow> bool"
  ether_unformat :: "string \<Rightarrow> u8 list"
  macaddr :: "u16 \<Rightarrow> u8 list"
  pool_buffers :: "string \<Rightarrow> mbuf list"
  pktmbuf_headroom :: nat
  default_buf_size :: nat

record sys_info =
  getenv :: environment
  inet_aton :: "string \<Rightarrow> u32 option"
  inet_pton :: "string \<Rightarrow> u32 option"
  getifaddrs :: "ifaddr list option"
  drvinfo :: "string \<Rightarrow> string option"
  file_content :: "string \<Rightarrow> string option"
  cpuinfo :: "string option"
  shared_segment :: "bool option"

text \<open>A call whose result is asserted to be zero.\<close>

definition call_ok :: "dpdk \<Rightarrow> dpdk_call \<Rightarrow> calls \<Rightarrow> calls run" where
  "call_ok D c trace = (if answer D trace c = 0 then Inr (trace @ [c]) else Inl Aborts)"

definition or_abort :: "'a option \<Rightarrow> 'a run" where
  "or_abort r = (case r of None \<Rightarrow> Inl Aborts | Some x \<Rightarrow> Inr x)"

subsection \<open>The port\<close>

fun rx_queues_setup :: "dpdk \<Rightarrow> u16 \<Rightarrow> u16 \<Rightarrow> string list \<Rightarrow> nat \<Rightarrow> nat \<Rightarrow> calls \<Rightarrow> calls run" where
  "rx_queues_setup D port nb_rxd mbuf_pool q 0 trace = Inr trace"
| "rx_queues_setup D port nb_rxd mbuf_pool q (Suc n) trace =
     and_then (call_ok D (Rx_queue_setup port (of_nat q) nb_rxd (mbuf_pool ! q)) trace)
       (rx_queues_setup D port nb_rxd mbuf_pool (Suc q) n)"

fun tx_queues_setup :: "dpdk \<Rightarrow> u16 \<Rightarrow> u16 \<Rightarrow> bool \<Rightarrow> nat \<Rightarrow> nat \<Rightarrow> calls \<Rightarrow> calls run" where
  "tx_queues_setup D port nb_txd offloads q 0 trace = Inr trace"
| "tx_queues_setup D port nb_txd offloads q (Suc n) trace =
     and_then (call_ok D (Tx_queue_setup port (of_nat q) nb_txd offloads) trace)
       (tx_queues_setup D port nb_txd offloads (Suc q) n)"

text \<open>The result is the function's return value, and the calls made.\<close>

definition port_init :: "dpdk \<Rightarrow> u16 \<Rightarrow> int \<Rightarrow> string list \<Rightarrow> calls \<Rightarrow> (int \<times> calls) run" where
  "port_init D port nqueues mbuf_pool trace =
     (if nqueues = 0 then Inr (0, trace)
      else
        let queues = (of_int nqueues :: u16);
            nb_rxd = (of_nat MAX_WIN_LEN :: u16);
            nb_txd = (if counts_tx_queue D then of_nat MAX_WIN_LEN else 2 * of_nat MAX_PKT_BURST :: u16)
        in if \<not> is_valid_port D port then Inr (- 1, trace)
        else
          and_then (call_ok D (Dev_info_get port) trace) (\<lambda>trace.
          let offloads = mbuf_fast_free D port in
          and_then (call_ok D (Dev_configure port queues queues offloads) trace) (\<lambda>trace.
          and_then (call_ok D (Adjust_nb_desc port nb_rxd nb_txd) trace) (\<lambda>trace.
          case adjusted_nb_desc D port nb_rxd nb_txd of (nb_rxd, nb_txd) \<Rightarrow>
          and_then (rx_queues_setup D port nb_rxd mbuf_pool 0 (unat queues) trace) (\<lambda>trace.
          and_then (tx_queues_setup D port nb_txd offloads 0 (unat queues) trace) (\<lambda>trace.
          and_then (call_ok D (Dev_start port) trace) (\<lambda>trace.
          and_then (call_ok D (Macaddr_get port) trace) (\<lambda>trace.
          and_then (call_ok D (Promiscuous_enable port) trace) (\<lambda>trace.
          Inr (0, trace))))))))))"

subsection \<open>Starting the threads\<close>

text \<open>
  The names and sizes of the two pools of a worker. The buffers of the send pool are the packets of its window.
\<close>

definition tx_pool_name :: "string \<Rightarrow> nat \<Rightarrow> string" where
  "tx_pool_name ipv4 i = ''TX_MBUF_'' @ ipv4 @ ''_'' @ to_string i"

definition rx_pool_name :: "string \<Rightarrow> nat \<Rightarrow> string" where
  "rx_pool_name ipv4 i = ''RX_MBUF_'' @ ipv4 @ ''_'' @ to_string i"

definition RX_BUFFER_CACHE :: nat where "RX_BUFFER_CACHE = 256"

text \<open>A pool that is created is not the null pointer.\<close>

definition pool_create :: "dpdk \<Rightarrow> dpdk_call \<Rightarrow> calls \<Rightarrow> bool \<times> calls" where
  "pool_create D c trace = (answer D trace c \<noteq> 0, trace @ [c])"

fun pools_create :: "dpdk \<Rightarrow> string \<Rightarrow> nat \<Rightarrow> nat \<Rightarrow> calls \<Rightarrow> calls run" where
  "pools_create D ipv4 i 0 trace = Inr trace"
| "pools_create D ipv4 i (Suc n) trace =
     (let (tx, trace) = pool_create D (Pool_create (tx_pool_name ipv4 i) MAX_WIN_LEN 0 (pktmbuf_headroom D + sizeof_netccl_pkt)) trace;
          (rx, trace) = pool_create D (Pool_create (rx_pool_name ipv4 i) MAX_WIN_LEN RX_BUFFER_CACHE (default_buf_size D)) trace
      in and_then (ensure tx) (\<lambda>_. and_then (ensure rx) (\<lambda>_. pools_create D ipv4 (Suc i) n trace)))"

text \<open>The calls that make the flow rules; a rule that is created is not the null pointer.\<close>

definition dpdk_flows :: "dpdk \<Rightarrow> calls flow_ops" where
  "dpdk_flows D = \<lparr>rte_flow_validate = flow_is_valid D,
     rte_flow_create = (\<lambda>r trace. (answer D trace (Flow_create r) \<noteq> 0, trace @ [Flow_create r]))\<rparr>"

text \<open>The context of a worker (\<open>thread_ctx_t\<close>): its queue is its number.\<close>

record ('q, 'n) thread_ctx =
  port_id :: u16
  worker_id :: nat
  tx_mbuf_pool :: string
  rx_mbuf_pool :: string
  ctx_worker :: "('q, 'n) worker"

text \<open>What a worker starts with besides: its empty queue pair, its queue of the card, the memory.\<close>

record ('q, 'n) fresh =
  fresh_queue :: 'q
  fresh_card :: "nat \<Rightarrow> 'n"
  fresh_mem :: memory

definition SWITCH_MAC :: string where "SWITCH_MAC = ''02:00:00:00:00:00''"

definition new_ctx :: "dpdk \<Rightarrow> ('q, 'n) fresh \<Rightarrow> string \<Rightarrow> u32 \<Rightarrow> u16 \<Rightarrow> nat \<Rightarrow> ('q, 'n) thread_ctx run" where
  "new_ctx D N ipv4 addr port w =
     and_then (or_abort (new_worker (prefill_pkt (ether_unformat D SWITCH_MAC) (macaddr D port) addr w)
         (pool_buffers D (tx_pool_name ipv4 w)) (fresh_queue N) (fresh_card N w) (fresh_mem N)))
       (\<lambda>s. Inr \<lparr>port_id = port, worker_id = w, tx_mbuf_pool = tx_pool_name ipv4 w, rx_mbuf_pool = rx_pool_name ipv4 w, ctx_worker = s\<rparr>)"

fun launch_workers :: "dpdk \<Rightarrow> ('q, 'n) fresh \<Rightarrow> string \<Rightarrow> u32 \<Rightarrow> u16 \<Rightarrow> nat \<Rightarrow> nat \<Rightarrow> calls
    \<Rightarrow> (('q, 'n) thread_ctx list \<times> calls) run" where
  "launch_workers D N ipv4 addr port w 0 trace = Inr ([], trace)"
| "launch_workers D N ipv4 addr port w (Suc n) trace =
     and_then (new_ctx D N ipv4 addr port w) (\<lambda>ctx.
     and_then (call_ok D (Remote_launch w (w + 1)) trace) (\<lambda>trace.
     and_then (launch_workers D N ipv4 addr port (Suc w) n trace) (\<lambda>(ctxs, trace). Inr (ctx # ctxs, trace))))"

text \<open>\<open>shm_init\<close>: the segment cannot be opened, or it has a queue pair or not.\<close>

definition shm_init :: "sys_info \<Rightarrow> unit run" where
  "shm_init S =
     (case shared_segment S of
        None \<Rightarrow> Inl (Exit_with 1)
      | Some has_queue_pair \<Rightarrow> ensure has_queue_pair)"

text \<open>Which loop the load balancer and a worker run; the worker's gets its base of time and its state.\<close>

datatype lb_start = Lb_loopback | Lb_no_worker | Lb_loop

definition load_balancer_start :: "environment \<Rightarrow> int \<Rightarrow> lb_start" where
  "load_balancer_start env nworker =
     (if env ''NETCCL_LB_LOOPBACK'' \<noteq> None then Lb_loopback
      else if nworker = 0 then Lb_no_worker
      else Lb_loop)"

definition worker_loop_start :: "environment \<Rightarrow> u32 \<Rightarrow> ('q, 'n) worker \<Rightarrow> (u32 \<times> ('q, 'n) worker) option" where
  "worker_loop_start env now s =
     (if env ''NETCCL_WORKER_LOOPBACK'' \<noteq> None then None
      else Some (worker_loop_init now (env ''NETCCL_PACKET_LOOPBACK'' \<noteq> None) s))"

text \<open>
  The sockets of the processors; a negative number would index the table of processors outside its bounds.
\<close>

definition node_cpus :: "sys_info \<Rightarrow> int \<Rightarrow> int \<Rightarrow> nat list run" where
  "node_cpus S node thread_cnt =
     and_then (get_socket_list_with_cpu_index (cpuinfo S)) (\<lambda>sockets.
     if list_all (\<lambda>s. 0 \<le> s) sockets then or_abort (cpu_list_on_node (map nat sockets) node thread_cnt)
     else Inl Undefined)"

definition eal_parameters :: "nat list \<Rightarrow> string list" where
  "eal_parameters cpu_list = [''netccl'', ''--in-memory'', ''--lcores'', lcores_arg cpu_list]"

text \<open>
  \<open>dpdk_init(ip)\<close> with the global variables \<open>nthread\<close> and \<open>nworker\<close>, up to the loop of the load balancer:
  the contexts of the workers that were launched, the calls made, and which loop runs.
\<close>

definition dpdk_init :: "sys_info \<Rightarrow> dpdk \<Rightarrow> ('q, 'n) fresh \<Rightarrow> int \<Rightarrow> int \<Rightarrow> string
    \<Rightarrow> (('q, 'n) thread_ctx list \<times> calls \<times> lb_start) run" where
  "dpdk_init S D N nthread nworker ipv4 =
     and_then (get_dev_by_ip (inet_aton S) (getifaddrs S) ipv4) (\<lambda>dev.
     and_then (ensure (dev \<noteq> [])) (\<lambda>_.
     let pci = get_pci_by_dev (drvinfo S) dev in
     and_then (ensure (pci \<noteq> [])) (\<lambda>_.
     and_then (get_socket_by_pci (file_content S) pci) (\<lambda>node.
     and_then (ensure (node \<noteq> - 1)) (\<lambda>_.
     and_then (node_cpus S node nthread) (\<lambda>cpu_list.
     let c = Eal_init (eal_parameters cpu_list) in
     and_then (ensure (0 \<le> answer D [] c)) (\<lambda>_.
     and_then (pools_create D ipv4 0 (nat nworker) [c]) (\<lambda>trace.
     and_then (ensure (0 < dev_count_avail D)) (\<lambda>_.
     and_then (or_abort (port_by_name D pci)) (\<lambda>port.
     and_then (port_init D port nworker (map (rx_pool_name ipv4) [0..<nat nworker]) trace) (\<lambda>(retval, trace).
     and_then (ensure (retval = 0)) (\<lambda>_.
     case flow_init (dpdk_flows D) (of_int nworker) (True, trace) of (retval, _, trace) \<Rightarrow>
     and_then (ensure (retval = 0)) (\<lambda>_.
     and_then (ipv4_to_int (inet_pton S) ipv4) (\<lambda>addr.
     and_then (launch_workers D N ipv4 addr port 0 (nat nworker) (trace @ [Macaddr_get port])) (\<lambda>(ctxs, trace).
     and_then (shm_init S) (\<lambda>_.
     Inr (ctxs, trace, load_balancer_start (getenv S) nworker)))))))))))))))))"

text \<open>\<open>main\<close>: an exception nobody catches aborts the process.\<close>

definition backend_main :: "float_io \<Rightarrow> sys_info \<Rightarrow> dpdk \<Rightarrow> ('q, 'n) fresh \<Rightarrow> string list
    \<Rightarrow> (('q, 'n) thread_ctx list \<times> calls \<times> lb_start) run" where
  "backend_main io S D N argv =
     (case main_threads io (getenv S) argv of
        Exits code _ \<Rightarrow> Inl (Exit_with (int code))
      | Terminates _ \<Rightarrow> Inl Aborts
      | Starts ipv4 nthread \<Rightarrow> dpdk_init S D N nthread (nthread - 1) ipv4)"

end
