(* ===== verification/StartupProps.thy ===== *)
theory StartupProps
  imports Startup
begin

text \<open>
  A start of the backend as a plan: the calls of DPDK it makes, in order, for any number of workers; and what the
  plan gives: every worker has its own queue, pools and processor, and gets exactly the packets that answer its own.
\<close>

subsection \<open>The calls in order\<close>

lemma call_ok_Inr: "call_ok D c trace = Inr trace' \<longleftrightarrow> trace' = trace @ [c] \<and> answer D trace c = 0"
  by (auto simp: call_ok_def)

lemma upt_step: "[q..<q + Suc n] = q # [Suc q..<Suc q + n]"
  by (simp add: upt_conv_Cons)

lemma rx_queues_setup_calls:
  "rx_queues_setup D port nb pools q n trace = Inr trace' \<Longrightarrow>
   trace' = trace @ map (\<lambda>q. Rx_queue_setup port (of_nat q) nb (pools ! q)) [q..<q + n]"
proof (induction n arbitrary: q trace)
  case (Suc n)
  from Suc.prems have "rx_queues_setup D port nb pools (Suc q) n (trace @ [Rx_queue_setup port (of_nat q) nb (pools ! q)]) = Inr trace'"
    by (simp add: and_then_Inr call_ok_Inr)
  from Suc.IH[OF this] show ?case unfolding upt_step by simp
qed simp

lemma tx_queues_setup_calls:
  "tx_queues_setup D port nb off q n trace = Inr trace' \<Longrightarrow>
   trace' = trace @ map (\<lambda>q. Tx_queue_setup port (of_nat q) nb off) [q..<q + n]"
proof (induction n arbitrary: q trace)
  case (Suc n)
  from Suc.prems have "tx_queues_setup D port nb off (Suc q) n (trace @ [Tx_queue_setup port (of_nat q) nb off]) = Inr trace'"
    by (simp add: and_then_Inr call_ok_Inr)
  from Suc.IH[OF this] show ?case unfolding upt_step by simp
qed simp

definition pool_calls :: "dpdk \<Rightarrow> string \<Rightarrow> nat \<Rightarrow> calls" where
  "pool_calls D ipv4 i =
     [Pool_create (tx_pool_name ipv4 i) MAX_WIN_LEN 0 (pktmbuf_headroom D + sizeof_netccl_pkt),
      Pool_create (rx_pool_name ipv4 i) MAX_WIN_LEN RX_BUFFER_CACHE (default_buf_size D)]"

lemma pools_create_calls:
  "pools_create D ipv4 i n trace = Inr trace' \<Longrightarrow> trace' = trace @ concat (map (pool_calls D ipv4) [i..<i + n])"
proof (induction n arbitrary: i trace)
  case (Suc n)
  from Suc.prems have "pools_create D ipv4 (Suc i) n (trace @ pool_calls D ipv4 i) = Inr trace'"
    by (auto simp: pool_create_def pool_calls_def Let_def split: if_splits)
  from Suc.IH[OF this] show ?case unfolding upt_step by simp
qed simp

lemma launch_workers_calls:
  "launch_workers D N ipv4 addr port w n trace = Inr (ctxs, trace') \<Longrightarrow>
   trace' = trace @ map (\<lambda>w. Remote_launch w (w + 1)) [w..<w + n]
   \<and> map Inr ctxs = map (new_ctx D N ipv4 addr port) [w..<w + n]"
proof (induction n arbitrary: w trace ctxs)
  case (Suc n)
  from Suc.prems obtain c cs where c: "new_ctx D N ipv4 addr port w = Inr c" "ctxs = c # cs"
      and l: "launch_workers D N ipv4 addr port (Suc w) n (trace @ [Remote_launch w (w + 1)]) = Inr (cs, trace')"
    by (auto simp: and_then_Inr call_ok_Inr)
  from Suc.IH[OF l] c show ?case unfolding upt_step by simp
qed simp

lemma flow_init_later:
  "flow_init_from (dpdk_flows D) q n (False, trace) = (0, d', trace') \<Longrightarrow>
   trace' = trace @ map (\<lambda>q. Flow_create (queue_rule (of_nat q))) [q..<q + n]"
proof (induction n arbitrary: q trace)
  case (Suc n)
  from Suc.prems have "flow_init_from (dpdk_flows D) (Suc q) n (False, trace @ [Flow_create (queue_rule (of_nat q))]) = (0, d', trace')"
    by (auto simp: flow_init_queue_def flow_create_def dpdk_flows_def split: if_splits bool.splits)
  from Suc.IH[OF this] show ?case unfolding upt_step by simp
qed simp

lemma flow_init_calls:
  assumes "flow_init (dpdk_flows D) k (True, trace) = (0, d', trace')"
  shows "\<exists>b. trace' = trace @ (if b \<and> k \<noteq> 0 then [Flow_create drop_rule] else [])
      @ map (\<lambda>q. Flow_create (queue_rule (of_nat q))) [0..<unat k]"
proof (cases "unat k")
  case 0
  then show ?thesis using assms by (simp add: flow_init_def unat_eq_0)
next
  case (Suc n)
  define t1 where "t1 = trace @ (if flow_is_valid D drop_rule trace then [Flow_create drop_rule] else [])"
  have drop: "snd (flow_create (dpdk_flows D) drop_rule trace) = t1"
    by (simp add: flow_create_def dpdk_flows_def t1_def)
  have "flow_init_from (dpdk_flows D) 0 (Suc n) (False, t1) = (0, d', trace')"
    using assms drop by (simp add: flow_init_def Suc flow_init_queue_def)
  from flow_init_later[OF this] have "trace' = t1 @ map (\<lambda>q. Flow_create (queue_rule (of_nat q))) [0..<unat k]"
    by (simp add: Suc)
  moreover have "k \<noteq> 0" using Suc by auto
  ultimately show ?thesis unfolding t1_def
    by (intro exI[of _ "flow_is_valid D drop_rule trace"]) simp
qed

text \<open>
  The calls of a start with \<open>n\<close> workers on a port: \<open>cpus\<close> are the processors chosen, \<open>nb_rxd\<close> and \<open>nb_txd\<close> the numbers
  of descriptors the card settles for, and \<open>b\<close> says whether the card takes the rule that drops.
\<close>

definition port_calls :: "dpdk \<Rightarrow> string \<Rightarrow> u16 \<Rightarrow> u16 \<times> u16 \<Rightarrow> nat \<Rightarrow> calls" where
  "port_calls D ipv4 port = (\<lambda>(nb_rxd, nb_txd) n.
     [Dev_info_get port, Dev_configure port (of_nat n) (of_nat n) (mbuf_fast_free D port),
      Adjust_nb_desc port (of_nat MAX_WIN_LEN) (if counts_tx_queue D then of_nat MAX_WIN_LEN else 2 * of_nat MAX_PKT_BURST)]
     @ map (\<lambda>q. Rx_queue_setup port (of_nat q) nb_rxd (rx_pool_name ipv4 q)) [0..<n]
     @ map (\<lambda>q. Tx_queue_setup port (of_nat q) nb_txd (mbuf_fast_free D port)) [0..<n]
     @ [Dev_start port, Macaddr_get port, Promiscuous_enable port])"

definition flow_calls :: "bool \<Rightarrow> nat \<Rightarrow> calls" where
  "flow_calls b n = (if b \<and> 0 < n then [Flow_create drop_rule] else [])
     @ map (\<lambda>q. Flow_create (queue_rule (of_nat q))) [0..<n]"

definition startup_calls :: "dpdk \<Rightarrow> string \<Rightarrow> u16 \<Rightarrow> u16 \<times> u16 \<Rightarrow> nat list \<Rightarrow> bool \<Rightarrow> nat \<Rightarrow> calls" where
  "startup_calls D ipv4 port nb cpus b n =
     [Eal_init (eal_parameters cpus)]
     @ concat (map (pool_calls D ipv4) [0..<n])
     @ (if n = 0 then [] else port_calls D ipv4 port nb n)
     @ flow_calls b n
     @ [Macaddr_get port]
     @ map (\<lambda>w. Remote_launch w (w + 1)) [0..<n]"

lemma port_init_calls:
  assumes "port_init D port (int n) (map (rx_pool_name ipv4) [0..<n]) trace = Inr (0, trace')" "n < 2 ^ 16"
  shows "\<exists>nb. trace' = trace @ (if n = 0 then [] else port_calls D ipv4 port nb n)"
proof (cases "n = 0")
  case True
  then show ?thesis using assms by (simp add: port_init_def)
next
  case False
  have u: "unat (of_nat n :: u16) = n" using assms(2) by (simp add: unat_of_nat_small)
  define nb where "nb = adjusted_nb_desc D port (of_nat MAX_WIN_LEN) (if counts_tx_queue D then of_nat MAX_WIN_LEN else 2 * of_nat MAX_PKT_BURST)"
  obtain r t where nb_eq: "nb = (r, t)" by (cases nb)
  from assms(1) False obtain t1 t2 where
      rx: "rx_queues_setup D port r (map (rx_pool_name ipv4) [0..<n]) 0 n (trace @ [Dev_info_get port,
        Dev_configure port (of_nat n) (of_nat n) (mbuf_fast_free D port),
        Adjust_nb_desc port (of_nat MAX_WIN_LEN) (if counts_tx_queue D then of_nat MAX_WIN_LEN else 2 * of_nat MAX_PKT_BURST)]) = Inr t1"
      and tx: "tx_queues_setup D port t (mbuf_fast_free D port) 0 n t1 = Inr t2"
      and e: "trace' = t2 @ [Dev_start port, Macaddr_get port, Promiscuous_enable port]"
    using nb_eq
    by (auto simp: port_init_def Let_def and_then_Inr call_ok_Inr u nb_def[symmetric] split: if_splits)
  have pools: "map (\<lambda>q. Rx_queue_setup port (of_nat q) r (map (rx_pool_name ipv4) [0..<n] ! q)) [0..<0 + n]
      = map (\<lambda>q. Rx_queue_setup port (of_nat q) r (rx_pool_name ipv4 q)) [0..<n]"
    by (rule map_cong) simp_all
  from rx_queues_setup_calls[OF rx] tx_queues_setup_calls[OF tx] e pools False
  show ?thesis by (intro exI[of _ nb]) (simp add: nb_eq port_calls_def)
qed

lemma dpdk_init_parts:
  assumes "dpdk_init S D N nthread nworker ipv4 = Inr (ctxs, trace, lb)"
  obtains node cpu_list port t1 t2 t3 d addr where
    "node_cpus S node nthread = Inr cpu_list"
    "pools_create D ipv4 0 (nat nworker) [Eal_init (eal_parameters cpu_list)] = Inr t1"
    "port_init D port nworker (map (rx_pool_name ipv4) [0..<nat nworker]) t1 = Inr (0, t2)"
    "flow_init (dpdk_flows D) (of_int nworker) (True, t2) = (0, d, t3)"
    "ipv4_to_int (inet_pton S) ipv4 = Inr addr"
    "launch_workers D N ipv4 addr port 0 (nat nworker) (t3 @ [Macaddr_get port]) = Inr (ctxs, trace)"
proof -
  have split_parsed: "(case r of (x, y) \<Rightarrow> f x y) = Inr z \<longleftrightarrow> (\<exists>x y. r = (x, y) \<and> f x y = Inr z)" for r :: "'x \<times> 'y" and f and z :: 'z
    by (cases r) simp
  have if_parsed: "(if b then r else Inl e) = Inr z \<longleftrightarrow> b \<and> r = Inr z" for b and r :: "'e + 'z" and e z
    by simp
  show thesis
    using assms
    by (clarsimp simp: dpdk_init_def Let_def and_then_Inr split_parsed if_parsed) (rule that; assumption)
qed

lemma node_cpus_picks:
  assumes "node_cpus S node thread_cnt = Inr l"
  shows "\<exists>sockets. get_socket_list_with_cpu_index (cpuinfo S) = Inr (map int sockets)
    \<and> int (length l) = thread_cnt \<and> distinct l \<and> (\<forall>c\<in>set l. c < length sockets \<and> int (sockets ! c) = node)
    \<and> (\<forall>c<length sockets. int (sockets ! c) = node \<and> c \<notin> set l \<longrightarrow> (\<forall>d\<in>set l. c < d))"
proof -
  from assms obtain ss where ss: "get_socket_list_with_cpu_index (cpuinfo S) = Inr ss" "list_all (\<lambda>s. 0 \<le> s) ss"
      and l: "cpu_list_on_node (map nat ss) node thread_cnt = Some l"
    by (auto simp: node_cpus_def and_then_Inr or_abort_def split: if_splits option.splits)
  have ss_eq: "map int (map nat ss) = ss" using ss(2) by (simp add: list_all_iff map_idI)
  obtain ms where ms: "map nat ss = ms" by blast
  have "0 \<le> node"
    using l by (auto simp: cpu_list_on_node_def get_cpu_list_by_socket_def bind_eq_Some_conv split: if_splits)
  then obtain k where k: "node = int k" by (metis zero_le_imp_eq_int)
  from cpu_list_on_node_picks[OF l[unfolded k ms]] show ?thesis
    using ss(1) ss_eq unfolding k ms by (intro exI[of _ ms]) simp
qed

lemma node_cpus_pos: "node_cpus S node thread_cnt = Inr l \<Longrightarrow> 0 < thread_cnt"
  by (auto simp: node_cpus_def and_then_Inr or_abort_def cpu_list_on_node_def bind_eq_Some_conv split: if_splits option.splits)

lemma startup_run:
  assumes "dpdk_init S D N nthread (nthread - 1) ipv4 = Inr (ctxs, trace, lb)" "nthread \<le> 2 ^ 16"
  shows "\<exists>port nb cpus b addr. trace = startup_calls D ipv4 port nb cpus b (length ctxs)
    \<and> length cpus = length ctxs + 1 \<and> distinct cpus \<and> int (length ctxs) = nthread - 1
    \<and> map Inr ctxs = map (new_ctx D N ipv4 addr port) [0..<length ctxs]"
proof -
  obtain node cpu_list port t1 t2 t3 d addr where
      cpus: "node_cpus S node nthread = Inr cpu_list"
    and pools: "pools_create D ipv4 0 (nat (nthread - 1)) [Eal_init (eal_parameters cpu_list)] = Inr t1"
    and port: "port_init D port (nthread - 1) (map (rx_pool_name ipv4) [0..<nat (nthread - 1)]) t1 = Inr (0, t2)"
    and flow: "flow_init (dpdk_flows D) (of_int (nthread - 1)) (True, t2) = (0, d, t3)"
    and launch: "launch_workers D N ipv4 addr port 0 (nat (nthread - 1)) (t3 @ [Macaddr_get port]) = Inr (ctxs, trace)"
    by (rule dpdk_init_parts[OF assms(1)])
  from node_cpus_picks[OF cpus] node_cpus_pos[OF cpus] have c: "int (length cpu_list) = nthread" "0 < nthread" "distinct cpu_list" by auto
  obtain n where n: "nthread - 1 = int n" using c(2) by (metis zle_diff1_eq zero_le_imp_eq_int)
  have small: "n < 2 ^ 16" using n assms(2) by simp
  then have u: "unat (of_nat n :: u16) = n" "(of_nat n :: u16) \<noteq> 0 \<longleftrightarrow> 0 < n"
    by (simp_all add: unat_of_nat_small word_unat_eq_iff)
  note pools = pools_create_calls[OF pools, unfolded n]
  obtain nb where nb: "t2 = t1 @ (if n = 0 then [] else port_calls D ipv4 port nb n)"
    using port_init_calls[OF port[unfolded n nat_int] small] by blast
  obtain b where b: "t3 = t2 @ flow_calls b n"
    using flow_init_calls[OF flow] n u by (auto simp: flow_calls_def)
  note l = launch_workers_calls[OF launch, unfolded n]
  have len: "length ctxs = n" using l by (metis length_map length_upt nat_int diff_zero add_0)
  have "trace = startup_calls D ipv4 port nb cpu_list b n"
    using pools nb b l by (simp add: startup_calls_def)
  moreover have "length cpu_list = n + 1" using c n by linarith
  ultimately show ?thesis using c l n len by (intro exI) auto
qed

subsection \<open>Steering\<close>

fun call_rule :: "dpdk_call \<Rightarrow> flow_rule list" where
  "call_rule (Flow_create r) = [r]"
| "call_rule _ = []"

definition rules_of :: "calls \<Rightarrow> flow_rule list" where
  "rules_of trace = concat (map call_rule trace)"

lemma rules_of_simps [simp]:
  "rules_of [] = []" "rules_of (c # t) = call_rule c @ rules_of t" "rules_of (t @ t') = rules_of t @ rules_of t'"
  by (simp_all add: rules_of_def)

lemma no_rules:
  "rules_of (map (\<lambda>q. Rx_queue_setup port (f q) nb (g q)) qs) = []"
  "rules_of (map (\<lambda>q. Tx_queue_setup port (f q) nb off) qs) = []"
  "rules_of (map (\<lambda>w. Remote_launch w (k w)) qs) = []"
  "rules_of (concat (map (pool_calls D ipv4) qs)) = []"
  "rules_of (map (\<lambda>q. Flow_create (h q)) qs) = map h qs"
  by (induction qs) (simp_all add: pool_calls_def)

lemma startup_rules:
  "rules_of (startup_calls D ipv4 port nb cpus b n) =
     (if b \<and> 0 < n then [drop_rule] else []) @ map (\<lambda>q. queue_rule (of_nat q)) [0..<n]"
proof -
  have "rules_of (port_calls D ipv4 port nb n) = []"
    by (cases nb) (simp add: port_calls_def no_rules)
  then show ?thesis
    by (simp add: startup_calls_def flow_calls_def no_rules)
qed

lemma new_ctx_fields:
  assumes "new_ctx D N ipv4 addr port w = Inr c"
  shows "worker_id c = w \<and> rx_mbuf_pool c = rx_pool_name ipv4 w \<and> tx_mbuf_pool c = tx_pool_name ipv4 w \<and> port_id c = port"
proof -
  from assms obtain s where "c = \<lparr>port_id = port, worker_id = w, tx_mbuf_pool = tx_pool_name ipv4 w, rx_mbuf_pool = rx_pool_name ipv4 w, ctx_worker = s\<rparr>"
    by (auto simp: new_ctx_def and_then_Inr)
  then show ?thesis by simp
qed

lemma new_ctx_packets:
  assumes "new_ctx D N ipv4 addr port w = Inr ctx" "st \<in> set (win (ctx_worker ctx))"
  shows "ip (ps_pkt st) = prefill_ip addr w"
  using assms
  by (auto simp: new_ctx_def and_then_Inr or_abort_def new_worker_def bind_eq_Some_conv new_slot_def prefill_pkt_def
      split: option.splits)

lemma filter_one: "k < n \<Longrightarrow> filter (\<lambda>q. q = k) [0..<n] = [k]"
  by (induction n) (auto simp: filter_empty_conv less_Suc_eq)

lemma matching_rules:
  assumes "w < n" "n \<le> 64" "h = prefill_ip addr w"
  shows "filter (\<lambda>r. flow_priority r = 0 \<and> steered r h) (map (\<lambda>q. queue_rule (of_nat q)) [0..<n]) = [queue_rule (of_nat w)]"
proof -
  have "flow_priority (queue_rule (of_nat q)) = 0 \<and> steered (queue_rule (of_nat q)) h \<longleftrightarrow> q = w" if "q < n" for q
    using flow_rules_steer[of q w h addr] that assms by (simp add: queue_rule_def)
  then have "filter ((\<lambda>r. flow_priority r = 0 \<and> steered r h) \<circ> (\<lambda>q. queue_rule (of_nat q))) [0..<n] = filter (\<lambda>q. q = w) [0..<n]"
    by (intro filter_cong) auto
  then show ?thesis using filter_one[OF assms(1)] by (simp add: filter_map)
qed

text \<open>
  C29: After a start with at most 64 workers the flow rules steer the switch's answers: of the rules
  the start made, exactly the rule of queue \<open>w\<close> is one of priority 0 that takes the headers the
  packets of worker \<open>w\<close> are filled in with (an answer has them too).
\<close>

theorem started_workers_steered:
  assumes "dpdk_init S D N nthread (nthread - 1) ipv4 = Inr (ctxs, trace, lb)" "nthread \<le> 65"
    and "w < length ctxs" "st \<in> set (win (ctx_worker (ctxs ! w)))"
  shows "filter (\<lambda>r. flow_priority r = 0 \<and> steered r (ip (ps_pkt st))) (rules_of trace) = [queue_rule (of_nat w)]"
proof -
  obtain port nb cpus b addr where t: "trace = startup_calls D ipv4 port nb cpus b (length ctxs)"
      and n: "int (length ctxs) = nthread - 1"
      and c: "map Inr ctxs = map (new_ctx D N ipv4 addr port) [0..<length ctxs]"
    using startup_run[OF assms(1)] assms(2) by fastforce
  have "new_ctx D N ipv4 addr port w = Inr (ctxs ! w)"
    using arg_cong[OF c, of "\<lambda>l. l ! w"] assms(3) by simp
  note h = new_ctx_packets[OF this assms(4)]
  have "length ctxs \<le> 64" using n assms(2) by linarith
  with matching_rules[OF assms(3) _ h] show ?thesis
    by (simp add: t startup_rules drop_rule_def)
qed

subsection \<open>Properties\<close>

text \<open>
  C28: A start that comes to the loop of the load balancer has made exactly the planned calls in the planned
  order: the environment on \<open>nthread\<close> distinct processors, the two pools of each worker, the port with one
  receive and one send queue for each worker (queue \<open>q\<close> fed from the receive pool of worker \<open>q\<close>), the port started, the
  flow rules, and only then the workers, each once, worker \<open>w\<close> on logical core \<open>w + 1\<close>; and the contexts
  are those of workers 0, 1, and so on, each with its own queue and pools.
\<close>

theorem startup_order:
  assumes "dpdk_init S D N nthread (nthread - 1) ipv4 = Inr (ctxs, trace, lb)" "nthread \<le> 2 ^ 16"
  shows "\<exists>port nb cpus b. trace = startup_calls D ipv4 port nb cpus b (length ctxs)
    \<and> length cpus = length ctxs + 1 \<and> distinct cpus \<and> int (length ctxs) = nthread - 1
    \<and> map worker_id ctxs = [0..<length ctxs] \<and> map rx_mbuf_pool ctxs = map (rx_pool_name ipv4) [0..<length ctxs]
    \<and> map tx_mbuf_pool ctxs = map (tx_pool_name ipv4) [0..<length ctxs] \<and> list_all (\<lambda>c. port_id c = port) ctxs"
proof -
  obtain port nb cpus b addr where t: "trace = startup_calls D ipv4 port nb cpus b (length ctxs)"
      and n: "length cpus = length ctxs + 1" "distinct cpus" "int (length ctxs) = nthread - 1"
      and c: "map Inr ctxs = map (new_ctx D N ipv4 addr port) [0..<length ctxs]"
    using startup_run[OF assms] by blast
  have f: "worker_id (ctxs ! w) = w \<and> rx_mbuf_pool (ctxs ! w) = rx_pool_name ipv4 w
      \<and> tx_mbuf_pool (ctxs ! w) = tx_pool_name ipv4 w \<and> port_id (ctxs ! w) = port" if "w < length ctxs" for w
  proof -
    have "new_ctx D N ipv4 addr port w = Inr (ctxs ! w)"
      using arg_cong[OF c, of "\<lambda>l. l ! w"] that by simp
    from new_ctx_fields[OF this] show ?thesis by blast
  qed
  have "map worker_id ctxs = [0..<length ctxs]" "map rx_mbuf_pool ctxs = map (rx_pool_name ipv4) [0..<length ctxs]"
    "map tx_mbuf_pool ctxs = map (tx_pool_name ipv4) [0..<length ctxs]" "list_all (\<lambda>c. port_id c = port) ctxs"
    using f by (auto intro!: nth_equalityI simp: list_all_length)
  with t n show ?thesis by blast
qed

text \<open>
  Read from the text of \<open>/proc/cpuinfo\<close>, the processors the backend runs on are as many as it has
  threads, distinct, all on the card's node, and those with the highest numbers there.
\<close>

theorem processors_from_text:
  assumes "cpuinfo S = Some (concat (map cpuinfo_line sockets))" "node_cpus S node thread_cnt = Inr l"
  shows "int (length l) = thread_cnt \<and> distinct l \<and> (\<forall>c\<in>set l. c < length sockets \<and> int (sockets ! c) = node)
    \<and> (\<forall>c<length sockets. int (sockets ! c) = node \<and> c \<notin> set l \<longrightarrow> (\<forall>d\<in>set l. c < d))"
proof -
  obtain ss where ss: "get_socket_list_with_cpu_index (cpuinfo S) = Inr (map int ss)"
      and l: "int (length l) = thread_cnt \<and> distinct l \<and> (\<forall>c\<in>set l. c < length ss \<and> int (ss ! c) = node)
        \<and> (\<forall>c<length ss. int (ss ! c) = node \<and> c \<notin> set l \<longrightarrow> (\<forall>d\<in>set l. c < d))"
    using node_cpus_picks[OF assms(2)] by blast
  have "map int ss = map int sockets"
    using ss by (simp add: assms(1) get_socket_list_with_cpu_index_def cpuinfo_read_back)
  then have "ss = sockets" by (simp add: map_injective inj_of_nat)
  with l show ?thesis by blast
qed

subsection \<open>A start\<close>

text \<open>A machine with four processors on two sockets, a card on the second, and a library that refuses nothing.\<close>

definition demo_sys_info :: sys_info where
  "demo_sys_info = \<lparr>getenv = Map.empty, inet_aton = (\<lambda>_. Some 0x0100000a), inet_pton = (\<lambda>_. Some 0x0100000a),
     getifaddrs = Some [\<lparr>ifa_name = ''lo'', ifa_addr = Some (AF_INET, 0x0100007f)\<rparr>,
       \<lparr>ifa_name = ''ens10f1'', ifa_addr = Some (AF_INET, 0x0100000a)\<rparr>],
     drvinfo = (\<lambda>_. Some ''0000:e3:00.1''), file_content = (\<lambda>_. Some ''1''),
     cpuinfo = Some (concat (map cpuinfo_line [0, 1, 0, 1])), shared_segment = Some True\<rparr>"

definition demo_dpdk :: dpdk where
  "demo_dpdk = \<lparr>answer = (\<lambda>_ c. case c of Pool_create _ _ _ _ \<Rightarrow> 1 | Flow_create _ \<Rightarrow> 1 | _ \<Rightarrow> 0),
     is_valid_port = (\<lambda>_. True), mbuf_fast_free = (\<lambda>_. False), adjusted_nb_desc = (\<lambda>_ r t. (r, t)),
     counts_tx_queue = False, dev_count_avail = 1, port_by_name = (\<lambda>_. Some 0), flow_is_valid = (\<lambda>_ _. True),
     ether_unformat = (\<lambda>_. [2, 0, 0, 0, 0, 0]), macaddr = (\<lambda>_. [2, 0, 0, 0, 0, 1]),
     pool_buffers = (\<lambda>_. [\<lparr>data_len = 0, pkt_len = 0, eth = \<lparr>eth_dst = [], eth_src = [], ether_type = 0\<rparr>, ip = zero_ip,
       inc = mk_inc 0 0 0 0 0 0, payload = []\<rparr>]),
     pktmbuf_headroom = 128, default_buf_size = 2176\<rparr>"

definition demo_fresh :: "(unit, unit) fresh" where
  "demo_fresh = \<lparr>fresh_queue = (), fresh_card = (\<lambda>_. ()), fresh_mem = (\<lambda>_. 0)\<rparr>"

lemma demo_cpus: "node_cpus demo_sys_info 1 2 = Inr [3, 1]"
proof -
  have "get_socket_list_with_cpu_index (cpuinfo demo_sys_info) = Inr (map int [0, 1, 0, 1])"
    unfolding demo_sys_info_def sys_info.simps get_socket_list_with_cpu_index_def option.case by (rule cpuinfo_read_back)
  moreover have "get_cpu_list_by_socket [0, 1, 0, 1] 1 = Some [1, 3]"
    using get_cpu_list_by_socket_eq[of "[0, 1, 0, 1]" 1] by (simp add: upt_rec)
  ultimately show ?thesis by (simp add: node_cpus_def cpu_list_on_node_def or_abort_def)
qed

lemma demo_start: "\<exists>c t. dpdk_init demo_sys_info demo_dpdk demo_fresh 2 (2 - 1) ''10.0.0.1'' = Inr ([c], t, Lb_loop)
    \<and> win (ctx_worker c) \<noteq> []"
proof -
  have card: "get_dev_by_ip (inet_aton demo_sys_info) (getifaddrs demo_sys_info) ''10.0.0.1'' = Inr ''ens10f1''"
    "get_pci_by_dev (drvinfo demo_sys_info) ''ens10f1'' = ''0000:e3:00.1''"
    "ipv4_to_int (inet_pton demo_sys_info) ip = Inr (betoh 0x0100000a)"
    "shm_init demo_sys_info = Inr ()" for ip
    by (simp_all add: demo_sys_info_def get_dev_by_ip_def get_pci_by_dev_def ipv4_to_int_def shm_init_def)
  have node: "get_socket_by_pci (file_content demo_sys_info) ''0000:e3:00.1'' = Inr 1"
    by (simp add: demo_sys_info_def get_socket_by_pci_def scan_int_def skip_space_def is_space_def digit_value_def digits_value_def less_eq_char_def)
  have port: "\<exists>t'. port_init demo_dpdk 0 1 pools t = Inr (0, t')" for pools t
    by (simp add: port_init_def demo_dpdk_def call_ok_def Let_def)
  have flow: "\<exists>t'. flow_init (dpdk_flows demo_dpdk) 1 (True, t) = (0, False, t')" for t
    by (simp add: flow_init_def flow_init_queue_def flow_create_def dpdk_flows_def demo_dpdk_def Let_def)
  have ctx: "\<exists>c. new_ctx demo_dpdk demo_fresh ip addr port 0 = Inr c \<and> win (ctx_worker c) \<noteq> []" for ip addr port
    by (simp add: new_ctx_def new_worker_def queue_process_buffer_def demo_dpdk_def or_abort_def MAX_PKT_BURST_def)
  obtain t1 where t1: "pools_create demo_dpdk ''10.0.0.1'' 0 1 [Eal_init (eal_parameters [3, 1])] = Inr t1"
    by (simp add: demo_dpdk_def pool_create_def)
  obtain t2 where t2: "port_init demo_dpdk 0 1 (map (rx_pool_name ''10.0.0.1'') [0..<1]) t1 = Inr (0, t2)" using port by blast
  obtain t3 where t3: "flow_init (dpdk_flows demo_dpdk) 1 (True, t2) = (0, False, t3)" using flow by blast
  obtain c where c: "new_ctx demo_dpdk demo_fresh ''10.0.0.1'' (betoh 0x0100000a) 0 0 = Inr c" "win (ctx_worker c) \<noteq> []"
    using ctx by blast
  have misc: "answer demo_dpdk [] (Eal_init x) = 0" "0 < dev_count_avail demo_dpdk" "or_abort (port_by_name demo_dpdk p) = Inr 0"
    "call_ok demo_dpdk (Remote_launch 0 1) t = Inr (t @ [Remote_launch 0 1])"
    "load_balancer_start (getenv demo_sys_info) 1 = Lb_loop" for x p t
    by (simp_all add: demo_dpdk_def or_abort_def call_ok_def load_balancer_start_def demo_sys_info_def)
  have l: "launch_workers demo_dpdk demo_fresh ''10.0.0.1'' (betoh 0x0100000a) 0 0 1 t = Inr ([c], t @ [Remote_launch 0 1])" for t
    using c misc(4) by simp
  have "dpdk_init demo_sys_info demo_dpdk demo_fresh 2 (2 - 1) ''10.0.0.1'' = Inr ([c], t3 @ [Macaddr_get 0] @ [Remote_launch 0 1], Lb_loop)"
    using t1 t2 t3 l c(1) misc by (simp add: dpdk_init_def card node demo_cpus Let_def)
  with c(2) show ?thesis by blast
qed

theorem startup_order_witness:
  "\<exists>c t port nb cpus b. dpdk_init demo_sys_info demo_dpdk demo_fresh 2 (2 - 1) ''10.0.0.1'' = Inr ([c], t, Lb_loop)
    \<and> t = startup_calls demo_dpdk ''10.0.0.1'' port nb cpus b 1 \<and> worker_id c = 0"
proof -
  obtain c t where c: "dpdk_init demo_sys_info demo_dpdk demo_fresh 2 (2 - 1) ''10.0.0.1'' = Inr ([c], t, Lb_loop)"
    using demo_start by blast
  from startup_order[OF c] obtain port nb cpus b where "t = startup_calls demo_dpdk ''10.0.0.1'' port nb cpus b 1" "worker_id c = 0"
    by auto
  with c show ?thesis by blast
qed

theorem processors_from_text_witness:
  "node_cpus demo_sys_info 1 2 = Inr [3, 1] \<and> distinct [3, 1 :: nat]"
  using processors_from_text[of demo_sys_info "[0, 1, 0, 1]" 1 2 "[3, 1]"] demo_cpus by (simp add: demo_sys_info_def)

theorem started_workers_steered_witness:
  "\<exists>c t st. dpdk_init demo_sys_info demo_dpdk demo_fresh 2 (2 - 1) ''10.0.0.1'' = Inr ([c], t, Lb_loop)
    \<and> st \<in> set (win (ctx_worker c))
    \<and> filter (\<lambda>r. flow_priority r = 0 \<and> steered r (ip (ps_pkt st))) (rules_of t) = [queue_rule 0]"
proof -
  obtain c t st where c: "dpdk_init demo_sys_info demo_dpdk demo_fresh 2 (2 - 1) ''10.0.0.1'' = Inr ([c], t, Lb_loop)"
      and st: "st \<in> set (win (ctx_worker c))"
    using demo_start by (metis last_in_set)
  from started_workers_steered[OF c, of 0 st] st have
    "filter (\<lambda>r. flow_priority r = 0 \<and> steered r (ip (ps_pkt st))) (rules_of t) = [queue_rule 0]" by simp
  with c st show ?thesis by blast
qed

end
